(* ===== verification/Prelude.thy ===== *)
theory Prelude
  imports Main "HOL-Library.Word"
begin

text \<open>
  The prelude of the development: the names of the C types the sources use, the error
  codes they return, C strings as byte lists, and the list and word facts that the
  component theories share.  The collections \<open>c_simps\<close> (evaluation of small C-level
  helpers) and \<open>word_nat\<close> (moving a word goal to the natural numbers) are filled here
  and extended by the components.
\<close>

unbundle bit_operations_syntax

named_theorems c_simps \<open>evaluation of C-level helpers\<close>
named_theorems word_nat \<open>from words to natural numbers\<close>

section \<open>Types\<close>

type_synonym u8 = "8 word"
type_synonym u16 = "16 word"
type_synonym u32 = "32 word"
type_synonym u64 = "64 word"

text \<open>
  A C string is the list of its bytes before the terminating NUL; a pointer into it is a
  suffix of that list.  Reading through the pointer gives the NUL at the end.
\<close>

type_synonym cstring = "u8 list"

definition deref :: "cstring \<Rightarrow> u8" where
  "deref s = (case s of [] \<Rightarrow> 0 | c # _ \<Rightarrow> c)"

text \<open>A string literal of the source.\<close>

definition cs :: "string \<Rightarrow> cstring" where
  "cs s = map of_char s"

definition is_cstring :: "cstring \<Rightarrow> bool" where
  "is_cstring s \<longleftrightarrow> 0 \<notin> set s"

section \<open>Errors\<close>

text \<open>The error codes of \<open>errno.h\<close> that the modelled functions return (negated).\<close>

datatype errno =
    EINVAL | ENOENT | ENOSPC | ENOTTY | ENOMEM | ERANGE | EADDRINUSE | ECONNRESET
  | ETIMEDOUT | ENOTCONN | ENETUNREACH | ENOTSUP | EPERM | EACCES | EIO | ENOBUFS
  | EPROTONOSUPPORT | EAFNOSUPPORT | ECANCELED | EPIPE

type_synonym 'a result = "errno + 'a"

section \<open>C strings\<close>

lemma deref_Nil [simp]: "deref [] = 0"
  by (simp add: deref_def)

lemma deref_Cons [simp]: "deref (c # s) = c"
  by (simp add: deref_def)

lemma cs_Nil [simp]: "cs [] = []"
  by (simp add: cs_def)

lemma cs_Cons [simp]: "cs (c # s) = of_char c # cs s"
  by (simp add: cs_def)

lemma length_cs [simp]: "length (cs s) = length s"
  by (simp add: cs_def)

lemma is_cstring_simps [simp]:
  "is_cstring []"
  "is_cstring (c # s) \<longleftrightarrow> c \<noteq> 0 \<and> is_cstring s"
  "is_cstring (s @ t) \<longleftrightarrow> is_cstring s \<and> is_cstring t"
  by (auto simp: is_cstring_def)

lemma is_cstring_take [intro]: "is_cstring s \<Longrightarrow> is_cstring (take n s)"
  by (auto simp: is_cstring_def dest: in_set_takeD)

lemma is_cstring_drop [intro]: "is_cstring s \<Longrightarrow> is_cstring (drop n s)"
  by (auto simp: is_cstring_def dest: in_set_dropD)

lemma deref_zero_iff: "is_cstring s \<Longrightarrow> deref s = 0 \<longleftrightarrow> s = []"
  by (cases s) auto

section \<open>Words\<close>

lemmas [word_nat] = word_le_nat_alt word_less_nat_alt unat_word_ariths

lemma unat_word_less_power [simp]: "unat (x :: 'a::len word) < 2 ^ LENGTH('a)"
  by (rule unsigned_less)

lemma unat_u8_less [simp]: "unat (x :: u8) < 256"
  using unat_word_less_power [of x] by simp

lemma unat_u16_less [simp]: "unat (x :: u16) < 65536"
  using unat_word_less_power [of x] by simp

lemma unat_u32_less [simp]: "unat (x :: u32) < 4294967296"
  using unat_word_less_power [of x] by simp

lemma unat_drop_bit: "unat (drop_bit n (x :: 'a::len word)) = unat x div 2 ^ n"
  by (subst unat_drop_bit_eq) (rule drop_bit_eq_div)

lemma unat_drop_bit_less:
  "drop_bit n (x :: 'a::len word) \<noteq> 0 \<Longrightarrow> 0 < n \<Longrightarrow> unat (drop_bit n x) < unat x"
proof -
  assume "drop_bit n x \<noteq> 0" and "0 < n"
  then have "0 < unat x" by (metis drop_bit_of_0 gr0I unat_eq_zero)
  moreover have "(1::nat) < 2 ^ n" using \<open>0 < n\<close> by (simp add: one_less_power del: One_nat_def)
  ultimately show ?thesis by (simp add: unat_drop_bit div_less_dividend)
qed

lemma unat_ucast_up:
  assumes "LENGTH('a::len) \<le> LENGTH('b::len)"
  shows "unat (ucast (x :: 'a word) :: 'b word) = unat x"
proof -
  have "unat x < 2 ^ LENGTH('a)" by (rule unsigned_less)
  also have "\<dots> \<le> 2 ^ LENGTH('b)" using assms by (simp add: power_increasing)
  finally show ?thesis unfolding unsigned_ucast_eq by (rule take_bit_nat_eq_self)
qed

lemma ucast_ucast_up:
  assumes "LENGTH('a::len) \<le> LENGTH('b::len)"
  shows "(ucast (ucast (x :: 'a word) :: 'b word) :: 'c::len word) = ucast x"
proof -
  have "(of_nat (unat (ucast x :: 'b word)) :: 'c word) = of_nat (unat x)"
    by (simp only: unat_ucast_up [OF assms])
  then show ?thesis by simp
qed

lemma and_0xf_take_bit: "(n :: 'a::len word) AND 0xf = take_bit 4 n"
  by (simp add: take_bit_eq_mask mask_eq_exp_minus_1)

lemma unat_and_0xf: "unat ((n :: 'a::len word) AND 0xf) = unat n mod 16"
  unfolding and_0xf_take_bit unsigned_take_bit_eq by (simp add: take_bit_eq_mod)

text \<open>Every byte is one of the 256 values: an exhaustive check by computation.\<close>

lemma case_sum_eq_iff:
  "(case r of Inl x \<Rightarrow> f x | Inr y \<Rightarrow> g y) = v \<longleftrightarrow>
     (\<exists>x. r = Inl x \<and> f x = v) \<or> (\<exists>y. r = Inr y \<and> g y = v)"
  by (cases r) auto

lemma unat_of_nat_u32: "n < 2 ^ 32 \<Longrightarrow> unat (of_nat n :: u32) = n"
  by (simp add: unat_of_nat take_bit_nat_eq_self)

lemma sint_of_nat_u32: "n < 2 ^ 31 \<Longrightarrow> sint (of_nat n :: u32) = int n"
  by (simp add: signed_of_nat signed_take_bit_int_eq_self)

lemma u8_below:
  assumes "unat c < k" and "list_all (\<lambda>n. P (word_of_nat n :: u8)) [0..<k]"
  shows "P c"
proof -
  have "unat c \<in> set [0..<k]" using assms(1) by simp
  with assms(2) have "P (word_of_nat (unat c))"
    unfolding list_all_iff by blast
  then show ?thesis by simp
qed

lemma u8_exhaustive:
  assumes "list_all (\<lambda>n. P (word_of_nat n :: u8)) [0..<256]"
  shows "P c"
proof -
  have "unat c \<in> set [0..<256]" by simp
  with assms have "P (word_of_nat (unat c))"
    unfolding list_all_iff by blast
  then show ?thesis by simp
qed

lemma take_bit_add_word:
  fixes a b :: "'a::len word"
  assumes "k \<le> LENGTH('a)"
  shows "take_bit k (a + take_bit k b) = take_bit k (a + b)"
proof -
  have dvd: "(2 :: nat) ^ k dvd 2 ^ LENGTH('a)" using assms by (rule le_imp_power_dvd)
  have "unat (take_bit k (a + take_bit k b)) = unat (take_bit k (a + b))"
    unfolding unsigned_take_bit_eq unat_word_ariths(1) unfolding take_bit_eq_mod
    using dvd by (simp add: mod_mod_cancel mod_add_right_eq)
  then show ?thesis by (rule unsigned_word_eqI)
qed

end
