(* ===== verification/CString.thy ===== *)
theory CString
  imports Prelude
begin

text \<open>
  The C library of the sources: character classes (\<open>include/ctype.h\<close>,
  \<open>core/ctype.c\<close>), memory and string routines and number parsing
  (\<open>core/string.c\<close>).  Memory is a function from addresses to bytes; strings are
  byte lists (theory \<open>Prelude\<close>).  A plain \<open>char\<close> is signed, as on the x86 targets:
  promoting one to \<open>int\<close> is \<^term>\<open>sint\<close>, and to \<open>unsigned int\<close> is sign extension.
\<close>

section \<open>Character classes\<close>

definition isdigit :: "int \<Rightarrow> bool" where
  "isdigit character \<longleftrightarrow> character \<ge> 48 \<and> character \<le> 57"

definition isxdigit :: "int \<Rightarrow> bool" where
  "isxdigit character \<longleftrightarrow>
     (character \<ge> 48 \<and> character \<le> 57) \<or>
     (character \<ge> 65 \<and> character \<le> 70) \<or>
     (character \<ge> 97 \<and> character \<le> 102)"

definition isupper :: "int \<Rightarrow> bool" where
  "isupper character \<longleftrightarrow> character \<ge> 65 \<and> character \<le> 90"

definition islower :: "int \<Rightarrow> bool" where
  "islower character \<longleftrightarrow> character \<ge> 97 \<and> character \<le> 122"

definition isalpha :: "int \<Rightarrow> bool" where
  "isalpha character \<longleftrightarrow> isupper character \<or> islower character"

definition isalnum :: "int \<Rightarrow> bool" where
  "isalnum character \<longleftrightarrow> isalpha character \<or> isdigit character"

definition isprint :: "int \<Rightarrow> bool" where
  "isprint character \<longleftrightarrow> character \<ge> 32 \<and> character \<le> 126"

definition tolower :: "int \<Rightarrow> int" where
  "tolower character = (if isupper character then character - 65 + 97 else character)"

definition toupper :: "int \<Rightarrow> int" where
  "toupper character = (if islower character then character - 97 + 65 else character)"

definition isspace :: "int \<Rightarrow> bool" where
  "isspace character \<longleftrightarrow>
     character = 32 \<or> character = 12 \<or> character = 10 \<or>
     character = 13 \<or> character = 9 \<or> character = 11"

lemmas ctype_defs [c_simps] =
  isdigit_def isxdigit_def isupper_def islower_def isalpha_def isalnum_def isprint_def
  tolower_def toupper_def isspace_def

section \<open>Memory regions\<close>

type_synonym mem = "nat \<Rightarrow> u8"

fun generic_memset :: "mem \<Rightarrow> nat \<Rightarrow> int \<Rightarrow> nat \<Rightarrow> mem" where
  "generic_memset m dest character 0 = m"
| "generic_memset m dest character (Suc len) =
     generic_memset (m(dest := word_of_int character)) (dest + 1) character len"

fun generic_memcpy :: "mem \<Rightarrow> nat \<Rightarrow> nat \<Rightarrow> nat \<Rightarrow> mem" where
  "generic_memcpy m dest src 0 = m"
| "generic_memcpy m dest src (Suc len) =
     generic_memcpy (m(dest := m src)) (dest + 1) (src + 1) len"

text \<open>
  The reverse copy starts with both pointers one past the end and decrements them before
  each access.
\<close>

fun memcpy_reverse_loop :: "mem \<Rightarrow> nat \<Rightarrow> nat \<Rightarrow> nat \<Rightarrow> mem" where
  "memcpy_reverse_loop m dest src 0 = m"
| "memcpy_reverse_loop m dest src (Suc len) =
     memcpy_reverse_loop (m(dest - 1 := m (src - 1))) (dest - 1) (src - 1) len"

definition generic_memcpy_reverse :: "mem \<Rightarrow> nat \<Rightarrow> nat \<Rightarrow> nat \<Rightarrow> mem" where
  "generic_memcpy_reverse m dest src len = memcpy_reverse_loop m (dest + len) (src + len) len"

definition generic_memmove :: "mem \<Rightarrow> nat \<Rightarrow> nat \<Rightarrow> nat \<Rightarrow> mem" where
  "generic_memmove m dest src len =
     (if dest < src then generic_memcpy m dest src len
      else generic_memcpy_reverse m dest src len)"

fun memcmp :: "mem \<Rightarrow> nat \<Rightarrow> nat \<Rightarrow> nat \<Rightarrow> int" where
  "memcmp m first second 0 = 0"
| "memcmp m first second (Suc len) =
     (let diff = uint (m first) - uint (m second)
      in if diff \<noteq> 0 then diff else memcmp m (first + 1) (second + 1) len)"

fun memchr :: "mem \<Rightarrow> nat \<Rightarrow> int \<Rightarrow> nat \<Rightarrow> nat option" where
  "memchr m src character 0 = None"
| "memchr m src character (Suc len) =
     (if uint (m src) = character then Some src else memchr m (src + 1) character len)"

fun memswap :: "mem \<Rightarrow> nat \<Rightarrow> nat \<Rightarrow> nat \<Rightarrow> mem" where
  "memswap m first second 0 = m"
| "memswap m first second (Suc len) =
     (let temp = m first; m1 = m(first := m second); m2 = m1(second := temp)
      in memswap m2 (first + 1) (second + 1) len)"

text \<open>
  A copy from a buffer outside the modelled memory, whose bytes are given, and the bytes of a
  region.
\<close>

definition mem_write :: "mem \<Rightarrow> nat \<Rightarrow> u8 list \<Rightarrow> mem" where
  "mem_write m a bytes = (\<lambda>x. if a \<le> x \<and> x < a + length bytes then bytes ! (x - a) else m x)"

definition mem_bytes :: "mem \<Rightarrow> nat \<Rightarrow> nat \<Rightarrow> u8 list" where
  "mem_bytes m a n = map (\<lambda>i. m (a + i)) [0..<n]"

section \<open>Strings\<close>

text \<open>The largest \<open>size_t\<close>, passed by the unbounded variants as their limit.\<close>

definition SIZE_MAX :: nat where
  "SIZE_MAX = 2 ^ 64 - 1"

fun strncmp :: "cstring \<Rightarrow> cstring \<Rightarrow> nat \<Rightarrow> int" where
  "strncmp first second 0 = 0"
| "strncmp first second (Suc m) =
     (let diff = uint (deref first) - uint (deref second)
      in if diff \<noteq> 0 then diff
         else if deref first = 0 then 0
         else strncmp (tl first) (tl second) m)"

definition strcmp :: "cstring \<Rightarrow> cstring \<Rightarrow> int" where
  "strcmp first second = strncmp first second SIZE_MAX"

fun strncasecmp :: "cstring \<Rightarrow> cstring \<Rightarrow> nat \<Rightarrow> int" where
  "strncasecmp first second 0 = 0"
| "strncasecmp first second (Suc m) =
     (let diff = toupper (uint (deref first)) - toupper (uint (deref second))
      in if diff \<noteq> 0 then diff
         else if deref first = 0 then 0
         else strncasecmp (tl first) (tl second) m)"

definition strcasecmp :: "cstring \<Rightarrow> cstring \<Rightarrow> int" where
  "strcasecmp first second = strncasecmp first second SIZE_MAX"

fun strnlen :: "cstring \<Rightarrow> nat \<Rightarrow> nat" where
  "strnlen src 0 = 0"
| "strnlen src (Suc m) = (if deref src = 0 then 0 else Suc (strnlen (tl src) m))"

definition strlen :: "cstring \<Rightarrow> nat" where
  "strlen src = strnlen src SIZE_MAX"

text \<open>
  A found character is reported as its index.  The first loop compares with the character
  before it tests for the NUL, so searching for the NUL finds the terminator; the rightmost
  search starts below the terminator and never does.
\<close>

fun strchr :: "cstring \<Rightarrow> int \<Rightarrow> nat option" where
  "strchr [] character = (if uint (0 :: u8) = character then Some 0 else None)"
| "strchr (c # src) character =
     (if uint c = character then Some 0 else map_option Suc (strchr src character))"

fun strrchr_loop :: "cstring \<Rightarrow> int \<Rightarrow> nat \<Rightarrow> nat option" where
  "strrchr_loop src character 0 = None"
| "strrchr_loop src character (Suc i) =
     (if uint (src ! i) = character then Some i else strrchr_loop src character i)"

definition strrchr :: "cstring \<Rightarrow> int \<Rightarrow> nat option" where
  "strrchr src character = strrchr_loop src character (length src)"

text \<open>
  \<open>strstr\<close> compares \<open>len\<close> bytes at each position with \<open>memcmp\<close>, which stops at the first
  difference: at the latest at the NUL of the haystack, which no byte of the needle equals.
\<close>

fun memcmp_str :: "cstring \<Rightarrow> cstring \<Rightarrow> int" where
  "memcmp_str h [] = 0"
| "memcmp_str h (n # ns) =
     (let diff = uint (deref h) - uint n
      in if diff \<noteq> 0 then diff else memcmp_str (tl h) ns)"

fun strstr :: "cstring \<Rightarrow> cstring \<Rightarrow> nat option" where
  "strstr [] needle = None"
| "strstr (c # haystack) needle =
     (if memcmp_str (c # haystack) needle = 0 then Some 0
      else map_option Suc (strstr haystack needle))"

text \<open>\<open>strncpy\<close>: the bytes written to the destination.\<close>

fun strncpy :: "cstring \<Rightarrow> nat \<Rightarrow> u8 list" where
  "strncpy src 0 = []"
| "strncpy src (Suc m) =
     deref src # (if deref src = 0 then replicate m 0 else strncpy (tl src) m)"

fun strcpy :: "mem \<Rightarrow> nat \<Rightarrow> cstring \<Rightarrow> mem" where
  "strcpy m dest [] = m(dest := 0)"
| "strcpy m dest (c # src) =
     (if c = 0 then m(dest := c) else strcpy (m(dest := c)) (dest + 1) src)"

text \<open>The destination of \<open>strcat\<close> already holds a string; its bytes are the second argument.\<close>

definition strcat :: "mem \<Rightarrow> cstring \<Rightarrow> nat \<Rightarrow> cstring \<Rightarrow> mem" where
  "strcat m old dest src = strcpy m (dest + strlen old) src"

section \<open>Numbers\<close>

definition digit_value :: "u32 \<Rightarrow> u32" where
  "digit_value character =
     (if character \<ge> 97 then character - (97 - 10)
      else if character \<ge> 65 then character - (65 - 10)
      else if character \<le> 57 then character - 48
      else character)"

fun skip_space :: "cstring \<Rightarrow> cstring" where
  "skip_space [] = []"
| "skip_space (c # s) = (if isspace (sint c) then skip_space s else c # s)"

text \<open>The result of the preprocessing: the remaining string, the sign and the base.\<close>

definition strtoul_pre :: "cstring \<Rightarrow> nat \<Rightarrow> cstring \<times> bool \<times> nat" where
  "strtoul_pre str0 base0 =
     (let s1 = skip_space str0;
          (s2, negate) =
            (if deref s1 = 45 then (tl s1, True)
             else if deref s1 = 43 then (tl s1, False)
             else (s1, False))
      in if base0 = 0
         then (if deref s2 = 48
               then (let s3 = tl s2
                     in if deref s3 AND NOT 32 = 88 then (tl s3, negate, 16)
                        else (s3, negate, 8))
               else (s2, negate, 10))
         else (s2, negate, base0))"

text \<open>
  The digit loop.  At the terminating NUL the digit value is \<open>0 - '0'\<close>, which wraps to a
  number above every base, so the loop stops there.
\<close>

fun strtoul_loop :: "nat \<Rightarrow> 'l::len word \<Rightarrow> cstring \<Rightarrow> 'l word \<times> cstring" where
  "strtoul_loop base v [] = (v, [])"
| "strtoul_loop base v (c # s) =
     (let digit = digit_value (signed c)
      in if digit \<ge> of_nat base then (v, c # s)
         else strtoul_loop base (v * of_nat base + unsigned digit) s)"

text \<open>
  \<open>strtoul\<close> and \<open>strtoull\<close> are the same code at the widths of \<open>unsigned long\<close> and
  \<open>unsigned long long\<close>.  The end pointer is the unread suffix.
\<close>

definition strtoul :: "cstring \<Rightarrow> nat \<Rightarrow> 'l::len word \<times> cstring" where
  "strtoul str0 base0 =
     (let (s, negate, base) = strtoul_pre str0 base0;
          (v, rest) = strtoul_loop base 0 s
      in (if negate then - v else v, rest))"


section \<open>Memory regions: lemmas\<close>

lemma generic_memset_apply:
  "generic_memset m dest ch len a =
     (if dest \<le> a \<and> a < dest + len then word_of_int ch else m a)"
  by (induction len arbitrary: m dest) auto

text \<open>A forward copy is right when the destination does not lie inside the source.\<close>

lemma generic_memcpy_apply:
  "dest \<le> src \<or> src + len \<le> dest \<Longrightarrow>
   generic_memcpy m dest src len a =
     (if dest \<le> a \<and> a < dest + len then m (src + (a - dest)) else m a)"
proof (induction m dest src len rule: generic_memcpy.induct)
  case (1 m dest src)
  then show ?case by auto
next
  case (2 m dest src len)
  have "generic_memcpy (m(dest := m src)) (dest + 1) (src + 1) len a =
      (if dest + 1 \<le> a \<and> a < dest + 1 + len
       then (m(dest := m src)) (src + 1 + (a - (dest + 1))) else (m(dest := m src)) a)"
    by (rule "2.IH") (use "2.prems" in auto)
  moreover have "src + 1 + (a - (dest + 1)) = src + (a - dest)" if "dest + 1 \<le> a"
    using that by simp
  moreover have "src + (a - dest) \<noteq> dest" if "dest + 1 \<le> a" "a < dest + 1 + len"
    using that "2.prems" by auto
  ultimately show ?case by (auto simp: le_less Suc_le_eq)
qed

lemma memcpy_reverse_loop_apply:
  "src \<le> dest \<or> dest + len \<le> src \<Longrightarrow>
   memcpy_reverse_loop m (dest + len) (src + len) len a =
     (if dest \<le> a \<and> a < dest + len then m (src + (a - dest)) else m a)"
proof (induction len arbitrary: m)
  case 0
  then show ?case by auto
next
  case (Suc len)
  let ?m = "m(dest + len := m (src + len))"
  have "memcpy_reverse_loop ?m (dest + len) (src + len) len a =
      (if dest \<le> a \<and> a < dest + len then ?m (src + (a - dest)) else ?m a)"
    by (rule Suc.IH) (use Suc.prems in auto)
  moreover have "src + (a - dest) \<noteq> dest + len" if "dest \<le> a" "a < dest + len"
    using that Suc.prems by auto
  ultimately show ?case by (auto simp: less_Suc_eq)
qed

lemma memcmp_eq_0_iff:
  "memcmp m first second len = 0 \<longleftrightarrow> (\<forall>i<len. m (first + i) = m (second + i))"
proof (induction m first second len rule: memcmp.induct)
  case (1 m first second)
  then show ?case by simp
next
  case (2 m first second len)
  show ?case
  proof (cases "uint (m first) - uint (m second) = 0")
    case True
    then have eq: "m first = m second" by (simp add: word_uint_eq_iff)
    show ?thesis
      using "2.IH" [OF refl] True eq by (auto simp: less_Suc_eq_0_disj)
  next
    case False
    then have "m (first + 0) \<noteq> m (second + 0)" by auto
    with False show ?thesis by (auto simp: Let_def)
  qed
qed

lemma memchr_Some_iff:
  "memchr m src (uint c) len = Some a \<longleftrightarrow>
     src \<le> a \<and> a < src + len \<and> m a = c \<and> (\<forall>b. src \<le> b \<and> b < a \<longrightarrow> m b \<noteq> c)"
proof (induction m src "uint c" len rule: memchr.induct)
  case (1 m src)
  then show ?case by auto
next
  case (2 m src len)
  show ?case
  proof (cases "m src = c")
    case True
    then show ?thesis by auto
  next
    case False
    then have "uint (m src) \<noteq> uint c" by (simp add: word_uint_eq_iff)
    with "2" False show ?thesis
      by (auto simp: Suc_le_eq) (metis le_less)
  qed
qed

lemma memswap_frame:
  "a < first \<or> first + len \<le> a \<Longrightarrow> a < second \<or> second + len \<le> a \<Longrightarrow>
   memswap m first second len a = m a"
  by (induction len arbitrary: m first second) (auto simp: Let_def)

lemma memswap_first:
  "first + len \<le> second \<or> second + len \<le> first \<Longrightarrow> i < len \<Longrightarrow>
   memswap m first second len (first + i) = m (second + i)"
proof (induction len arbitrary: m first second i)
  case 0
  then show ?case by simp
next
  case (Suc len)
  let ?m = "m(first := m second, second := m first)"
  show ?case
  proof (cases i)
    case 0
    have "memswap ?m (first + 1) (second + 1) len first = ?m first"
      by (rule memswap_frame) (use Suc.prems in auto)
    with 0 Suc.prems show ?thesis by (auto simp: Let_def)
  next
    case (Suc j)
    have "memswap ?m (first + 1) (second + 1) len (first + 1 + j) = ?m (second + 1 + j)"
      by (rule Suc.IH) (use Suc.prems Suc in auto)
    moreover have "second + 1 + j \<noteq> first"
      using Suc.prems Suc by auto
    ultimately show ?thesis using Suc by (simp add: Let_def)
  qed
qed

lemma memswap_second:
  "first + len \<le> second \<or> second + len \<le> first \<Longrightarrow> i < len \<Longrightarrow>
   memswap m first second len (second + i) = m (first + i)"
proof (induction len arbitrary: m first second i)
  case 0
  then show ?case by simp
next
  case (Suc len)
  let ?m = "m(first := m second, second := m first)"
  show ?case
  proof (cases i)
    case 0
    have "memswap ?m (first + 1) (second + 1) len second = ?m second"
      by (rule memswap_frame) (use Suc.prems in auto)
    with 0 show ?thesis by (simp add: Let_def)
  next
    case (Suc j)
    have "memswap ?m (first + 1) (second + 1) len (second + 1 + j) = ?m (first + 1 + j)"
      by (rule Suc.IH) (use Suc.prems Suc in auto)
    moreover have "first + 1 + j \<noteq> second"
      using Suc.prems Suc by auto
    ultimately show ?thesis using Suc by (simp add: Let_def)
  qed
qed

section \<open>Strings: lemmas\<close>

lemma strnlen_eq: "is_cstring s \<Longrightarrow> strnlen s n = min (length s) n"
proof (induction n arbitrary: s)
  case 0
  then show ?case by simp
next
  case (Suc n)
  then show ?case by (cases s) auto
qed

lemma strlen_eq: "is_cstring s \<Longrightarrow> length s \<le> SIZE_MAX \<Longrightarrow> strlen s = length s"
  by (simp add: strlen_def strnlen_eq)

lemma strncmp_eq_0_iff:
  "is_cstring a \<Longrightarrow> is_cstring b \<Longrightarrow> strncmp a b n = 0 \<longleftrightarrow> take n a = take n b"
proof (induction n arbitrary: a b)
  case 0
  then show ?case by simp
next
  case (Suc n)
  then show ?case
    by (cases a; cases b) (auto simp: Let_def word_uint_eq_iff)
qed

lemma strchr_Some_iff:
  "strchr s (uint c) = Some i \<longleftrightarrow>
     (i < length s \<and> s ! i = c \<and> c \<notin> set (take i s)) \<or>
     (c = 0 \<and> i = length s \<and> c \<notin> set s)"
proof (induction s arbitrary: i)
  case Nil
  then show ?case by (auto simp: word_uint_eq_iff)
next
  case (Cons d s)
  show ?case
  proof (cases "d = c")
    case True
    then show ?thesis by (cases i) auto
  next
    case False
    then have "uint d \<noteq> uint c" by (simp add: word_uint_eq_iff)
    with Cons False show ?thesis by (cases i) auto
  qed
qed

lemma strchr_None_iff: "strchr s (uint c) = None \<longleftrightarrow> c \<notin> set s \<and> c \<noteq> 0"
  by (induction s) (auto simp: word_uint_eq_iff)

lemma strrchr_loop_Some_iff:
  "n \<le> length s \<Longrightarrow> strrchr_loop s (uint c) n = Some i \<longleftrightarrow>
     i < n \<and> s ! i = c \<and> (\<forall>j. i < j \<and> j < n \<longrightarrow> s ! j \<noteq> c)"
  by (induction n) (auto simp: less_Suc_eq word_uint_eq_iff)

lemma strrchr_Some_iff:
  "strrchr s (uint c) = Some i \<longleftrightarrow>
     i < length s \<and> s ! i = c \<and> (\<forall>j. i < j \<and> j < length s \<longrightarrow> s ! j \<noteq> c)"
  by (simp add: strrchr_def strrchr_loop_Some_iff)

lemma strrchr_None_iff: "strrchr s (uint c) = None \<longleftrightarrow> c \<notin> set s"
proof -
  have "strrchr_loop s (uint c) n = None \<longleftrightarrow> c \<notin> set (take n s)" if "n \<le> length s" for n
    using that by (induction n) (auto simp: take_Suc_conv_app_nth word_uint_eq_iff)
  then show ?thesis by (simp add: strrchr_def)
qed

text \<open>The comparison of \<open>strstr\<close> is the prefix test.\<close>

lemma memcmp_str_eq_0_iff:
  "is_cstring n \<Longrightarrow> memcmp_str h n = 0 \<longleftrightarrow> take (length n) h = n"
proof (induction h n rule: memcmp_str.induct)
  case (1 h)
  then show ?case by simp
next
  case (2 h n ns)
  then show ?case by (cases h) (auto simp: Let_def word_uint_eq_iff)
qed

lemma strstr_Some_iff:
  "is_cstring n \<Longrightarrow> strstr h n = Some i \<longleftrightarrow>
     i < length h \<and> take (length n) (drop i h) = n \<and>
     (\<forall>j<i. take (length n) (drop j h) \<noteq> n)"
proof (induction h arbitrary: i)
  case Nil
  then show ?case by simp
next
  case (Cons c h)
  show ?case
    by (cases i) (auto simp: memcmp_str_eq_0_iff Cons All_less_Suc2 simp del: memcmp_str.simps)
qed

lemma strstr_None_iff:
  "is_cstring n \<Longrightarrow> strstr h n = None \<longleftrightarrow> (\<forall>i<length h. take (length n) (drop i h) \<noteq> n)"
  by (induction h) (auto simp: memcmp_str_eq_0_iff All_less_Suc2 simp del: memcmp_str.simps)

lemma length_strncpy [simp]: "length (strncpy s n) = n"
  by (induction n arbitrary: s) auto

lemma strncpy_eq:
  "is_cstring s \<Longrightarrow> strncpy s n = take n s @ replicate (n - length s) 0"
proof (induction n arbitrary: s)
  case 0
  then show ?case by simp
next
  case (Suc n)
  then show ?case by (cases s) auto
qed

section \<open>Numbers: lemmas\<close>

text \<open>Digit values below 16 are exactly those of the hexadecimal digits.\<close>

lemma digit_value_u8_hex:
  "(digit_value (signed (c :: u8)) < 16) = isxdigit (sint c)"
  by (rule u8_exhaustive [of _ c]) code_simp

lemma generic_memmove_apply:
  "generic_memmove m dest src len a =
     (if dest \<le> a \<and> a < dest + len then m (src + (a - dest)) else m a)"
proof (cases "dest < src")
  case True
  then show ?thesis by (simp add: generic_memmove_def generic_memcpy_apply)
next
  case False
  then show ?thesis
    by (simp add: generic_memmove_def generic_memcpy_reverse_def memcpy_reverse_loop_apply)
qed

lemma mem_write_outside: "x < a \<or> a + length bytes \<le> x \<Longrightarrow> mem_write m a bytes x = m x"
  by (auto simp: mem_write_def)

text \<open>The memory holds given bytes at an address.\<close>

definition mem_at :: "mem \<Rightarrow> nat \<Rightarrow> u8 list \<Rightarrow> bool" where
  "mem_at m a xs \<longleftrightarrow> (\<forall>i<length xs. m (a + i) = xs ! i)"

lemma mem_at_Nil [simp]: "mem_at m a []"
  by (simp add: mem_at_def)

lemma mem_at_Cons [simp]: "mem_at m a (x # xs) \<longleftrightarrow> m a = x \<and> mem_at m (Suc a) xs"
  by (auto simp: mem_at_def All_less_Suc2)

lemma mem_at_append [simp]: "mem_at m a (xs @ ys) \<longleftrightarrow> mem_at m a xs \<and> mem_at m (a + length xs) ys"
  by (induction xs arbitrary: a) (simp_all add: add.commute)

lemma mem_at_cong: "(\<And>i. a \<le> i \<Longrightarrow> i < a + length xs \<Longrightarrow> m i = m' i) \<Longrightarrow> mem_at m a xs = mem_at m' a xs"
  by (auto simp: mem_at_def)

lemma mem_at_mem_write: "mem_at (mem_write m a xs) a xs"
  by (simp add: mem_at_def mem_write_def)

lemma length_mem_bytes [simp]: "length (mem_bytes m a n) = n"
  by (simp add: mem_bytes_def)

lemma mem_at_mem_bytes [simp]: "mem_at m a (mem_bytes m a n)"
  by (simp add: mem_at_def mem_bytes_def)

lemma mem_bytes_mem_at: "mem_at m a xs \<Longrightarrow> mem_bytes m a (length xs) = xs"
  by (intro nth_equalityI) (simp_all add: mem_at_def mem_bytes_def)

lemma mem_bytes_add: "mem_bytes m a (n + k) = mem_bytes m a n @ mem_bytes m (a + n) k"
  by (induction k) (simp_all add: mem_bytes_def add.assoc)

lemma mem_bytes_cong: "(\<And>x. a \<le> x \<Longrightarrow> x < a + n \<Longrightarrow> m x = m' x) \<Longrightarrow> mem_bytes m a n = mem_bytes m' a n"
  by (simp add: mem_bytes_def)

lemma mem_bytes_mem_at_take: "mem_at m a xs \<Longrightarrow> n \<le> length xs \<Longrightarrow> mem_bytes m a n = take n xs"
  by (intro nth_equalityI) (simp_all add: mem_at_def mem_bytes_def)

lemma strcpy_eq: "is_cstring s \<Longrightarrow> strcpy m dest s = mem_write m dest (s @ [0])"
proof (induction s arbitrary: m dest)
  case Nil
  then show ?case by (auto simp: mem_write_def fun_eq_iff)
next
  case (Cons c s)
  then have "strcpy m dest (c # s) = mem_write (m(dest := c)) (dest + 1) (s @ [0])" by simp
  also have "\<dots> = mem_write m dest ((c # s) @ [0])"
    by (auto simp: mem_write_def fun_eq_iff nth_Cons')
  finally show ?case .
qed

section \<open>Properties\<close>

text \<open>
  C33: \<open>memmove\<close> copies as if through a temporary buffer, whatever the overlap of the two
  regions, and changes nothing outside the destination.
\<close>

theorem generic_memmove_correct:
  "generic_memmove m dest src len =
     (\<lambda>a. if dest \<le> a \<and> a < dest + len then m (src + (a - dest)) else m a)"
  by (rule ext) (rule generic_memmove_apply)

text \<open>
  C34: \<open>strstr\<close> returns the position of the first occurrence of the needle, and fails only
  when no position of the haystack starts one.
\<close>

theorem strstr_first_occurrence:
  assumes "is_cstring needle"
  shows "strstr haystack needle =
    (if \<exists>i<length haystack. take (length needle) (drop i haystack) = needle
     then Some (LEAST i. take (length needle) (drop i haystack) = needle) else None)"
proof (cases "strstr haystack needle")
  case None
  then show ?thesis using strstr_None_iff [OF assms] by auto
next
  case (Some i)
  then have i: "i < length haystack" "take (length needle) (drop i haystack) = needle"
    "\<forall>j<i. take (length needle) (drop j haystack) \<noteq> needle"
    using strstr_Some_iff [OF assms] by auto
  then have "(LEAST j. take (length needle) (drop j haystack) = needle) = i"
    by (intro Least_equality) (auto simp: not_less [symmetric])
  with i Some show ?thesis by auto
qed

theorem strstr_first_occurrence_witness:
  "strstr (cs ''mac01-01-aa'') (cs ''01-'') = Some 3 \<and>
   (LEAST i. take (length (cs ''01-'')) (drop i (cs ''mac01-01-aa'')) = cs ''01-'') = 3"
proof -
  have n: "is_cstring (cs ''01-'')" by simp
  have r: "strstr (cs ''mac01-01-aa'') (cs ''01-'') = Some 3" by simp
  from strstr_first_occurrence [OF n, of "cs ''mac01-01-aa''", unfolded r] r show ?thesis
    by (metis option.distinct(1) option.inject)
qed

end
