(* ===== verification/Vsprintf.thy ===== *)
theory Vsprintf
  imports CString
begin

text \<open>
  Formatted output: \<open>core/vsprintf.c\<close>, and the unsigned decimal formatter that
  \<open>core/vtoy.c\<close> adds to it.  The format interpreter works on the format string and the
  list of variadic arguments and gives the bytes it prints; \<^term>\<open>None\<close> stands for
  behaviour the C code leaves undefined (an argument of the wrong type, a length modifier
  outside the size table, a format string that ends inside a conversion, a number that
  does not fit the 32-byte scratch buffer).  The type sizes are those of the LP64 targets.
\<close>

section \<open>Numbers\<close>

definition LCASE :: u32 where "LCASE = 0x20"
definition ALT_FORM :: u32 where "ALT_FORM = 0x02"
definition ZPAD :: u32 where "ZPAD = 0x10"

definition hex_digit :: "u64 \<Rightarrow> u8" where
  "hex_digit n = cs ''0123456789ABCDEF'' ! unat (n AND 0xf)"

text \<open>The digit loop runs at least once, prepending digits to the buffer.\<close>

function format_hex_loop :: "u64 \<Rightarrow> u8 \<Rightarrow> u8 list \<Rightarrow> u8 list" where
  "format_hex_loop num case_mod buf =
     (let buf' = (hex_digit num OR case_mod) # buf; num' = drop_bit 4 num
      in if num' = 0 then buf' else format_hex_loop num' case_mod buf')"
  by pat_completeness auto
termination
  by (relation "measure (\<lambda>(num, _, _). unat num)") (auto intro: unat_drop_bit_less)

declare format_hex_loop.simps [simp del]

definition format_hex :: "u64 \<Rightarrow> nat \<Rightarrow> u32 \<Rightarrow> u8 list" where
  "format_hex num width flags =
     (let case_mod = ucast (flags AND LCASE);
          pad = ucast ((flags AND ZPAD) OR 32);
          digits = format_hex_loop num case_mod [];
          padded = replicate (width - length digits) pad @ digits
      in if flags AND ALT_FORM \<noteq> 0 then 48 # (88 OR case_mod) # padded else padded)"


text \<open>
  \<open>format_decimal\<close> takes the value of a \<open>signed long\<close>.  The sign of a zero-padded number
  overwrites the first pad character (or the first digit, if the number fills the field).
\<close>

function format_decimal_loop :: "nat \<Rightarrow> u8 list \<Rightarrow> u8 list" where
  "format_decimal_loop num buf =
     (let buf' = of_nat (48 + num mod 10) # buf; num' = num div 10
      in if num' = 0 then buf' else format_decimal_loop num' buf')"
  by pat_completeness auto
termination
  by (relation "measure fst") auto

declare format_decimal_loop.simps [simp del]

definition format_decimal :: "int \<Rightarrow> nat \<Rightarrow> u32 \<Rightarrow> u8 list" where
  "format_decimal num width flags =
     (let negative = num < 0;
          zpad = flags AND ZPAD;
          pad = ucast (zpad OR 32);
          digits = format_decimal_loop (nat \<bar>num\<bar>) [];
          signed_digits = (if negative \<and> zpad = 0 then 45 # digits else digits);
          padded = replicate (width - length signed_digits) pad @ signed_digits
      in if negative \<and> zpad \<noteq> 0 then 45 # tl padded else padded)"

definition vtoy_format_unsigned_decimal :: "u64 \<Rightarrow> nat \<Rightarrow> u32 \<Rightarrow> u8 list" where
  "vtoy_format_unsigned_decimal num width flags =
     (let zpad = flags AND ZPAD;
          pad = ucast (zpad OR 32);
          digits = format_decimal_loop (unat num) []
      in replicate (width - length digits) pad @ digits)"

section \<open>The format interpreter\<close>

text \<open>
  A variadic argument as the caller passes it.  Wide strings are lists of 16-bit
  characters (the sources are built with short \<open>wchar_t\<close>).
\<close>

datatype va =
    VaInt u32
  | VaLong u64
  | VaPtr u64
  | VaStr "cstring option"
  | VaWStr "u16 list option"

definition type_sizes :: "nat list" where
  "type_sizes = [1, 2, 4, 8, 8, 8]"

definition INT_LEN :: int where "INT_LEN = 2"
definition LONG_LEN :: int where "LONG_LEN = 3"
definition SIZE_T_LEN :: int where "SIZE_T_LEN = 5"

fun parse_flags :: "cstring \<Rightarrow> u32 \<Rightarrow> u32 \<times> cstring" where
  "parse_flags [] flags = (flags, [])"
| "parse_flags (c # fmt) flags =
     (if c = 35 then parse_flags fmt (flags OR ALT_FORM)
      else if c = 48 then parse_flags fmt (flags OR ZPAD)
      else (flags, c # fmt))"

fun parse_width :: "cstring \<Rightarrow> nat \<Rightarrow> nat \<times> cstring" where
  "parse_width [] width = (width, [])"
| "parse_width (c # fmt) width =
     (if (signed c :: u32) - 48 < 10 then parse_width fmt (width * 10 + nat (sint c - 48))
      else (width, c # fmt))"

fun parse_length :: "cstring \<Rightarrow> int \<Rightarrow> int \<times> cstring" where
  "parse_length [] len = (len, [])"
| "parse_length (c # fmt) len =
     (if c = 104 then parse_length fmt (len - 1)
      else if c = 108 then parse_length fmt (len + 1)
      else if c = 122 then parse_length fmt SIZE_T_LEN
      else (len, c # fmt))"

definition wcrtomb :: "u16 \<Rightarrow> u8" where
  "wcrtomb wc = ucast wc"

text \<open>The bytes up to the NUL, which is what a string conversion prints.\<close>

definition until_nul :: "u8 list \<Rightarrow> u8 list" where
  "until_nul s = takeWhile (\<lambda>c. c \<noteq> 0) s"

text \<open>A number goes through the scratch buffer, which has room for 31 bytes and a NUL.\<close>

definition tmp_buf_fits :: "u8 list \<Rightarrow> u8 list option" where
  "tmp_buf_fits s = (if length s \<le> 31 then Some s else None)"

text \<open>
  One conversion: the conversion character, the flags, width and length modifier parsed
  before it, and the arguments; gives the printed bytes and the remaining arguments.
\<close>

definition convert_spec ::
    "u8 \<Rightarrow> u32 \<Rightarrow> nat \<Rightarrow> int \<Rightarrow> va list \<Rightarrow> (u8 list \<times> va list) option" where
  "convert_spec c flags width len args =
     (if c = 99 then
        (case args of
           VaInt x # args' \<Rightarrow>
             if len < LONG_LEN then Some ([ucast x], args')
             else Some (until_nul [wcrtomb (ucast x)], args')
         | _ \<Rightarrow> None)
      else if c = 115 then
        (if len < LONG_LEN
         then (case args of
                 VaStr (Some s) # args' \<Rightarrow> Some (until_nul s, args')
               | VaStr None # args' \<Rightarrow> Some (cs ''<NULL>'', args')
               | _ \<Rightarrow> None)
         else (case args of
                 VaWStr (Some s) # args' \<Rightarrow>
                   Some (map wcrtomb (takeWhile (\<lambda>w. w \<noteq> 0) s), args')
               | VaWStr None # args' \<Rightarrow> Some (cs ''<NULL>'', args')
               | _ \<Rightarrow> None))
      else if c = 112 then
        (case args of
           VaPtr p # args' \<Rightarrow>
             map_option (\<lambda>s. (s, args')) (tmp_buf_fits (format_hex p width (ALT_FORM OR LCASE)))
         | _ \<Rightarrow> None)
      else if c AND NOT 0x20 = 88 then
        (let flags' = flags OR ucast (c AND 0x20)
         in if 8 \<le> type_sizes ! nat len
            then (case args of
                    VaLong x # args' \<Rightarrow>
                      map_option (\<lambda>s. (s, args')) (tmp_buf_fits (format_hex x width flags'))
                  | _ \<Rightarrow> None)
            else (case args of
                    VaInt x # args' \<Rightarrow>
                      map_option (\<lambda>s. (s, args'))
                        (tmp_buf_fits (format_hex (ucast x) width flags'))
                  | _ \<Rightarrow> None))
      else if c = 100 \<or> c = 105 then
        (if 8 \<le> type_sizes ! nat len
         then (case args of
                 VaLong x # args' \<Rightarrow>
                   map_option (\<lambda>s. (s, args')) (tmp_buf_fits (format_decimal (sint x) width flags))
               | _ \<Rightarrow> None)
         else (case args of
                 VaInt x # args' \<Rightarrow>
                   map_option (\<lambda>s. (s, args')) (tmp_buf_fits (format_decimal (sint x) width flags))
               | _ \<Rightarrow> None))
      else if c = 117 \<or> c = 85 then
        (if 8 \<le> type_sizes ! nat len
         then (case args of
                 VaLong x # args' \<Rightarrow>
                   map_option (\<lambda>s. (s, args'))
                     (tmp_buf_fits (vtoy_format_unsigned_decimal x width flags))
               | _ \<Rightarrow> None)
         else (case args of
                 VaInt x # args' \<Rightarrow>
                   map_option (\<lambda>s. (s, args'))
                     (tmp_buf_fits (vtoy_format_unsigned_decimal (ucast x) width flags))
               | _ \<Rightarrow> None))
      else Some ([c], args))"

lemma parse_flags_length: "parse_flags fmt flags = (f, rest) \<Longrightarrow> length rest \<le> length fmt"
  by (induction fmt flags rule: parse_flags.induct) (auto split: if_splits)

lemma parse_width_length: "parse_width fmt w = (v, rest) \<Longrightarrow> length rest \<le> length fmt"
  by (induction fmt w rule: parse_width.induct) (auto split: if_splits)

lemma parse_length_length: "parse_length fmt l = (k, rest) \<Longrightarrow> length rest \<le> length fmt"
  by (induction fmt l rule: parse_length.induct) (auto split: if_splits)

text \<open>The bytes that the format and its arguments print, in order.\<close>

function vcprintf :: "cstring \<Rightarrow> va list \<Rightarrow> u8 list option" where
  "vcprintf [] args = Some []"
| "vcprintf (c # fmt) args =
     (if c \<noteq> 37 then map_option ((#) c) (vcprintf fmt args)
      else
        (case parse_flags fmt 0 of (flags, fmt1) \<Rightarrow>
         case parse_width fmt1 0 of (width, fmt2) \<Rightarrow>
         case parse_length fmt2 INT_LEN of (len, fmt3) \<Rightarrow>
           (if len < 0 \<or> SIZE_T_LEN < len then None
            else case fmt3 of
                [] \<Rightarrow> None
              | d # fmt4 \<Rightarrow>
                  (case convert_spec d flags width len args of
                     None \<Rightarrow> None
                   | Some (out, args') \<Rightarrow> map_option ((@) out) (vcprintf fmt4 args')))))"
  by pat_completeness auto
termination
  by (relation "measure (\<lambda>(fmt, _). length fmt)")
    (auto dest!: parse_flags_length [OF sym] parse_width_length [OF sym] parse_length_length [OF sym])


section \<open>Printing to a buffer\<close>

definition printf_sputc :: "mem \<Rightarrow> nat \<Rightarrow> nat \<Rightarrow> nat \<Rightarrow> u8 \<Rightarrow> mem" where
  "printf_sputc m buf max_len len c = (if len < max_len then m(buf + len := c) else m)"

text \<open>\<open>cputchar\<close> on each printed byte: the handler, then the length is incremented.\<close>

fun cputchars :: "mem \<Rightarrow> nat \<Rightarrow> nat \<Rightarrow> nat \<Rightarrow> u8 list \<Rightarrow> mem" where
  "cputchars m buf max_len len [] = m"
| "cputchars m buf max_len len (c # out) =
     cputchars (printf_sputc m buf max_len len c) buf max_len (len + 1) out"

definition vsnprintf ::
    "mem \<Rightarrow> nat \<Rightarrow> nat \<Rightarrow> cstring \<Rightarrow> va list \<Rightarrow> (mem \<times> nat) option" where
  "vsnprintf m buf sz fmt args =
     (case vcprintf fmt args of
        None \<Rightarrow> None
      | Some out \<Rightarrow>
          (let m1 = cputchars m buf sz 0 out; len = length out
           in if sz \<noteq> 0
              then (let e = (if len < sz - 1 then len else sz - 1)
                    in Some (m1(buf + e := 0), len))
              else Some (m1, len)))"

definition vssnprintf ::
    "mem \<Rightarrow> nat \<Rightarrow> int \<Rightarrow> cstring \<Rightarrow> va list \<Rightarrow> (mem \<times> nat) option" where
  "vssnprintf m buf ssize fmt args =
     vsnprintf m buf (nat (if ssize < 0 then 0 else ssize)) fmt args"


text \<open>
  What a bounded print does to memory, as a specification: the first bytes of the output,
  cut to the buffer, and a NUL.
\<close>

definition snwrite :: "mem \<Rightarrow> nat \<Rightarrow> nat \<Rightarrow> u8 list \<Rightarrow> mem" where
  "snwrite m buf sz out =
     (let e = min (length out) (sz - 1)
      in (\<lambda>a. if sz = 0 then m a
              else if buf \<le> a \<and> a < buf + e then out ! (a - buf)
              else if a = buf + e then 0 else m a))"

section \<open>Lemmas on numbers\<close>

lemma format_decimal_loop_append:
  "format_decimal_loop n buf = format_decimal_loop n [] @ buf"
proof (induction n arbitrary: buf rule: less_induct)
  case (less n)
  show ?case
  proof (cases "n div 10 = 0")
    case True
    then show ?thesis by (simp add: format_decimal_loop.simps [of n])
  next
    case False
    then have lt: "n div 10 < n" by simp
    let ?d = "of_nat (48 + n mod 10) :: u8"
    have "format_decimal_loop (n div 10) [?d] @ buf = format_decimal_loop (n div 10) [] @ ?d # buf"
      using less.IH [OF lt, of "[?d]"] by simp
    with False less.IH [OF lt, of "?d # buf"] show ?thesis
      by (simp add: format_decimal_loop.simps [of n] Let_def del: of_nat_add)
  qed
qed

lemma digit_value_decimal:
  "d < 10 \<Longrightarrow> digit_value (signed (of_nat (48 + d) :: u8)) = of_nat d"
proof -
  assume "d < 10"
  then have "d \<in> set [0..<10]" by simp
  moreover have "list_all (\<lambda>d. digit_value (signed (of_nat (48 + d) :: u8)) = of_nat d) [0..<10]"
    by code_simp
  ultimately show ?thesis unfolding list_all_iff by blast
qed

lemma strtoul_format_decimal_loop:
  "strtoul_loop 10 v (format_decimal_loop n [] @ rest) =
   strtoul_loop 10 (v * 10 ^ length (format_decimal_loop n []) + of_nat n) rest"
proof (induction n arbitrary: v rest rule: less_induct)
  case (less n)
  let ?d = "of_nat (48 + n mod 10) :: u8"
  have dv: "digit_value (signed ?d) = (of_nat (n mod 10) :: u32)"
    by (rule digit_value_decimal) simp
  have small: "\<not> (of_nat 10 :: u32) \<le> of_nat (n mod 10)"
    by (simp add: word_le_nat_alt unat_of_nat)
  have ext: "(unsigned (of_nat (n mod 10) :: u32) :: 'a word) = of_nat (n mod 10)"
  proof -
    have "n mod 10 < 2 ^ 32" by (rule less_trans [of _ 10]) simp_all
    then show ?thesis by (simp add: unsigned_of_nat take_bit_nat_eq_self)
  qed
  show ?case
  proof (cases "n div 10 = 0")
    case True
    then have n: "format_decimal_loop n [] = [?d]" and "n mod 10 = n"
      by (simp_all add: format_decimal_loop.simps [of n])
    then show ?thesis using dv small ext
      by (simp add: Let_def mult.commute del: of_nat_add)
  next
    case False
    then have lt: "n div 10 < n" by simp
    from False have n: "format_decimal_loop n [] = format_decimal_loop (n div 10) [] @ [?d]"
      using format_decimal_loop_append [of "n div 10" "[?d]"]
      by (simp add: format_decimal_loop.simps [of n] Let_def del: of_nat_add)
    have "n = n div 10 * 10 + n mod 10" by simp
    then have n_split: "(of_nat n :: 'a word) = of_nat (n div 10) * 10 + of_nat (n mod 10)"
      by (metis of_nat_add of_nat_mult of_nat_numeral)
    show ?thesis
      using less.IH [OF lt, of v "?d # rest"] dv small ext n_split
      by (simp add: n Let_def algebra_simps del: of_nat_add)
  qed
qed

lemma format_decimal_loop_digits:
  "format_decimal_loop n [] \<noteq> [] \<and> list_all (\<lambda>c. 48 \<le> c \<and> c \<le> 57) (format_decimal_loop n [])"
proof (induction n rule: less_induct)
  case (less n)
  let ?d = "of_nat (48 + n mod 10) :: u8"
  have d: "48 \<le> ?d \<and> ?d \<le> 57"
    by (simp add: word_le_nat_alt unat_of_nat del: of_nat_add)
  show ?case
  proof (cases "n div 10 = 0")
    case True
    with d show ?thesis by (simp add: format_decimal_loop.simps [of n])
  next
    case False
    then have n: "format_decimal_loop n [] = format_decimal_loop (n div 10) [] @ [?d]"
      using format_decimal_loop_append [of "n div 10" "[?d]"]
      by (simp add: format_decimal_loop.simps [of n] Let_def del: of_nat_add)
    from False less.IH [of "n div 10"] d show ?thesis by (simp add: n del: of_nat_add)
  qed
qed

lemma digit_not_special:
  "48 \<le> (c :: u8) \<and> c \<le> 57 \<Longrightarrow> \<not> isspace (sint c) \<and> c \<noteq> 45 \<and> c \<noteq> 43"
proof -
  have "48 \<le> (c :: u8) \<and> c \<le> 57 \<longrightarrow> \<not> isspace (sint c) \<and> c \<noteq> 45 \<and> c \<noteq> 43"
    by (rule u8_exhaustive [of _ c]) code_simp
  then show "48 \<le> c \<and> c \<le> 57 \<Longrightarrow> ?thesis" by blast
qed

lemma strtoul_pre_plain:
  "s \<noteq> [] \<Longrightarrow> \<not> isspace (sint (hd s)) \<Longrightarrow> hd s \<noteq> 45 \<Longrightarrow> hd s \<noteq> 43 \<Longrightarrow> base \<noteq> 0 \<Longrightarrow>
   strtoul_pre s base = (s, False, base)"
  by (cases s) (auto simp: strtoul_pre_def)

lemma strtoul_loop_stop:
  "rest = [] \<or> of_nat base \<le> digit_value (signed (hd rest)) \<Longrightarrow>
   strtoul_loop base v rest = (v, rest)"
  by (cases rest) (auto simp: Let_def)

lemma strtoul_decimal:
  assumes "rest = [] \<or> 10 \<le> digit_value (signed (hd rest))"
  shows "strtoul (format_decimal_loop n [] @ rest) 10 = (of_nat n, rest)"
proof -
  let ?s = "format_decimal_loop n []"
  from format_decimal_loop_digits [of n]
  obtain c t where s: "?s = c # t" and c: "48 \<le> c \<and> c \<le> 57"
    by (cases ?s) auto
  have "strtoul_pre (?s @ rest) 10 = (?s @ rest, False, 10)"
    using digit_not_special [OF c] by (intro strtoul_pre_plain) (auto simp: s)
  moreover have "strtoul_loop 10 0 (?s @ rest) = (of_nat n :: 'a word, rest)"
    using assms by (simp add: strtoul_format_decimal_loop strtoul_loop_stop)
  ultimately show ?thesis by (simp add: strtoul_def)
qed

lemma format_hex_loop_append:
  "format_hex_loop n cm buf = format_hex_loop n cm [] @ buf"
proof (induction "unat n" arbitrary: n buf rule: less_induct)
  case less
  show ?case
  proof (cases "drop_bit 4 n = 0")
    case True
    then show ?thesis by (simp add: format_hex_loop.simps [of n])
  next
    case False
    then have lt: "unat (drop_bit 4 n) < unat n" by (simp add: unat_drop_bit_less)
    let ?d = "hex_digit n OR cm"
    have "format_hex_loop (drop_bit 4 n) cm [?d] @ buf = format_hex_loop (drop_bit 4 n) cm [] @ ?d # buf"
      using less.hyps [OF lt, of "[?d]"] by simp
    with False less.hyps [OF lt, of "?d # buf"] show ?thesis
      by (simp add: format_hex_loop.simps [of n] Let_def)
  qed
qed

lemma hex_digit_value:
  assumes "cm = 0 \<or> cm = 32"
  shows "digit_value (signed (hex_digit n OR cm)) = ucast (n AND 0xf)"
proof -
  have "unat (n AND 0xf) \<in> set [0..<16]"
    by (simp add: unat_and_0xf)
  moreover have "list_all (\<lambda>k. digit_value (signed ((cs ''0123456789ABCDEF'' ! k) OR 0)) = word_of_nat k
       \<and> digit_value (signed ((cs ''0123456789ABCDEF'' ! k) OR 32)) = word_of_nat k) [0..<16]"
    by code_simp
  ultimately have "digit_value (signed (hex_digit n OR cm)) = word_of_nat (unat (n AND 0xf))"
    using assms unfolding list_all_iff hex_digit_def by auto
  then show ?thesis by simp
qed

lemma strtoul_format_hex_loop:
  assumes "cm = 0 \<or> cm = 32"
  shows "strtoul_loop 16 v (format_hex_loop n cm [] @ rest) =
   strtoul_loop 16 (v * 16 ^ length (format_hex_loop n cm []) + ucast n) rest"
proof (induction "unat n" arbitrary: n v rest rule: less_induct)
  case less
  let ?d = "hex_digit n OR cm"
  have dv: "digit_value (signed ?d) = (ucast (n AND 0xf) :: u32)"
    by (rule hex_digit_value [OF assms])
  have small: "\<not> (of_nat 16 :: u32) \<le> ucast (n AND 0xf)"
    by (simp add: word_le_nat_alt unsigned_ucast_eq unat_and_0xf take_bit_nat_eq_self)
  have ext: "(unsigned (ucast (n AND 0xf) :: u32) :: 'a word) = ucast (n AND 0xf)"
  proof -
    have "unat (ucast (n AND 0xf) :: u32) = unat (n AND 0xf)"
      by (simp add: unsigned_ucast_eq unat_and_0xf take_bit_nat_eq_self)
    then have "(of_nat (unat (ucast (n AND 0xf) :: u32)) :: 'a word) = of_nat (unat (n AND 0xf))"
      by (rule arg_cong)
    then show ?thesis by simp
  qed
  have split: "(ucast n :: 'a word) = ucast (drop_bit 4 n) * 16 + ucast (n AND 0xf)"
  proof -
    have "unat n = unat (drop_bit 4 n) * 16 + unat (n AND 0xf)"
      by (simp add: unat_drop_bit unat_and_0xf)
    then have "(of_nat (unat n) :: 'a word) = of_nat (unat (drop_bit 4 n)) * 16 + of_nat (unat (n AND 0xf))"
      by (metis of_nat_add of_nat_mult of_nat_numeral)
    then show ?thesis by simp
  qed
  show ?case
  proof (cases "drop_bit 4 n = 0")
    case True
    then have n: "format_hex_loop n cm [] = [?d]" 
      by (simp_all add: format_hex_loop.simps [of n])
    show ?thesis using dv small ext split True
      by (simp add: n Let_def mult.commute)
  next
    case False
    then have lt: "unat (drop_bit 4 n) < unat n" by (simp add: unat_drop_bit_less)
    from False have n: "format_hex_loop n cm [] = format_hex_loop (drop_bit 4 n) cm [] @ [?d]"
      using format_hex_loop_append [of "drop_bit 4 n" cm "[?d]"]
      by (simp add: format_hex_loop.simps [of n] Let_def)
    show ?thesis
      using less.hyps [OF lt, of v "?d # rest"] dv small ext split
      by (simp add: n Let_def algebra_simps)
  qed
qed

section \<open>Lemmas on buffers and formats\<close>

lemma cputchars_apply:
  "cputchars m buf max_len len out a =
     (if buf + len \<le> a \<and> a < buf + min (len + length out) max_len
      then out ! (a - (buf + len)) else m a)"
proof (induction out arbitrary: m len a)
  case Nil
  then show ?case by auto
next
  case (Cons c out)
  show ?case
  proof (cases "a = buf + len")
    case True
    then show ?thesis by (auto simp: Cons printf_sputc_def)
  next
    case False
    then have "a - (buf + len) = Suc (a - (buf + len + 1))" if "buf + len \<le> a"
      using that by simp
    with False show ?thesis by (auto simp: Cons printf_sputc_def)
  qed
qed

lemma vsnprintf_eq:
  assumes "vcprintf fmt args = Some out"
  shows "vsnprintf m buf sz fmt args = Some (snwrite m buf sz out, length out)"
  using assms by (auto simp: vsnprintf_def snwrite_def cputchars_apply Let_def fun_eq_iff min_def)

lemma vssnprintf_eq:
  assumes "vcprintf fmt args = Some out"
  shows "vssnprintf m buf ssize fmt args = Some (snwrite m buf (nat ssize) out, length out)"
  using vsnprintf_eq [OF assms] by (simp add: vssnprintf_def)

lemma snwrite_Nil: "snwrite m buf sz [] = (if sz \<noteq> 0 then m(buf := 0) else m)"
  by (auto simp: snwrite_def fun_eq_iff)

lemma snwrite_apply:
  "0 < sz \<Longrightarrow> min (length out) (sz - 1) = k \<Longrightarrow>
   snwrite m buf sz out x =
     (if buf \<le> x \<and> x < buf + k then out ! (x - buf) else if x = buf + k then 0 else m x)"
  by (simp add: snwrite_def)

lemma snwrite_append:
  "snwrite (snwrite m buf sz a) (buf + length a) (nat (int sz - int (length a))) b =
   snwrite m buf sz (a @ b)"
proof (cases "length a < sz")
  case True
  define n where "n = length a"
  define k where "k = min (length b) (sz - n - 1)"
  have n: "n < sz" "length a = n" using True by (auto simp: n_def)
  have "snwrite (snwrite m buf sz a) (buf + n) (sz - n) b x = snwrite m buf sz (a @ b) x" for x
  proof -
    have A: "snwrite (snwrite m buf sz a) (buf + n) (sz - n) b x =
      (if buf + n \<le> x \<and> x < buf + n + k then b ! (x - (buf + n))
       else if x = buf + n + k then 0 else snwrite m buf sz a x)"
      by (rule snwrite_apply) (use n in \<open>simp_all add: k_def\<close>)
    have B: "snwrite m buf sz a x =
      (if buf \<le> x \<and> x < buf + n then a ! (x - buf) else if x = buf + n then 0 else m x)"
      by (rule snwrite_apply) (use n in auto)
    have C: "snwrite m buf sz (a @ b) x =
      (if buf \<le> x \<and> x < buf + (n + k) then (a @ b) ! (x - buf)
       else if x = buf + (n + k) then 0 else m x)"
      by (rule snwrite_apply) (use n in \<open>auto simp: k_def\<close>)
    consider "x < buf" | "buf \<le> x" "x < buf + n" | "buf + n \<le> x" "x < buf + n + k"
      | "x = buf + n + k" | "buf + n + k < x"
      by linarith
    then show ?thesis
      unfolding A B C
      by cases (auto simp: nth_append n less_diff_conv2)
  qed
  moreover have "nat (int sz - int n) = sz - n" by simp
  ultimately show ?thesis by (simp add: n fun_eq_iff)
next
  case False
  then have sz: "nat (int sz - int (length a)) = 0" by simp
  have "snwrite m buf sz a x = snwrite m buf sz (a @ b) x" for x
  proof (cases "sz = 0")
    case True
    then show ?thesis by (simp add: snwrite_def)
  next
    case pos: False
    have "snwrite m buf sz a x =
      (if buf \<le> x \<and> x < buf + (sz - 1) then a ! (x - buf)
       else if x = buf + (sz - 1) then 0 else m x)"
      by (rule snwrite_apply) (use pos False in auto)
    moreover have "snwrite m buf sz (a @ b) x =
      (if buf \<le> x \<and> x < buf + (sz - 1) then (a @ b) ! (x - buf)
       else if x = buf + (sz - 1) then 0 else m x)"
      by (rule snwrite_apply) (use pos False in auto)
    moreover have "x - buf < length a" if "x < buf + (sz - 1)" "buf \<le> x"
      using that False by linarith
    ultimately show ?thesis by (auto simp: nth_append)
  qed
  then have "snwrite m buf sz a = snwrite m buf sz (a @ b)" by (rule ext)
  then show ?thesis unfolding sz by (simp add: snwrite_def [of _ _ 0])
qed

lemma snwrite_outside: "a < buf \<or> buf + sz \<le> a \<Longrightarrow> snwrite m buf sz out a = m a"
  by (auto simp: snwrite_def Let_def)

text \<open>A buffer large enough holds the whole output and its terminator.\<close>

lemma snwrite_fits:
  "length out < sz \<Longrightarrow> map (snwrite m buf sz out) [buf..<buf + length out] = out"
  by (rule nth_equalityI) (simp_all add: snwrite_def Let_def)

lemma snwrite_terminated:
  "length out < sz \<Longrightarrow> snwrite m buf sz out (buf + length out) = 0"
  by (simp add: snwrite_def Let_def)

lemma vcprintf_spec:
  assumes "parse_flags fmt 0 = (flags, fmt1)"
    and "parse_width fmt1 0 = (width, fmt2)"
    and "parse_length fmt2 INT_LEN = (len, d # fmt3)"
    and "0 \<le> len" and "len \<le> SIZE_T_LEN"
    and "convert_spec d flags width len args = Some (out, args')"
  shows "vcprintf (37 # fmt) args = map_option ((@) out) (vcprintf fmt3 args')"
  using assms by simp

lemmas printf_consts = INT_LEN_def SIZE_T_LEN_def LONG_LEN_def LCASE_def ZPAD_def ALT_FORM_def

lemma format_hex_u8:
  assumes "cm = 0 \<and> fl = 0 \<or> cm = 32 \<and> fl = LCASE"
  shows "format_hex (ucast (b :: u8)) 2 (ZPAD OR fl) =
     [hex_digit (drop_bit 4 (ucast b)) OR cm, hex_digit (ucast b) OR cm]"
proof -
  let ?n = "ucast b :: u64"
  have cm: "(ucast ((ZPAD OR fl) AND LCASE) :: u8) = cm"
    and pad: "(ucast (((ZPAD OR fl) AND ZPAD) OR 32) :: u8) = 48"
    and alt: "(ZPAD OR fl) AND ALT_FORM = 0"
    using assms by (auto simp: printf_consts)
  have zero: "hex_digit 0 OR cm = 48"
    using assms by (auto simp: hex_digit_def)
  have "unat ?n < 256" by (simp add: unat_ucast_up)
  then have "unat (drop_bit 4 (drop_bit 4 ?n)) = 0" by (simp add: unat_drop_bit)
  then have d0: "drop_bit 4 (drop_bit 4 ?n) = 0" by (simp only: unat_eq_zero)
  show ?thesis
  proof (cases "drop_bit 4 ?n = 0")
    case True
    then have "format_hex_loop ?n cm [] = [hex_digit ?n OR cm]"
      by (simp only: format_hex_loop.simps [of ?n] Let_def if_True refl)
    with True zero show ?thesis
      unfolding format_hex_def cm pad alt Let_def by simp
  next
    case False
    then have "format_hex_loop ?n cm [] = [hex_digit (drop_bit 4 ?n) OR cm, hex_digit ?n OR cm]"
      using d0 by (simp only: format_hex_loop.simps [of ?n] format_hex_loop.simps [of "drop_bit 4 ?n"]
          Let_def if_True if_False refl)
    then show ?thesis
      unfolding format_hex_def cm pad alt Let_def by simp
  qed
qed

lemma vcprintf_s:
  "is_cstring s \<Longrightarrow> vcprintf (37 # 115 # fmt) (VaStr (Some s) # args) =
     map_option ((@) s) (vcprintf fmt args)"
  by (rule vcprintf_spec) (auto simp: convert_spec_def printf_consts until_nul_def takeWhile_eq_all_conv is_cstring_def)

lemma vcprintf_c:
  "vcprintf (37 # 99 # fmt) (VaInt x # args) = map_option ((#) (ucast x)) (vcprintf fmt args)"
proof -
  have "vcprintf (37 # 99 # fmt) (VaInt x # args) = map_option ((@) [ucast x]) (vcprintf fmt args)"
    by (rule vcprintf_spec, simp, simp, simp)
      (simp_all add: convert_spec_def printf_consts)
  also have "(@) [ucast x] = (#) (ucast x)" by (simp add: fun_eq_iff)
  finally show ?thesis .
qed

lemma vcprintf_percent:
  "vcprintf (37 # 37 # fmt) args = map_option ((#) 37) (vcprintf fmt args)"
proof -
  have "vcprintf (37 # 37 # fmt) args = map_option ((@) [37]) (vcprintf fmt args)"
    by (rule vcprintf_spec, simp, simp, simp)
      (simp_all add: convert_spec_def printf_consts)
  also have "(@) [37] = (#) (37 :: u8)" by (simp add: fun_eq_iff)
  finally show ?thesis .
qed

lemma vcprintf_02x:
  "length (format_hex (ucast x) 2 (ZPAD OR LCASE)) \<le> 31 \<Longrightarrow>
   vcprintf (37 # 48 # 50 # 120 # fmt) (VaInt x # args) =
     map_option ((@) (format_hex (ucast x) 2 (ZPAD OR LCASE))) (vcprintf fmt args)"
  by (rule vcprintf_spec, simp, simp, simp)
    (simp_all add: convert_spec_def printf_consts type_sizes_def tmp_buf_fits_def
      numeral_2_eq_2 [symmetric])

lemma vcprintf_02X:
  "length (format_hex (ucast x) 2 ZPAD) \<le> 31 \<Longrightarrow>
   vcprintf (37 # 48 # 50 # 88 # fmt) (VaInt x # args) =
     map_option ((@) (format_hex (ucast x) 2 ZPAD)) (vcprintf fmt args)"
  by (rule vcprintf_spec, simp, simp, simp)
    (simp_all add: convert_spec_def printf_consts type_sizes_def tmp_buf_fits_def
      numeral_2_eq_2 [symmetric])

lemma vcprintf_plain: "c \<noteq> 37 \<Longrightarrow> vcprintf (c # fmt) args = map_option ((#) c) (vcprintf fmt args)"
  by simp

declare vcprintf.simps(2) [simp del]

lemmas printf_eval = vcprintf_plain vcprintf_s vcprintf_c vcprintf_percent

lemma strtoul_loop_zeros:
  "base \<noteq> 0 \<Longrightarrow> base \<le> 36 \<Longrightarrow> strtoul_loop base 0 (replicate k 48 @ s) = strtoul_loop base 0 s"
proof (induction k)
  case 0 then show ?case by simp
next
  case (Suc k)
  have "digit_value (signed (48 :: u8)) = 0" by code_simp
  moreover have "\<not> (of_nat base :: u32) \<le> 0"
    using Suc.prems by (simp add: word_le_nat_alt unat_of_nat)
  ultimately show ?case using Suc by (simp add: Let_def)
qed
lemma format_hex_loop_chars:
  assumes "cm = 0 \<or> cm = 32"
  shows "format_hex_loop n cm [] \<noteq> [] \<and>
     list_all (\<lambda>c. \<not> isspace (sint c) \<and> c \<noteq> 45 \<and> c \<noteq> 43) (format_hex_loop n cm [])"
proof (induction "unat n" arbitrary: n rule: less_induct)
  case less
  let ?d = "hex_digit n OR cm"
  have d: "\<not> isspace (sint ?d) \<and> ?d \<noteq> 45 \<and> ?d \<noteq> 43"
  proof -
    have "unat (n AND 0xf) \<in> set [0..<16]" by (simp add: unat_and_0xf)
    moreover have "list_all (\<lambda>k. \<not> isspace (sint ((cs ''0123456789ABCDEF'' ! k) OR 0)) \<and>
        (cs ''0123456789ABCDEF'' ! k) OR 0 \<noteq> 45 \<and> (cs ''0123456789ABCDEF'' ! k) OR 0 \<noteq> 43 \<and>
        \<not> isspace (sint ((cs ''0123456789ABCDEF'' ! k) OR 32)) \<and>
        (cs ''0123456789ABCDEF'' ! k) OR 32 \<noteq> 45 \<and> (cs ''0123456789ABCDEF'' ! k) OR 32 \<noteq> 43) [0..<16]"
      by code_simp
    ultimately show ?thesis
      using assms unfolding list_all_iff hex_digit_def by blast
  qed
  show ?case
  proof (cases "drop_bit 4 n = 0")
    case True
    then have "format_hex_loop n cm [] = [?d]" by (simp add: format_hex_loop.simps [of n])
    with d show ?thesis by simp
  next
    case False
    then have lt: "unat (drop_bit 4 n) < unat n" by (simp add: unat_drop_bit_less)
    from False have n: "format_hex_loop n cm [] = format_hex_loop (drop_bit 4 n) cm [] @ [?d]"
      using format_hex_loop_append [of "drop_bit 4 n" cm "[?d]"]
      by (simp add: format_hex_loop.simps [of n] Let_def)
    show ?thesis using less.hyps [OF lt] d by (simp add: n)
  qed
qed


section \<open>Properties\<close>







end
