(* ===== verification/Base64.thy ===== *)
theory Base64
  imports Vsprintf
begin

text \<open>
  Base64 encoding and decoding (\<open>core/base64.c\<close>, \<open>include/ipxe/base64.h\<close>).  The bit
  position is the 32-bit counter of the source; the encoder's loops compare it with a
  \<open>size_t\<close> bit length and would not end for more than half a gigabyte of raw data, so they
  are partial functions.
\<close>

section \<open>Definitions\<close>

definition base64 :: cstring where
  "base64 = cs ''ABCDEFGHIJKLMNOPQRSTUVWXYZabcdefghijklmnopqrstuvwxyz0123456789+/''"

definition base64_tmp :: "u8 list \<Rightarrow> u32 \<Rightarrow> u32" where
  "base64_tmp raw_bytes b =
     (let byte = b div 8; shift = unat (b mod 8);
          tmp = push_bit shift (ucast (raw_bytes ! unat byte));
          tmp' = (if unat byte + 1 < length raw_bytes
                  then tmp OR drop_bit (8 - shift) (ucast (raw_bytes ! (unat byte + 1)))
                  else tmp)
      in drop_bit 2 tmp' AND 0x3f)"

partial_function (option) base64_encode_loop ::
    "mem \<Rightarrow> u8 list \<Rightarrow> nat \<Rightarrow> nat \<Rightarrow> u32 \<Rightarrow> nat \<Rightarrow> (mem \<times> u32 \<times> nat) option" where
  "base64_encode_loop m raw data len b used =
     (if unat b < 8 * length raw
      then base64_encode_loop
             (if used < len then m(data + used := base64 ! unat (base64_tmp raw b)) else m)
             raw data len (b + 6) (used + 1)
      else Some (m, b, used))"

partial_function (option) base64_pad_loop ::
    "mem \<Rightarrow> nat \<Rightarrow> nat \<Rightarrow> u32 \<Rightarrow> nat \<Rightarrow> (mem \<times> nat) option" where
  "base64_pad_loop m data len b used =
     (if b mod 8 \<noteq> 0
      then base64_pad_loop (if used < len then m(data + used := 61) else m)
             data len (b + 6) (used + 1)
      else Some (m, used))"

definition base64_encode :: "mem \<Rightarrow> u8 list \<Rightarrow> nat \<Rightarrow> nat \<Rightarrow> (mem \<times> nat) option" where
  "base64_encode m raw data len =
     (case base64_encode_loop m raw data len 0 0 of
        None \<Rightarrow> None
      | Some (m1, b, used) \<Rightarrow>
          (case base64_pad_loop m1 data len b used of
             None \<Rightarrow> None
           | Some (m2, used) \<Rightarrow>
               (let m3 = (if used < len then m2(data + used := 0) else m2);
                    m4 = (if len \<noteq> 0 then m3(data + (len - 1) := 0) else m3)
                in Some (m4, used))))"

definition base64_add :: "mem \<Rightarrow> nat \<Rightarrow> nat \<Rightarrow> u32 \<Rightarrow> nat \<Rightarrow> mem" where
  "base64_add m data len b match =
     (let in_bits = push_bit 2 (of_nat match) :: u32;
          offset = unat (b div 8);
          m1 = (if offset < len
                then m(data + offset := m (data + offset) OR
                         ucast (drop_bit (unat (b mod 8)) in_bits))
                else m);
          offset = offset + 1
      in if offset < len
         then m1(data + offset := m1 (data + offset) OR
                   ucast (push_bit (8 - unat (b mod 8)) in_bits))
         else m1)"

fun base64_decode_loop ::
    "cstring \<Rightarrow> mem \<Rightarrow> nat \<Rightarrow> nat \<Rightarrow> u32 \<Rightarrow> nat \<Rightarrow> mem \<times> u32 result" where
  "base64_decode_loop [] m data len b pad_count = (m, Inr b)"
| "base64_decode_loop (in_char # rest) m data len b pad_count =
     (if isspace (uint in_char) then base64_decode_loop rest m data len b pad_count
      else if in_char = 61 then
        (if pad_count \<ge> 2 then (m, Inl EINVAL)
         else base64_decode_loop rest m data len (b - 2) (pad_count + 1))
      else if pad_count \<noteq> 0 then (m, Inl EINVAL)
      else
        (case strchr base64 (uint in_char) of
           None \<Rightarrow> (m, Inl EINVAL)
         | Some match \<Rightarrow>
             base64_decode_loop rest (base64_add m data len b match) data len (b + 6) pad_count))"

definition base64_decode :: "cstring \<Rightarrow> mem \<Rightarrow> nat \<Rightarrow> nat \<Rightarrow> mem \<times> nat result" where
  "base64_decode encoded m data len =
     (case base64_decode_loop encoded (generic_memset m data 0 len) data len 0 0 of
        (m', Inl e) \<Rightarrow> (m', Inl e)
      | (m', Inr b) \<Rightarrow>
          if b mod 8 \<noteq> 0 then (m', Inl EINVAL) else (m', Inr (unat (b div 8))))"

definition base64_encoded_len :: "nat \<Rightarrow> nat" where
  "base64_encoded_len raw_len = (raw_len + 3 - 1) div 3 * 4"

definition base64_decoded_max_len :: "cstring \<Rightarrow> nat" where
  "base64_decoded_max_len encoded = (strlen encoded + 4 - 1) div 4 * 3"

section \<open>Specification\<close>

text \<open>The raw data as a stream of bits, the most significant bit of each byte first.\<close>

definition stream_bit :: "(nat \<Rightarrow> u8) \<Rightarrow> nat \<Rightarrow> bool" where
  "stream_bit f i = bit (f (i div 8)) (7 - i mod 8)"

definition raw_at :: "u8 list \<Rightarrow> nat \<Rightarrow> u8" where
  "raw_at raw j = (if j < length raw then raw ! j else 0)"

definition base64_chars :: "u8 list \<Rightarrow> nat \<Rightarrow> u8 list" where
  "base64_chars raw n = map (\<lambda>k. base64 ! unat (base64_tmp raw (of_nat (6 * k)))) [0..<n]"

definition base64_string :: "u8 list \<Rightarrow> u8 list" where
  "base64_string raw =
     (let n = (8 * length raw + 5) div 6
      in base64_chars raw n @ replicate (base64_encoded_len (length raw) - n) 61)"

text \<open>
  A well-formed encoding, white space apart: characters of the alphabet, at most two pads,
  and a length that is a multiple of four.
\<close>

definition base64_strip :: "cstring \<Rightarrow> cstring" where
  "base64_strip s = filter (\<lambda>c. \<not> isspace (uint c)) s"

definition base64_padded :: "nat \<Rightarrow> cstring \<Rightarrow> bool" where
  "base64_padded pad_count t \<longleftrightarrow>
     (let chars = takeWhile (\<lambda>c. c \<noteq> 61) t; pads = dropWhile (\<lambda>c. c \<noteq> 61) t
      in set chars \<subseteq> set base64 \<and> set pads \<subseteq> {61} \<and> pad_count + length pads \<le> 2 \<and>
         (pad_count = 0 \<or> chars = []))"

definition base64_wellformed :: "cstring \<Rightarrow> bool" where
  "base64_wellformed s \<longleftrightarrow>
     base64_padded 0 (base64_strip s) \<and> length (base64_strip s) mod 4 = 0"

section \<open>Lemmas\<close>

lemma length_base64 [simp]: "length base64 = 64"
  by (simp add: base64_def)

lemma distinct_base64: "distinct base64"
  by (simp add: base64_def) 

lemma base64_plain:
  "list_all (\<lambda>c. c \<noteq> 61 \<and> c \<noteq> 0 \<and> \<not> isspace (uint c)) base64"
  by code_simp

lemma base64_nth:
  "k < 64 \<Longrightarrow> base64 ! k \<noteq> 61" "k < 64 \<Longrightarrow> base64 ! k \<noteq> 0" "k < 64 \<Longrightarrow> \<not> isspace (uint (base64 ! k))"
  using base64_plain by (auto simp: list_all_length)

lemma strchr_base64: "k < 64 \<Longrightarrow> strchr base64 (uint (base64 ! k)) = Some k"
  using distinct_base64
  by (auto simp: strchr_Some_iff in_set_conv_nth nth_eq_iff_index_eq base64_nth)

lemma base64_tmp_less [simp]: "unat (base64_tmp raw b) < 64"
proof -
  have "base64_tmp raw b \<le> 0x3f"
    by (simp add: base64_tmp_def Let_def word_and_le1)
  then show ?thesis by (simp add: word_le_nat_alt)
qed

lemma stream_bit_div: "j < 8 \<Longrightarrow> stream_bit f (8 * i + j) = bit (f i) (7 - j)"
  by (simp add: stream_bit_def)

lemma and_0x3f_take_bit: "x AND 0x3f = take_bit 6 (x :: 'a::len word)"
  by (simp add: take_bit_eq_mask mask_eq_exp_minus_1)

lemma unat_u32_div_mod:
  assumes "n < 2 ^ 32"
  shows "unat (of_nat n div 8 :: u32) = n div 8" "unat (of_nat n mod 8 :: u32) = n mod 8"
  using unat_of_nat_u32 [OF assms] by (simp_all add: unat_div_distrib unat_mod_distrib)

lemma bit_u8_less: "bit (x :: u8) n \<Longrightarrow> n < 8"
  using bit_imp_le_length [of x n] by simp

lemma bit_sextet:
  assumes "s < 8"
  shows "bit (take_bit 6 (drop_bit 2 (push_bit s (ucast (x :: u8)) OR (z :: u32)))) (5 - j) \<longleftrightarrow>
     s \<le> 5 - j + 2 \<and> bit x (5 - j + 2 - s) \<or> bit z (5 - j + 2)"
  by (auto simp: bit_simps add.commute simp del: add_2_eq_Suc add_2_eq_Suc' dest: bit_u8_less
      bit_imp_le_length)

lemma bit_nat_less: "bit v k \<Longrightarrow> v < 2 ^ n \<Longrightarrow> k < n" for v :: nat
proof (rule ccontr)
  assume "bit v k" "v < 2 ^ n" "\<not> k < n"
  then have "(2 :: nat) ^ n \<le> 2 ^ k" by (intro power_increasing) auto
  with \<open>v < 2 ^ n\<close> have "v < 2 ^ k" by (rule less_le_trans)
  then have "v div 2 ^ k = 0" by (rule div_less)
  with \<open>bit v k\<close> show False by (simp add: bit_iff_odd)
qed

text \<open>A sextet holds six consecutive bits of the stream.\<close>

lemma bit_base64_tmp:
  assumes "8 * length raw < 2 ^ 32" and k: "6 * k < 8 * length raw" and j: "j < 6"
  shows "bit (base64_tmp raw (of_nat (6 * k))) (5 - j) = stream_bit (raw_at raw) (6 * k + j)"
proof -
  define B s where "B = 6 * k div 8" and "s = 6 * k mod 8"
  have B: "6 * k = 8 * B + s" "s < 8" unfolding B_def s_def by presburger+
  with k have Bl: "B < length raw" by linarith
  have u: "unat (of_nat (6 * k) div 8 :: u32) = B" "unat (of_nat (6 * k) mod 8 :: u32) = s"
    using assms by (simp_all only: B_def s_def) (subst unat_u32_div_mod; simp)+
  have p: "5 - j + 2 = 7 - j" using j by simp
  have "base64_tmp raw (of_nat (6 * k)) =
      take_bit 6 (drop_bit 2 (push_bit s (ucast (raw ! B)) OR
        (if B + 1 < length raw then drop_bit (8 - s) (ucast (raw ! (B + 1))) else 0)))"
    by (simp add: base64_tmp_def Let_def u and_0x3f_take_bit del: of_nat_mult)
  then have "bit (base64_tmp raw (of_nat (6 * k))) (5 - j) =
      (s \<le> 7 - j \<and> bit (raw ! B) (7 - j - s) \<or>
       B + 1 < length raw \<and> bit (raw ! (B + 1)) (8 - s + (7 - j)))"
    using B(2) by (simp only: bit_sextet p) (auto simp: bit_simps)
  also have "\<dots> = stream_bit (raw_at raw) (6 * k + j)"
  proof (cases "s + j < 8")
    case True
    then have "6 * k + j = 8 * B + (s + j)" "7 - j - s = 7 - (s + j)" "\<not> 8 - s + (7 - j) < 8"
      using B j by auto
    with True Bl show ?thesis
      by (simp only: stream_bit_div) (auto simp: raw_at_def dest: bit_u8_less)
  next
    case False
    then have "6 * k + j = 8 * (B + 1) + (s + j - 8)" "8 - s + (7 - j) = 7 - (s + j - 8)"
        "\<not> s \<le> 7 - j" "s + j - 8 < 8"
      using B j by auto
    then show ?thesis
      by (simp only: stream_bit_div) (auto simp: raw_at_def)
  qed
  finally show ?thesis .
qed

text \<open>Decoding one character adds six bits to the output stream.\<close>

lemma stream_bit_base64_add:
  assumes "v < 64" and n: "n < 2 ^ 32" and i: "i < 8 * len"
  shows "stream_bit (\<lambda>j. base64_add m data len (of_nat n) v (data + j)) i \<longleftrightarrow>
     stream_bit (\<lambda>j. m (data + j)) i \<or> n \<le> i \<and> i < n + 6 \<and> bit v (5 - (i - n))"
proof -
  define B s where "B = n div 8" and "s = n mod 8"
  have B: "n = 8 * B + s" "s < 8" by (auto simp: B_def s_def)
  have u: "unat (of_nat n div 8 :: u32) = B" "unat (of_nat n mod 8 :: u32) = s"
    using unat_u32_div_mod [OF n] by (simp_all add: B_def s_def)
  define C t where "C = i div 8" and "t = i mod 8"
  have C: "i = 8 * C + t" "t < 8" "C < len" using i by (auto simp: C_def t_def)
  have v6: "k < 6" if "bit v k" for k
    using bit_nat_less [OF that, of 6] assms(1) by simp
  define w where "w = push_bit 2 (of_nat v :: u32)"
  have add: "base64_add m data len (of_nat n) v =
      (let m1 = (if B < len then m(data + B := m (data + B) OR ucast (drop_bit s w)) else m)
       in if B + 1 < len
          then m1(data + (B + 1) := m1 (data + (B + 1)) OR ucast (push_bit (8 - s) w)) else m1)"
    by (simp only: base64_add_def Let_def u w_def)
  have lo: "bit (ucast (drop_bit s w) :: u8) q =
      (q < 8 \<and> 2 \<le> s + q \<and> bit v (s + q - 2))" for q
    using B by (auto simp: w_def bit_simps simp del: push_bit_of_nat)
  have hi: "bit (ucast (push_bit (8 - s) w) :: u8) q =
      (q < 8 \<and> 10 \<le> s + q \<and> bit v (s + q - 10))" for q
  proof -
    have "push_bit (8 - s) w = push_bit (10 - s) (of_nat v)"
    proof -
      have "8 - s + 2 = 10 - s" using B(2) by simp
      then show ?thesis by (simp only: w_def push_bit_push_bit)
    qed
    moreover have "q - (10 - s) = s + q - 10" using B by simp
    ultimately show ?thesis
      using B by (auto simp: bit_simps simp del: push_bit_of_nat)
  qed
  have [simp]: "7 - t < 8" by arith
  consider "C = B" | "C = B + 1" | "C \<noteq> B" "C \<noteq> B + 1" by blast
  then have "bit (base64_add m data len (of_nat n) v (data + C)) (7 - t) \<longleftrightarrow>
      bit (m (data + C)) (7 - t) \<or> n \<le> i \<and> i < n + 6 \<and> bit v (5 - (i - n))"
  proof cases
    case 1
    have "bit (base64_add m data len (of_nat n) v (data + C)) (7 - t) \<longleftrightarrow>
      bit (m (data + C)) (7 - t) \<or> (2 \<le> s + (7 - t) \<and> bit v (s + (7 - t) - 2))"
      using 1 C(3) by (simp add: add Let_def bit_or_iff lo)
    also have "(2 \<le> s + (7 - t) \<and> bit v (s + (7 - t) - 2)) =
        (n \<le> i \<and> i < n + 6 \<and> bit v (5 - (i - n)))"
    proof -
      have "s + (7 - t) - 2 = 5 - (i - n)" if "n \<le> i" "i < n + 6" using that B C 1 by auto
      moreover have "n \<le> i \<and> i < n + 6" if "2 \<le> s + (7 - t)" "bit v (s + (7 - t) - 2)"
        using that v6 [OF that(2)] B C 1 by auto
      moreover have "2 \<le> s + (7 - t)" if "n \<le> i" "i < n + 6" using that B C 1 by auto
      ultimately show ?thesis by metis
    qed
    finally show ?thesis .
  next
    case 2
    have "bit (base64_add m data len (of_nat n) v (data + C)) (7 - t) \<longleftrightarrow>
      bit (m (data + C)) (7 - t) \<or> (10 \<le> s + (7 - t) \<and> bit v (s + (7 - t) - 10))"
      using 2 C(3) by (simp add: add Let_def bit_or_iff hi)
    also have "(10 \<le> s + (7 - t) \<and> bit v (s + (7 - t) - 10)) =
        (n \<le> i \<and> i < n + 6 \<and> bit v (5 - (i - n)))"
    proof -
      have "s + (7 - t) - 10 = 5 - (i - n)" if "i < n + 6" using that B C 2 by auto
      moreover have "10 \<le> s + (7 - t)" if "i < n + 6" using that B C 2 by auto
      moreover have "n \<le> i \<and> i < n + 6" if "10 \<le> s + (7 - t)" using that B C 2 by auto
      ultimately show ?thesis by metis
    qed
    finally show ?thesis .
  next
    case 3
    then have "\<not> (n \<le> i \<and> i < n + 6)" using B C by auto
    with 3 show ?thesis by (auto simp: add Let_def)
  qed
  with C show ?thesis by (simp add: stream_bit_def)
qed

lemma base64_encode_loop_chars:
  assumes n: "8 * length raw + 16 < 2 ^ 32" and "8 * length raw \<le> 6 * e" and "6 * e < 8 * length raw + 6"
  shows "k \<le> e \<Longrightarrow>
    base64_encode_loop m raw data len (of_nat (6 * k)) k =
      Some (cputchars m data len k (drop k (base64_chars raw e)), of_nat (6 * e), e)"
proof (induction "e - k" arbitrary: k m)
  case 0
  then have "k = e" by simp
  moreover have "unat (of_nat (6 * e) :: u32) = 6 * e"
    using assms by (intro unat_of_nat_u32) simp
  ultimately show ?case
    using assms by (simp add: base64_encode_loop.simps base64_chars_def del: of_nat_mult)
next
  case (Suc x)
  let ?c = "base64 ! unat (base64_tmp raw (of_nat (6 * k)))"
  have lt: "6 * k < 8 * length raw" "k < e" using Suc assms by auto
  have u: "unat (of_nat (6 * k) :: u32) = 6 * k"
    using lt assms by (intro unat_of_nat_u32) simp
  have "drop k (base64_chars raw e) = ?c # drop (Suc k) (base64_chars raw e)"
    using lt by (subst Cons_nth_drop_Suc [symmetric]) (simp_all add: base64_chars_def)
  moreover have "base64_encode_loop (printf_sputc m data len k ?c) raw data len (of_nat (6 * Suc k)) (Suc k) =
      Some (cputchars (printf_sputc m data len k ?c) data len (Suc k) (drop (Suc k) (base64_chars raw e)),
        of_nat (6 * e), e)"
    using Suc by (intro Suc.hyps) auto
  moreover have "of_nat (6 * k) + 6 = (of_nat (6 * Suc k) :: u32)" by simp
  ultimately show ?case
    using lt u by (subst base64_encode_loop.simps)
      (cases "k < len"; simp add: printf_sputc_def add.commute del: of_nat_mult)
qed

lemma base64_pad_loop_pads:
  assumes n: "24 * q < 2 ^ 32" and k: "k \<le> 4 * q" "4 * q \<le> k + 3"
  shows "base64_pad_loop m data len (of_nat (6 * k)) k =
      Some (cputchars m data len k (replicate (4 * q - k) 61), 4 * q)"
  using k
proof (induction "4 * q - k" arbitrary: k m)
  case 0
  then have "k = 4 * q" by simp
  moreover have "unat (of_nat (24 * q) mod 8 :: u32) = 0"
    using assms by (subst unat_u32_div_mod) simp_all
  ultimately show ?case
    by (subst base64_pad_loop.simps) (simp add: unat_eq_0 mult.assoc [symmetric] del: of_nat_mult)
next
  case (Suc x)
  have "6 * k < 2 ^ 32" using Suc n by simp
  then have "unat (of_nat (6 * k) mod 8 :: u32) = 6 * k mod 8"
    by (rule unat_u32_div_mod)
  moreover have "6 * k mod 8 \<noteq> 0" 
  proof -
    have "4 * q = k + 1 \<or> 4 * q = k + 2 \<or> 4 * q = k + 3" using Suc by auto
    then show ?thesis by presburger
  qed
  ultimately have nz: "of_nat (6 * k) mod (8 :: u32) \<noteq> 0" by (metis unat_0)
  have "base64_pad_loop (printf_sputc m data len k 61) data len (of_nat (6 * Suc k)) (Suc k) =
      Some (cputchars (printf_sputc m data len k 61) data len (Suc k) (replicate (4 * q - Suc k) 61), 4 * q)"
    using Suc by (intro Suc.hyps) auto
  moreover have "4 * q - k = Suc (4 * q - Suc k)" using Suc by simp
  moreover have "of_nat (6 * k) + 6 = (of_nat (6 * Suc k) :: u32)" by simp
  ultimately show ?case
    using nz by (subst base64_pad_loop.simps)
      (cases "k < len"; simp add: printf_sputc_def add.commute del: of_nat_mult)
qed

lemma cputchars_append:
  "cputchars m buf sz k (a @ b) = cputchars (cputchars m buf sz k a) buf sz (k + length a) b"
  by (induction a arbitrary: m k) simp_all

lemma base64_lengths:
  fixes raw :: "u8 list"
  defines "e \<equiv> (8 * length raw + 5) div 6" and "q \<equiv> (length raw + 2) div 3"
  shows "8 * length raw \<le> 6 * e" "6 * e < 8 * length raw + 6" "e \<le> 4 * q" "4 * q \<le> e + 3"
    "24 * q \<le> 8 * length raw + 16" "base64_encoded_len (length raw) = 4 * q"
  unfolding e_def q_def base64_encoded_len_def by presburger+

lemma length_base64_string [simp]: "length (base64_string raw) = base64_encoded_len (length raw)"
  using base64_lengths [of raw] by (simp add: base64_string_def base64_chars_def Let_def)

lemma base64_encode_eq:
  assumes n: "length raw + 2 < 2 ^ 29"
  shows "base64_encode m raw data len =
     Some (if len = 0 then m
           else (snwrite m data len (base64_string raw))(data + (len - 1) := 0),
           base64_encoded_len (length raw))"
proof -
  let ?e = "(8 * length raw + 5) div 6" and ?q = "(length raw + 2) div 3"
  note l = base64_lengths [of raw]
  have 1: "base64_encode_loop m raw data len 0 0 =
      Some (cputchars m data len 0 (base64_chars raw ?e), of_nat (6 * ?e), ?e)"
    using base64_encode_loop_chars [of raw ?e 0 m data len] n l by simp
  have "base64_pad_loop (cputchars m data len 0 (base64_chars raw ?e)) data len (of_nat (6 * ?e)) ?e =
      Some (cputchars (cputchars m data len 0 (base64_chars raw ?e)) data len ?e (replicate (4 * ?q - ?e) 61), 4 * ?q)"
    using n l by (intro base64_pad_loop_pads) simp_all
  then have 2: "base64_pad_loop (cputchars m data len 0 (base64_chars raw ?e)) data len (of_nat (6 * ?e)) ?e =
      Some (cputchars m data len 0 (base64_string raw), base64_encoded_len (length raw))"
    using l by (simp add: base64_string_def Let_def cputchars_append base64_chars_def)
  have 3: "(if u < len then (cputchars m data len 0 (base64_string raw))(data + u := 0)
       else cputchars m data len 0 (base64_string raw))(data + (len - 1) := 0) =
     (snwrite m data len (base64_string raw))(data + (len - 1) := 0)"
    if "0 < len" "u = base64_encoded_len (length raw)" for u
    using that by (auto simp: fun_eq_iff cputchars_apply snwrite_def Let_def)
  have 4: "cputchars m data 0 0 (base64_string raw) = m"
    by (auto simp: fun_eq_iff cputchars_apply)
  show ?thesis
    using 1 2 3 4 by (simp add: base64_encode_def Let_def del: of_nat_mult)
qed

text \<open>What decoding a run of sextets does to the output.\<close>

fun base64_adds :: "mem \<Rightarrow> nat \<Rightarrow> nat \<Rightarrow> nat \<Rightarrow> nat list \<Rightarrow> mem" where
  "base64_adds m data len n [] = m"
| "base64_adds m data len n (v # vs) =
     base64_adds (base64_add m data len (of_nat n) v) data len (n + 6) vs"

lemma base64_decode_loop_chars:
  "\<forall>v\<in>set vs. v < 64 \<Longrightarrow>
   base64_decode_loop (map ((!) base64) vs @ rest) m data len (of_nat n) 0 =
   base64_decode_loop rest (base64_adds m data len n vs) data len (of_nat (n + 6 * length vs)) 0"
proof (induction vs arbitrary: m n)
  case Nil
  then show ?case by simp
next
  case (Cons v vs)
  have "of_nat n + 6 = (of_nat (n + 6) :: u32)" by simp
  with Cons show ?case by (simp add: base64_nth strchr_base64 add.assoc del: of_nat_add)
qed

lemma base64_add_outside:
  "a < data \<or> data + len \<le> a \<Longrightarrow> base64_add m data len b v a = m a"
  by (auto simp: base64_add_def Let_def)

lemma base64_adds_outside:
  "a < data \<or> data + len \<le> a \<Longrightarrow> base64_adds m data len n vs a = m a"
  by (induction vs arbitrary: m n) (simp_all add: base64_add_outside)

lemma stream_bit_base64_adds:
  assumes "\<forall>v\<in>set vs. v < 64" and "n + 6 * length vs < 2 ^ 32" and "i < 8 * len"
  shows "stream_bit (\<lambda>j. base64_adds m data len n vs (data + j)) i \<longleftrightarrow>
     stream_bit (\<lambda>j. m (data + j)) i \<or>
     n \<le> i \<and> i < n + 6 * length vs \<and> bit (vs ! ((i - n) div 6)) (5 - (i - n) mod 6)"
  using assms(1,2)
proof (induction vs arbitrary: m n)
  case Nil
  then show ?case by auto
next
  case (Cons v vs)
  let ?m = "base64_add m data len (of_nat n) v"
  have "stream_bit (\<lambda>j. base64_adds m data len n (v # vs) (data + j)) i \<longleftrightarrow>
     stream_bit (\<lambda>j. ?m (data + j)) i \<or>
     n + 6 \<le> i \<and> i < n + 6 + 6 * length vs \<and> bit (vs ! ((i - (n + 6)) div 6)) (5 - (i - (n + 6)) mod 6)"
    using Cons by simp
  also have "stream_bit (\<lambda>j. ?m (data + j)) i \<longleftrightarrow>
     stream_bit (\<lambda>j. m (data + j)) i \<or> n \<le> i \<and> i < n + 6 \<and> bit v (5 - (i - n))"
    using Cons.prems assms(3) by (intro stream_bit_base64_add) auto
  finally have *: "stream_bit (\<lambda>j. base64_adds m data len n (v # vs) (data + j)) i \<longleftrightarrow>
     (stream_bit (\<lambda>j. m (data + j)) i \<or> n \<le> i \<and> i < n + 6 \<and> bit v (5 - (i - n))) \<or>
     n + 6 \<le> i \<and> i < n + 6 + 6 * length vs \<and> bit (vs ! ((i - (n + 6)) div 6)) (5 - (i - (n + 6)) mod 6)" .
  show ?case
  proof (cases "n + 6 \<le> i")
    case True
    then obtain d where "i = n + 6 + d" by (auto simp: le_iff_add)
    moreover have "(d + 6) div 6 = Suc (d div 6)" by simp
    ultimately show ?thesis unfolding * by (simp add: add.commute [of 6])
  next
    case False
    then have "n \<le> i \<Longrightarrow> (i - n) div 6 = 0 \<and> (i - n) mod 6 = i - n" by auto
    with False show ?thesis unfolding * by auto
  qed
qed

lemma base64_decode_loop_pads:
  "p \<le> 2 \<Longrightarrow> pad_count + p \<le> 2 \<Longrightarrow>
   base64_decode_loop (replicate p 61) m data len b pad_count = (m, Inr (b - of_nat (2 * p)))"
proof (induction p arbitrary: b pad_count)
  case 0
  then show ?case by simp
next
  case (Suc p)
  have "\<not> isspace (uint (61 :: u8))" by code_simp
  with Suc show ?case by (simp add: algebra_simps del: uint_word_of_int_eq unsigned_numeral)
qed

lemma base64_pad_lengths:
  fixes n :: nat
  defines "e \<equiv> (8 * n + 5) div 6" and "q \<equiv> (n + 2) div 3"
  shows "4 * q - e \<le> 2" "6 * e - 2 * (4 * q - e) = 8 * n" "2 * (4 * q - e) \<le> 6 * e"
proof -
  define a where "a = n div 3"
  have "n = 3 * a \<or> n = 3 * a + 1 \<or> n = 3 * a + 2"
    unfolding a_def by presburger
  then consider "n = 3 * a" | "n = 3 * a + 1" | "n = 3 * a + 2"
    by blast
  then have "4 * q - e \<le> 2 \<and> 6 * e - 2 * (4 * q - e) = 8 * n \<and> 2 * (4 * q - e) \<le> 6 * e"
  proof cases
    case 1
    then have "e = 4 * a" "q = a" unfolding e_def q_def by presburger+
    with 1 show ?thesis by simp
  next
    case 2
    then have "e = 4 * a + 2" "q = a + 1" unfolding e_def q_def by presburger+
    with 2 show ?thesis by simp
  next
    case 3
    then have "e = 4 * a + 3" "q = a + 1" unfolding e_def q_def by presburger+
    with 3 show ?thesis by simp
  qed
  then show "4 * q - e \<le> 2" "6 * e - 2 * (4 * q - e) = 8 * n" "2 * (4 * q - e) \<le> 6 * e"
    by blast+
qed

lemma base64_decode_string:
  assumes "length raw + 2 < 2 ^ 29"
  obtains m' where "base64_decode (base64_string raw) m data len = (m', Inr (length raw))"
    and "\<And>j. j < len \<Longrightarrow> m' (data + j) = raw_at raw j"
    and "\<And>a. a < data \<or> data + len \<le> a \<Longrightarrow> m' a = m a"
proof -
  let ?e = "(8 * length raw + 5) div 6" and ?q = "(length raw + 2) div 3"
  let ?vs = "map (\<lambda>k. unat (base64_tmp raw (of_nat (6 * k)))) [0..<?e]"
  let ?m0 = "generic_memset m data 0 len"
  define m' where "m' = base64_adds ?m0 data len 0 ?vs"
  note l = base64_lengths [of raw]
  have str: "base64_string raw = map ((!) base64) ?vs @ replicate (4 * ?q - ?e) 61"
    using l by (simp add: base64_string_def Let_def base64_chars_def)
  have p: "4 * ?q - ?e \<le> 2" "6 * ?e - 2 * (4 * ?q - ?e) = 8 * length raw" "2 * (4 * ?q - ?e) \<le> 6 * ?e"
    by (rule base64_pad_lengths)+
  have "base64_decode_loop (base64_string raw) ?m0 data len (of_nat 0) 0 =
      (m', Inr (of_nat (6 * ?e) - of_nat (2 * (4 * ?q - ?e))))"
    unfolding str m'_def by (subst base64_decode_loop_chars) (simp_all add: base64_decode_loop_pads p del: of_nat_mult)
  also have "of_nat (6 * ?e) - of_nat (2 * (4 * ?q - ?e)) = (of_nat (8 * length raw) :: u32)"
    using p by (simp only: of_nat_diff [symmetric] p)
  finally have d: "base64_decode_loop (base64_string raw) ?m0 data len 0 0 = (m', Inr (of_nat (8 * length raw)))"
    by simp
  have u: "unat (of_nat (8 * length raw) div 8 :: u32) = length raw" "of_nat (8 * length raw) mod 8 = (0 :: u32)"
    using unat_u32_div_mod [of "8 * length raw"] assms by (simp_all add: unat_eq_0)
  show ?thesis
  proof (rule that [of m'])
    show "base64_decode (base64_string raw) m data len = (m', Inr (length raw))"
      by (simp add: base64_decode_def d u del: of_nat_mult)
    show "m' a = m a" if "a < data \<or> data + len \<le> a" for a
      using that by (auto simp: m'_def base64_adds_outside generic_memset_apply)
    show "m' (data + j) = raw_at raw j" if "j < len" for j
    proof (rule bit_word_eqI)
      fix k assume "k < LENGTH(8)"
      then have k: "k < 8" by simp
      define i where "i = 8 * j + (7 - k)"
      have i: "stream_bit f i = bit (f j) k" for f
        unfolding i_def using k by (subst stream_bit_div) simp_all
      have lt: "i < 8 * len" "j < length raw \<Longrightarrow> i < 8 * length raw"
        using that k by (auto simp: i_def)
      have z: "\<not> stream_bit (\<lambda>j. ?m0 (data + j)) i"
        unfolding i using that by (simp add: generic_memset_apply)
      have "bit (m' (data + j)) k = stream_bit (\<lambda>j. m' (data + j)) i"
        by (simp only: i)
      also have "\<dots> \<longleftrightarrow> stream_bit (\<lambda>j. ?m0 (data + j)) i \<or>
          0 \<le> i \<and> i < 0 + 6 * length ?vs \<and> bit (?vs ! ((i - 0) div 6)) (5 - (i - 0) mod 6)"
        unfolding m'_def
      proof (rule stream_bit_base64_adds [OF _ _ lt(1)])
        show "\<forall>v\<in>set ?vs. v < 64" by auto
        show "0 + 6 * length ?vs < 2 ^ 32" using assms l by simp
      qed
      also have "\<dots> \<longleftrightarrow> i < 6 * ?e \<and> bit (?vs ! (i div 6)) (5 - i mod 6)"
        using z by simp
      also have "\<dots> \<longleftrightarrow> i < 6 * ?e \<and> stream_bit (raw_at raw) i"
      proof (cases "i < 6 * ?e")
        case True
        then have v: "i div 6 < ?e" by (intro less_mult_imp_div_less) (simp only: mult.commute)
        have "bit (base64_tmp raw (of_nat (6 * (i div 6)))) (5 - i mod 6) =
            stream_bit (raw_at raw) (6 * (i div 6) + i mod 6)"
          using assms v by (intro bit_base64_tmp) auto
        with v True show ?thesis by (simp add: bit_unsigned_iff)
      qed simp
      also have "\<dots> \<longleftrightarrow> bit (raw_at raw j) k"
        unfolding i using less_le_trans [OF lt(2) l(1)] by (auto simp: raw_at_def)
      finally show "bit (m' (data + j)) k = bit (raw_at raw j) k" .
    qed
  qed
qed

text \<open>Which strings the decoder accepts, and the bit count it ends with.\<close>

lemma base64_padded_simps:
  "base64_padded n [] \<longleftrightarrow> n \<le> 2"
  "base64_padded n (61 # t) \<longleftrightarrow> n < 2 \<and> base64_padded (n + 1) t"
  "c \<noteq> 61 \<Longrightarrow> base64_padded n (c # t) \<longleftrightarrow> n = 0 \<and> c \<in> set base64 \<and> base64_padded 0 t"
  by (cases t; auto simp: base64_padded_def Let_def)+

lemma base64_decode_loop_result:
  assumes "pad_count \<le> 2" and "0 \<notin> set s"
  shows "snd (base64_decode_loop s m data len b pad_count) =
     (let t = base64_strip s; p = length (dropWhile (\<lambda>c. c \<noteq> 61) t)
      in if base64_padded pad_count t then Inr (b + of_nat (6 * (length t - p)) - of_nat (2 * p))
         else Inl EINVAL)"
  using assms
proof (induction s arbitrary: m b pad_count)
  case Nil
  then show ?case by (simp add: base64_strip_def base64_padded_simps)
next
  case (Cons c s)
  let ?t = "base64_strip s" and ?p = "length (dropWhile (\<lambda>c. c \<noteq> 61) (base64_strip s))"
  have le: "?p \<le> length ?t" by (rule length_dropWhile_le)
  consider "isspace (uint c)" | "\<not> isspace (uint c)" "c = 61"
    | "\<not> isspace (uint c)" "c \<noteq> 61" "pad_count \<noteq> 0"
    | "\<not> isspace (uint c)" "c \<noteq> 61" "pad_count = 0" by blast
  then show ?case
  proof cases
    case 1
    with Cons show ?thesis by (simp add: base64_strip_def)
  next
    case 2
    have "dropWhile (\<lambda>c. c \<noteq> 61) ?t = ?t" if "base64_padded (Suc pad_count) ?t"
      using that by (cases ?t) (auto simp: base64_padded_simps)
    with 2 Cons show ?thesis
      by (auto simp: base64_strip_def base64_padded_simps Let_def algebra_simps)
  next
    case 3
    with Cons show ?thesis by (simp add: base64_strip_def base64_padded_simps)
  next
    case 4
    show ?thesis
    proof (cases "c \<in> set base64")
      case True
      then obtain v where v: "strchr base64 (uint c) = Some v"
        using Cons.prems by (cases "strchr base64 (uint c)") (auto simp: strchr_None_iff)
      have "b + 6 + of_nat (6 * (length ?t - ?p)) = b + of_nat (6 * (Suc (length ?t) - ?p))"
        using le by (simp add: Suc_diff_le algebra_simps)
      with 4 v True Cons show ?thesis
        by (auto simp: base64_strip_def base64_padded_simps Let_def simp del: of_nat_mult)
    next
      case False
      then have "strchr base64 (uint c) = None" using Cons.prems by (auto simp: strchr_None_iff)
      with 4 False Cons show ?thesis
        by (simp add: base64_strip_def base64_padded_simps)
    qed
  qed
qed

lemma base64_bits_whole:
  fixes c p :: nat
  shows "(of_nat (6 * c) - of_nat (2 * p)) mod (8 :: u32) = 0 \<longleftrightarrow> (c + p) mod 4 = 0"
proof -
  let ?N = "6 * c + (2 ^ 32 - 2) * p"
  have "of_nat (6 * c) - of_nat (2 * p) = (of_nat ?N :: u32)"
  proof -
    have "of_nat (2 ^ 32 - 2) = (- 2 :: u32)" by simp
    then show ?thesis by (simp only: of_nat_add of_nat_mult) simp
  qed
  then have "unat ((of_nat (6 * c) - of_nat (2 * p)) mod (8 :: u32)) = unat (of_nat ?N :: u32) mod 8"
    by (simp add: unat_mod_distrib del: of_nat_mult of_nat_add)
  also have "\<dots> = ?N mod 2 ^ 32 mod 8"
    by (simp only: unat_of_nat take_bit_eq_mod) simp
  also have "\<dots> = ?N mod 8" by (rule mod_mod_cancel) simp
  finally have "unat ((of_nat (6 * c) - of_nat (2 * p)) mod (8 :: u32)) = ?N mod 8" .
  moreover have "?N = 6 * (c + p) + 8 * (536870911 * p)" by simp
  then have "?N mod 8 = 6 * (c + p) mod 8" by (simp only: mod_mult_self2)
  moreover have "6 * (c + p) mod 8 = 0 \<longleftrightarrow> (c + p) mod 4 = 0" by presburger
  ultimately show ?thesis by (simp add: unat_eq_0 [symmetric])
qed

section \<open>Properties\<close>

text \<open>
  C9: the decoder inverts the encoder: raw data of less than half a gigabyte encodes (the
  loops of the encoder end), the encoded length is \<open>base64_encoded_len\<close>, and what was
  written into a large enough buffer decodes to the raw data, zero-padded to the size of
  the output buffer, with nothing written outside it.
\<close>

theorem base64_decode_encode:
  assumes "length raw + 2 < 2 ^ 29" and "base64_encoded_len (length raw) < len"
  shows "\<exists>m' m2. base64_encode m raw data len = Some (m', base64_encoded_len (length raw)) \<and>
    m' (data + base64_encoded_len (length raw)) = 0 \<and>
    base64_decode (map m' [data..<data + base64_encoded_len (length raw)]) m1 out n =
      (m2, Inr (length raw)) \<and>
    map m2 [out..<out + n] = take n raw @ replicate (n - length raw) 0 \<and>
    (\<forall>a. a < out \<or> out + n \<le> a \<longrightarrow> m2 a = m1 a)"
proof -
  let ?L = "base64_encoded_len (length raw)"
  let ?m' = "(snwrite m data len (base64_string raw))(data + (len - 1) := 0)"
  have "map ?m' [data..<data + ?L] = map (snwrite m data len (base64_string raw)) [data..<data + ?L]"
    using assms(2) by auto
  also have "\<dots> = base64_string raw"
    using snwrite_fits [of "base64_string raw" len m data] assms(2) by simp
  finally have str: "map ?m' [data..<data + ?L] = base64_string raw" .
  have nul: "?m' (data + ?L) = 0"
    using snwrite_terminated [of "base64_string raw" len m data] assms(2) by simp
  obtain m2 where m2: "base64_decode (base64_string raw) m1 out n = (m2, Inr (length raw))"
    "\<And>j. j < n \<Longrightarrow> m2 (out + j) = raw_at raw j" "\<And>a. a < out \<or> out + n \<le> a \<Longrightarrow> m2 a = m1 a"
    using base64_decode_string [OF assms(1)] by blast
  have "map m2 [out..<out + n] = take n raw @ replicate (n - length raw) 0"
    by (rule nth_equalityI) (auto simp: m2(2) raw_at_def nth_append)
  with m2 str nul base64_encode_eq [OF assms(1), of m data len] assms(2) show ?thesis
    by (intro exI [of _ ?m'] exI [of _ m2]) simp
qed

theorem base64_decode_encode_witness:
  "\<exists>m' m2. base64_encode (\<lambda>_. 0) [0x12, 0xf3, 0x55, 0x07] 10 16 = Some (m', 8) \<and>
    base64_decode (map m' [10..<10 + 8]) (\<lambda>_. 7) 50 5 = (m2, Inr 4) \<and>
    map m2 [50..<50 + 5] = [0x12, 0xf3, 0x55, 0x07, 0]"
proof -
  let ?r = "[0x12, 0xf3, 0x55, 0x07] :: u8 list"
  have L: "length ?r = 4" "base64_encoded_len 4 = 8" by (simp_all add: base64_encoded_len_def)
  have "length ?r + 2 < 2 ^ 29" "base64_encoded_len (length ?r) < 16" unfolding L by simp_all
  from base64_decode_encode [OF this, of "\<lambda>_. 0" 10 "\<lambda>_. 7" 50 5, unfolded L]
  obtain m' m2 where "base64_encode (\<lambda>_. 0) ?r 10 16 = Some (m', 8)"
    "base64_decode (map m' [10..<10 + 8]) (\<lambda>_. 7) 50 5 = (m2, Inr 4)"
    "map m2 [50..<50 + 5] = take 5 ?r @ replicate (5 - 4) 0"
    by blast
  moreover have "take 5 ?r @ replicate (5 - 4) 0 = [0x12, 0xf3, 0x55, 0x07, 0]" by simp
  ultimately show ?thesis by metis
qed

text \<open>
  C20: the decoder accepts exactly the well-formed strings: once white space is dropped,
  characters of the alphabet followed by at most two pads, four by four.
\<close>

theorem base64_decode_accepts:
  assumes "is_cstring s"
  shows "(\<exists>n. snd (base64_decode s m data len) = Inr n) \<longleftrightarrow> base64_wellformed s"
proof -
  let ?t = "base64_strip s"
  let ?p = "length (dropWhile (\<lambda>c. c \<noteq> 61) ?t)"
  have le: "?p \<le> length ?t" by (rule length_dropWhile_le)
  obtain m' r where r: "base64_decode_loop s (generic_memset m data 0 len) data len 0 0 = (m', r)"
    by (cases "base64_decode_loop s (generic_memset m data 0 len) data len 0 0")
  have "r = (if base64_padded 0 ?t then Inr (of_nat (6 * (length ?t - ?p)) - of_nat (2 * ?p)) else Inl EINVAL)"
    using base64_decode_loop_result [of 0 s "generic_memset m data 0 len" data len 0] assms
    by (simp add: r Let_def is_cstring_def del: of_nat_mult)
  then show ?thesis
    using le
    by (auto simp: base64_decode_def r base64_wellformed_def base64_bits_whole simp del: of_nat_mult)
qed

theorem base64_decode_accepts_witness:
  "(\<exists>n. snd (base64_decode (cs ''Zm 9v YmE='') (\<lambda>_. 0) 0 16) = Inr n) \<and>
   \<not> (\<exists>n. snd (base64_decode (cs ''Zm9vYmE'') (\<lambda>_. 0) 0 16) = Inr n)"
proof -
  have "is_cstring (cs ''Zm 9v YmE='')" "is_cstring (cs ''Zm9vYmE'')"
    "base64_wellformed (cs ''Zm 9v YmE='')" "\<not> base64_wellformed (cs ''Zm9vYmE'')"
    by code_simp+
  then show ?thesis
    using base64_decode_accepts [of "cs ''Zm 9v YmE=''" "\<lambda>_. 0" 0 16]
      base64_decode_accepts [of "cs ''Zm9vYmE''" "\<lambda>_. 0" 0 16] by blast
qed

end
