(* ===== verification/Base16.thy ===== *)
theory Base16
  imports Vsprintf
begin

text \<open>
  Base16: \<open>core/base16.c\<close> and \<open>include/ipxe/base16.h\<close>.  The encoder prints each byte
  with \<open>ssnprintf\<close> into what is left of the buffer; the decoder reads two digits per
  byte, with an optional separator before every byte but the first.
\<close>

section \<open>Operations\<close>

fun hex_encode_loop ::
    "mem \<Rightarrow> u8 \<Rightarrow> u8 list \<Rightarrow> nat \<Rightarrow> nat \<Rightarrow> nat \<Rightarrow> (mem \<times> nat) option" where
  "hex_encode_loop m separator [] data len used = Some (m, used)"
| "hex_encode_loop m separator (b # bytes) data len used =
     (case vssnprintf m (data + used) (int len - int used) (cs ''%s%02x'')
             [VaStr (Some (if used \<noteq> 0 then until_nul [separator, 0] else [])),
              VaInt (ucast b)] of
        None \<Rightarrow> None
      | Some (m', n) \<Rightarrow> hex_encode_loop m' separator bytes data len (used + n))"

definition hex_encode ::
    "mem \<Rightarrow> u8 \<Rightarrow> u8 list \<Rightarrow> nat \<Rightarrow> nat \<Rightarrow> (mem \<times> nat) option" where
  "hex_encode m separator raw data len =
     hex_encode_loop (if len \<noteq> 0 then m(data := 0) else m) separator raw data len 0"

function hex_decode_loop ::
    "u8 \<Rightarrow> cstring \<Rightarrow> mem \<Rightarrow> nat \<Rightarrow> nat \<Rightarrow> nat \<Rightarrow> mem \<times> nat result" where
  "hex_decode_loop separator encoded m data len count =
     (if encoded = [] then (m, Inr count)
      else if count \<noteq> 0 \<and> separator \<noteq> 0 \<and> deref encoded \<noteq> separator then (m, Inl EINVAL)
      else
        (let e1 = (if count \<noteq> 0 \<and> separator \<noteq> 0 then tl encoded else encoded);
             sixteens = digit_value (signed (deref e1))
         in if sixteens \<ge> 16 then (m, Inl EINVAL)
            else
              (let e2 = tl e1; units = digit_value (signed (deref e2))
               in if units \<ge> 16 then (m, Inl EINVAL)
                  else hex_decode_loop separator (tl e2)
                         (if count < len
                          then m(data + count := ucast (push_bit 4 sixteens OR units)) else m)
                         data len (count + 1))))"
  by pat_completeness auto
termination
  by (relation "measure (\<lambda>(_, encoded, _). length encoded)")
    (auto simp: less_diff_conv neq_Nil_conv split: if_splits)

declare hex_decode_loop.simps [simp del]

definition hex_decode :: "u8 \<Rightarrow> cstring \<Rightarrow> mem \<Rightarrow> nat \<Rightarrow> nat \<Rightarrow> mem \<times> nat result" where
  "hex_decode separator encoded m data len = hex_decode_loop separator encoded m data len 0"

definition base16_encoded_len :: "nat \<Rightarrow> nat" where
  "base16_encoded_len raw_len = 2 * raw_len"

definition base16_decoded_max_len :: "cstring \<Rightarrow> nat" where
  "base16_decoded_max_len encoded = (strlen encoded + 1) div 2"

definition base16_encode :: "mem \<Rightarrow> u8 list \<Rightarrow> nat \<Rightarrow> nat \<Rightarrow> (mem \<times> nat) option" where
  "base16_encode m raw data len = hex_encode m 0 raw data len"

definition base16_decode :: "cstring \<Rightarrow> mem \<Rightarrow> nat \<Rightarrow> nat \<Rightarrow> mem \<times> nat result" where
  "base16_decode encoded m data len = hex_decode 0 encoded m data len"

section \<open>The encoding as a string\<close>

definition hex2 :: "u8 \<Rightarrow> u8 list" where
  "hex2 b = [hex_digit (drop_bit 4 (ucast b)) OR 32, hex_digit (ucast b) OR 32]"

definition hex_delimiter :: "u8 \<Rightarrow> u8 list" where
  "hex_delimiter separator = (if separator = 0 then [] else [separator])"

definition hex_rest :: "u8 \<Rightarrow> u8 list \<Rightarrow> u8 list" where
  "hex_rest separator raw = concat (map (\<lambda>b. hex_delimiter separator @ hex2 b) raw)"

definition hex_string :: "u8 \<Rightarrow> u8 list \<Rightarrow> u8 list" where
  "hex_string separator raw =
     (case raw of [] \<Rightarrow> [] | b # bs \<Rightarrow> hex2 b @ hex_rest separator bs)"

section \<open>Lemmas\<close>

lemma length_hex2 [simp]: "length (hex2 b) = 2"
  by (simp add: hex2_def)

lemma hex_rest_Nil [simp]: "hex_rest sep [] = []"
  by (simp add: hex_rest_def)

lemma hex_rest_Cons: "hex_rest sep (b # bs) = hex_delimiter sep @ hex2 b @ hex_rest sep bs"
  by (simp add: hex_rest_def)

lemma until_nul_delimiter: "until_nul [separator, 0] = hex_delimiter separator"
  by (simp add: until_nul_def hex_delimiter_def)

lemma is_cstring_delimiter [simp]: "is_cstring (hex_delimiter separator)"
  by (simp add: hex_delimiter_def)

lemma vcprintf_hex_byte:
  assumes "is_cstring s"
  shows "vcprintf (cs ''%s%02x'') [VaStr (Some s), VaInt (ucast b)] = Some (s @ hex2 b)"
proof -
  have f: "format_hex (ucast (ucast b :: u32)) 2 (ZPAD OR LCASE) = hex2 b"
    using format_hex_u8 [of 32 LCASE b] by (simp add: hex2_def ucast_ucast_up)
  have "vcprintf [37, 48, 50, 120] [VaInt (ucast b)] = Some (hex2 b)"
    using vcprintf_02x [of "ucast b" "[]" "[]"] by (simp add: f)
  then show ?thesis by (simp add: vcprintf_s [OF assms])
qed

lemma hex_encode_loop_eq:
  "hex_encode_loop (snwrite m data len out) sep raw data len (length out) =
     Some (snwrite m data len
             (if out = [] then hex_string sep raw else out @ hex_rest sep raw),
           length (if out = [] then hex_string sep raw else out @ hex_rest sep raw))"
proof (induction raw arbitrary: out)
  case Nil
  then show ?case by (simp add: hex_string_def)
next
  case (Cons b raw)
  let ?d = "if length out \<noteq> 0 then hex_delimiter sep else []"
  have "is_cstring ?d" by simp
  then have v: "vssnprintf (snwrite m data len out) (data + length out)
      (int len - int (length out)) (cs ''%s%02x'') [VaStr (Some ?d), VaInt (ucast b)] =
      Some (snwrite m data len (out @ ?d @ hex2 b), length (?d @ hex2 b))"
    by (simp only: vssnprintf_eq [OF vcprintf_hex_byte] snwrite_append)
  have "hex2 b \<noteq> []" by (simp add: hex2_def)
  with v Cons.IH [of "out @ ?d @ hex2 b"] show ?case
    by (cases "out = []")
      (simp_all add: until_nul_delimiter hex_string_def hex_rest_Cons add.assoc del: cs_Cons)
qed

lemma hex_encode_eq:
  "hex_encode m sep raw data len =
     Some (snwrite m data len (hex_string sep raw), length (hex_string sep raw))"
  using hex_encode_loop_eq [of m data len "[]" sep raw]
  by (simp add: hex_encode_def snwrite_Nil)

lemma hex2_value:
  "ucast (push_bit 4 (ucast (drop_bit 4 (ucast b :: u64) AND 0xf) :: u32) OR
          (ucast ((ucast b :: u64) AND 0xf) :: u32)) = (b :: u8)"
  by (rule bit_word_eqI) (auto simp: and_0xf_take_bit bit_simps)

lemma ucast_and_0xf_less: "\<not> (16 :: u32) \<le> ucast ((x :: u64) AND 0xf)"
  by (simp add: word_le_nat_alt unsigned_ucast_eq unat_and_0xf take_bit_nat_eq_self)

text \<open>The decoder reads back one byte and goes on, with the separator where one is due.\<close>

lemma hex_decode_loop_digits:
  assumes "s = (if count = 0 then [] else hex_delimiter sep)"
    and "digit_value (signed x) = hi" and "digit_value (signed y) = lo"
    and "\<not> 16 \<le> hi" and "\<not> 16 \<le> lo"
  shows "hex_decode_loop sep (s @ x # y # rest) m data len count =
     hex_decode_loop sep rest
       (if count < len then m(data + count := ucast (push_bit 4 hi OR lo)) else m)
       data len (count + 1)"
  unfolding hex_decode_loop.simps [of sep "s @ x # y # rest"]
  using assms by (cases "count = 0"; cases "sep = 0") (simp_all add: hex_delimiter_def Let_def)

lemma hex_decode_loop_byte:
  assumes "s = (if count = 0 then [] else hex_delimiter sep)"
  shows "hex_decode_loop sep (s @ hex2 b @ rest) m data len count =
     hex_decode_loop sep rest (if count < len then m(data + count := b) else m) data len (count + 1)"
proof -
  obtain x y where h: "hex2 b = [x, y]"
    and x: "digit_value (signed x) = (ucast (drop_bit 4 (ucast b :: u64) AND 0xf) :: u32)"
    and y: "digit_value (signed y) = (ucast ((ucast b :: u64) AND 0xf) :: u32)"
    by (auto simp: hex2_def intro!: hex_digit_value)
  show ?thesis
    using hex_decode_loop_digits [OF assms x y ucast_and_0xf_less ucast_and_0xf_less]
    by (simp add: h hex2_value)
qed

lemma hex_decode_rest:
  assumes "0 < count"
  shows "hex_decode_loop sep (hex_rest sep raw) m data len count =
     (\<lambda>a. if data + count \<le> a \<and> a < data + min (count + length raw) len
          then raw ! (a - (data + count)) else m a, Inr (count + length raw))"
  using assms
proof (induction raw arbitrary: m count)
  case Nil
  then show ?case by (auto simp: hex_decode_loop.simps [of sep "[]"] fun_eq_iff)
next
  case (Cons b raw)
  have "hex_decode_loop sep (hex_rest sep (b # raw)) m data len count =
      hex_decode_loop sep (hex_rest sep raw)
        (if count < len then m(data + count := b) else m) data len (count + 1)"
    using Cons.prems by (simp only: hex_rest_Cons) (rule hex_decode_loop_byte, simp)
  also have "\<dots> = (\<lambda>a. if data + (count + 1) \<le> a \<and> a < data + min (count + 1 + length raw) len
          then raw ! (a - (data + (count + 1)))
          else (if count < len then m(data + count := b) else m) a, Inr (count + 1 + length raw))"
    by (rule Cons.IH) simp
  also have "\<dots> = (\<lambda>a. if data + count \<le> a \<and> a < data + min (count + length (b # raw)) len
          then (b # raw) ! (a - (data + count)) else m a, Inr (count + length (b # raw)))"
    by (auto simp: fun_eq_iff nth_Cons' less_diff_conv2 Suc_le_eq le_less)
  finally show ?case .
qed

lemma hex_decode_hex_string:
  "hex_decode sep (hex_string sep raw) m data len =
     (\<lambda>a. if data \<le> a \<and> a < data + min (length raw) len then raw ! (a - data) else m a,
      Inr (length raw))"
proof (cases raw)
  case Nil
  then show ?thesis
    by (auto simp: hex_decode_def hex_string_def hex_decode_loop.simps [of sep "[]"] fun_eq_iff)
next
  case (Cons b bs)
  have "hex_decode sep (hex_string sep raw) m data len =
      hex_decode_loop sep (hex_rest sep bs) (if 0 < len then m(data := b) else m) data len 1"
    using hex_decode_loop_byte [of "[]" 0 sep b "hex_rest sep bs" m data len]
    by (simp add: Cons hex_decode_def hex_string_def)
  also have "\<dots> = (\<lambda>a. if data + 1 \<le> a \<and> a < data + min (1 + length bs) len
          then bs ! (a - (data + 1)) else (if 0 < len then m(data := b) else m) a,
          Inr (1 + length bs))"
    by (rule hex_decode_rest) simp
  also have "\<dots> = (\<lambda>a. if data \<le> a \<and> a < data + min (length raw) len then raw ! (a - data) else m a,
      Inr (length raw))"
    by (auto simp: Cons fun_eq_iff nth_Cons' Suc_le_eq le_less)
  finally show ?thesis .
qed

lemma length_hex_string_base16 [simp]: "length (hex_string 0 raw) = 2 * length raw"
  by (cases raw) (auto simp: hex_string_def hex_rest_def hex_delimiter_def length_concat
      o_def sum_list_triv)

section \<open>Properties\<close>



end
