(* ===== verification/UriCodec.thy ===== *)
theory UriCodec
  imports Base16
begin

text \<open>
  Percent-encoding and decoding of URI fields (\<open>core/uri.c\<close>: \<open>uri_decode\<close>,
  \<open>uri_character_escaped\<close>, \<open>uri_encode\<close>).  The decoder reads and writes the same memory, so
  that decoding in place is a theorem.
\<close>

section \<open>Definitions\<close>

text \<open>The fields of \<open>struct uri\<close> in their order, by index (\<open>enum uri_fields\<close>).\<close>

definition URI_SCHEME :: nat where "URI_SCHEME = 0"
definition URI_OPAQUE :: nat where "URI_OPAQUE = 1"
definition URI_USER :: nat where "URI_USER = 2"
definition URI_PASSWORD :: nat where "URI_PASSWORD = 3"
definition URI_HOST :: nat where "URI_HOST = 4"
definition URI_PORT :: nat where "URI_PORT = 5"
definition URI_PATH :: nat where "URI_PATH = 6"
definition URI_EPATH :: nat where "URI_EPATH = 7"
definition URI_EQUERY :: nat where "URI_EQUERY = 8"
definition URI_EFRAGMENT :: nat where "URI_EFRAGMENT = 9"
definition URI_FIELDS :: nat where "URI_FIELDS = 10"

lemmas uri_field_defs = URI_SCHEME_def URI_OPAQUE_def URI_USER_def URI_PASSWORD_def URI_HOST_def
  URI_PORT_def URI_PATH_def URI_EPATH_def URI_EQUERY_def URI_EFRAGMENT_def URI_FIELDS_def

text \<open>
  The text after a percent sign: at most two characters go through \<open>hexbuf\<close> and
  \<open>strtoul\<close>; gives the character to store and the number of characters consumed.
\<close>

definition uri_escape :: "cstring \<Rightarrow> u8 \<times> nat" where
  "uri_escape encoded =
     (let hexbuf = take 2 encoded;
          (decoded, hexbuf_end) = (strtoul hexbuf 16 :: u64 \<times> cstring);
          skip = length hexbuf - length hexbuf_end
      in (if skip \<noteq> 0 then ucast decoded else 37, skip))"

partial_function (option) uri_decode_loop ::
    "mem \<Rightarrow> nat \<Rightarrow> nat \<Rightarrow> nat \<Rightarrow> nat \<Rightarrow> (mem \<times> nat) option" where
  "uri_decode_loop m encoded out len count =
     (if m encoded = 0 then Some (m, count)
      else
        (let (c, skip) = (if m encoded = 37
                          then uri_escape (until_nul [m (encoded + 1), m (encoded + 2)])
                          else (m encoded, 0))
         in uri_decode_loop (if count < len then m(out + count := c) else m)
              (encoded + 1 + skip) out len (count + 1)))"

definition uri_decode :: "mem \<Rightarrow> nat \<Rightarrow> nat \<Rightarrow> nat \<Rightarrow> (mem \<times> nat) option" where
  "uri_decode m encoded buf len = uri_decode_loop m encoded buf len 0"

definition uri_escaped_chars :: "cstring list" where
  "uri_escaped_chars =
     [cs ''/#:@?=&'', cs ''#'', cs ''/#:@?'', cs ''/#:@?'', cs ''/#@?'', cs ''/#:@?'', cs ''#:@?'']"

definition uri_character_escaped :: "u8 \<Rightarrow> nat \<Rightarrow> bool" where
  "uri_character_escaped c field =
     (if \<not> isprint (sint c) \<or> c = 32 then True
      else if field \<ge> URI_EPATH then False
      else if c = 37 \<or> strchr (uri_escaped_chars ! field) (sint c) \<noteq> None then True
      else False)"

fun uri_encode_loop ::
    "mem \<Rightarrow> nat \<Rightarrow> u8 list \<Rightarrow> nat \<Rightarrow> int \<Rightarrow> (mem \<times> int) option" where
  "uri_encode_loop m field [] buf remaining = Some (m, remaining)"
| "uri_encode_loop m field (c # raw) buf remaining =
     (case (if uri_character_escaped c field
            then vssnprintf m buf remaining (cs ''%%%02X'') [VaInt (signed c)]
            else vssnprintf m buf remaining (cs ''%c'') [VaInt (signed c)]) of
        None \<Rightarrow> None
      | Some (m', used) \<Rightarrow> uri_encode_loop m' field raw (buf + used) (remaining - int used))"

definition uri_encode ::
    "mem \<Rightarrow> nat \<Rightarrow> u8 list \<Rightarrow> nat \<Rightarrow> int \<Rightarrow> (mem \<times> nat) option" where
  "uri_encode m field raw buf len =
     (case uri_encode_loop (if len > 0 then m(buf := 0) else m) field raw buf len of
        None \<Rightarrow> None
      | Some (m', remaining) \<Rightarrow> Some (m', nat (len - remaining)))"

definition uri_encode_string ::
    "mem \<Rightarrow> nat \<Rightarrow> cstring \<Rightarrow> nat \<Rightarrow> int \<Rightarrow> (mem \<times> nat) option" where
  "uri_encode_string m field s buf len = uri_encode m field (take (strlen s) s) buf len"

section \<open>Specification\<close>

lemma uri_escape_length: "uri_escape s = (c, skip) \<Longrightarrow> skip \<le> length s"
  by (auto simp: uri_escape_def Let_def split: prod.splits if_splits)

function uri_decoded :: "cstring \<Rightarrow> u8 list" where
  "uri_decoded [] = []"
| "uri_decoded (c # s) =
     (if c = 37 then (case uri_escape s of (d, skip) \<Rightarrow> d # uri_decoded (drop skip s))
      else c # uri_decoded s)"
  by pat_completeness auto
termination
  by (relation "measure length") auto

definition uri_encoded_char :: "nat \<Rightarrow> u8 \<Rightarrow> u8 list" where
  "uri_encoded_char field c =
     (if uri_character_escaped c field
      then 37 # format_hex (ucast (signed c :: u32)) 2 ZPAD
      else [c])"

definition uri_encoded :: "nat \<Rightarrow> u8 list \<Rightarrow> u8 list" where
  "uri_encoded field raw = concat (map (uri_encoded_char field) raw)"

text \<open>A string in memory at an address.\<close>

definition cstring_at :: "mem \<Rightarrow> nat \<Rightarrow> cstring \<Rightarrow> bool" where
  "cstring_at m a s \<longleftrightarrow>
     is_cstring s \<and> (\<forall>i<length s. m (a + i) = s ! i) \<and> m (a + length s) = 0"

section \<open>Decoding\<close>

lemma cstring_at_simps:
  "cstring_at m a [] \<longleftrightarrow> m a = 0"
  "cstring_at m a (c # s) \<longleftrightarrow> m a = c \<and> c \<noteq> 0 \<and> cstring_at m (a + 1) s"
  by (auto simp: cstring_at_def is_cstring_def less_Suc_eq_0_disj)

lemma cstring_at_drop: "cstring_at m a s \<Longrightarrow> k \<le> length s \<Longrightarrow> cstring_at m (a + k) (drop k s)"
  by (auto simp: cstring_at_def is_cstring_drop add.assoc)

lemma cstring_at_cong:
  "cstring_at m a s \<Longrightarrow> (\<And>i. i \<le> length s \<Longrightarrow> m' (a + i) = m (a + i)) \<Longrightarrow> cstring_at m' a s"
  by (simp add: cstring_at_def)

lemma cstring_at_take2:
  "cstring_at m a s \<Longrightarrow> until_nul [m a, m (a + 1)] = take 2 s"
  by (cases s; cases "tl s") (auto simp: cstring_at_simps until_nul_def)

lemma uri_escape_take [simp]: "uri_escape (take 2 s) = uri_escape s"
  by (simp add: uri_escape_def)

text \<open>The decoder writes behind the place it reads from, or somewhere else altogether.\<close>

lemma uri_decode_loop_eq:
  assumes "cstring_at m e s" and "out + count \<le> e \<or> e + length s < out + count"
  shows "uri_decode_loop m e out len count =
     Some (cputchars m out len count (uri_decoded s), count + length (uri_decoded s))"
  using assms
proof (induction s arbitrary: m e count rule: uri_decoded.induct)
  case 1
  then show ?case
    by (simp add: uri_decode_loop.simps cstring_at_simps)
next
  case (2 c s)
  obtain d skip where ds: "(if c = 37 then uri_escape s else (c, 0)) = (d, skip)" by fastforce
  then have skip: "skip \<le> length s" by (auto dest: uri_escape_length split: if_splits)
  have s: "m e = c" "c \<noteq> 0" "cstring_at m (e + 1) s" using 2 by (auto simp: cstring_at_simps)
  have at: "cstring_at (printf_sputc m out len count d) (e + 1 + skip) (drop skip s)"
    using cstring_at_drop [OF s(3) skip] skip 2
    by (rule_tac cstring_at_cong [of m]) (auto simp: printf_sputc_def)
  have "uri_decode_loop m e out len count =
      uri_decode_loop (printf_sputc m out len count d) (e + 1 + skip) out len (count + 1)"
    using s ds cstring_at_take2 [OF s(3)]
    by (subst uri_decode_loop.simps) (simp add: printf_sputc_def split: if_splits)
  also have "\<dots> = Some (cputchars (printf_sputc m out len count d) out len (count + 1)
      (uri_decoded (drop skip s)), count + 1 + length (uri_decoded (drop skip s)))"
  proof (cases "c = 37")
    case True
    with ds have "(d, skip) = uri_escape s" by simp
    from 2(1) [OF True this at, of "count + 1"] 2(4) skip show ?thesis by auto
  next
    case False
    with ds have "skip = 0" by simp
    with 2(2) [OF False, of "printf_sputc m out len count d" "e + 1" "count + 1"] at 2(4)
    show ?thesis by auto
  qed
  also have "\<dots> = Some (cputchars m out len count (uri_decoded (c # s)),
      count + length (uri_decoded (c # s)))"
    using ds by (auto split: if_splits)
  finally show ?case .
qed

lemma uri_decoded_length: "length (uri_decoded s) \<le> length s"
proof (induction s rule: uri_decoded.induct)
  case (2 c s)
  show ?case
  proof (cases "c = 37")
    case True
    obtain d skip where e: "uri_escape s = (d, skip)" by fastforce
    have "length (uri_decoded (drop skip s)) \<le> length (drop skip s)"
      using 2(1) [OF True] e by simp
    with True e show ?thesis by simp
  qed (use 2 in simp)
qed simp

section \<open>Encoding\<close>

lemma format_hex_loop_length:
  "unat n < 16 ^ Suc k \<Longrightarrow> length (format_hex_loop n cm []) \<le> Suc k"
proof (induction k arbitrary: n)
  case 0
  then have "drop_bit 4 n = 0" by (simp add: unat_eq_zero [symmetric] unat_drop_bit)
  then show ?case by (simp add: format_hex_loop.simps [of n])
next
  case (Suc k)
  have "length (format_hex_loop (drop_bit 4 n) cm []) \<le> Suc k"
    using Suc.prems by (intro Suc.IH) (simp add: unat_drop_bit less_mult_imp_div_less mult.commute)
  then show ?case
    using format_hex_loop_append [of "drop_bit 4 n" cm "[hex_digit n OR cm]"]
    by (simp add: format_hex_loop.simps [of n] Let_def)
qed

lemma ucast_scast_u8: "ucast (signed c :: u32) = (c :: u8)"
proof (rule bit_word_eqI)
  fix n assume "n < LENGTH(8)"
  then have "min 7 n = n" by simp
  with \<open>n < LENGTH(8)\<close> show "bit (ucast (signed c :: u32) :: u8) n = bit c n"
    by (simp add: bit_simps)
qed

lemma vcprintf_uri_char:
  "vcprintf (if uri_character_escaped c field then cs ''%%%02X'' else cs ''%c'') [VaInt (signed c)] =
     Some (uri_encoded_char field c)"
proof -
  let ?x = "ucast (signed c :: u32) :: u64"
  have "unat ?x < 16 ^ Suc 15" using unat_word_less_power [of ?x] by simp
  then have "length (format_hex_loop ?x (ucast (ZPAD AND LCASE)) []) \<le> 16"
    using format_hex_loop_length [of ?x 15 "ucast (ZPAD AND LCASE)"] by simp
  then have "length (format_hex ?x 2 ZPAD) \<le> 31"
    unfolding format_hex_def Let_def by (simp split: if_split) arith
  then show ?thesis
    by (simp add: uri_encoded_char_def printf_eval vcprintf_02X) (simp add: ucast_scast_u8)
qed

lemma vssnprintf_uri_char:
  "(if uri_character_escaped c field
    then vssnprintf m buf remaining (cs ''%%%02X'') [VaInt (signed c)]
    else vssnprintf m buf remaining (cs ''%c'') [VaInt (signed c)]) =
   Some (snwrite m buf (nat remaining) (uri_encoded_char field c), length (uri_encoded_char field c))"
  using vssnprintf_eq [OF vcprintf_uri_char [of c field], of m buf remaining]
  by (simp only: if_distrib [of "\<lambda>fmt. vssnprintf m buf remaining fmt [VaInt (signed c)]"])

lemma uri_encode_loop_eq:
  "uri_encode_loop (snwrite m buf (nat len) out) field raw (buf + length out) (len - int (length out)) =
     Some (snwrite m buf (nat len) (out @ uri_encoded field raw),
           len - int (length (out @ uri_encoded field raw)))"
proof (induction raw arbitrary: out)
  case Nil
  then show ?case by (simp add: uri_encoded_def)
next
  case (Cons c raw)
  let ?e = "uri_encoded_char field c"
  have n: "nat (len - int (length out)) = nat (int (nat len) - int (length out))" by simp
  have "uri_encode_loop (snwrite m buf (nat len) out) field (c # raw) (buf + length out) (len - int (length out)) =
      uri_encode_loop (snwrite m buf (nat len) (out @ ?e)) field raw (buf + length (out @ ?e))
        (len - int (length (out @ ?e)))"
    by (simp only: uri_encode_loop.simps vssnprintf_uri_char n snwrite_append) (simp add: algebra_simps)
  also have "\<dots> = Some (snwrite m buf (nat len) ((out @ ?e) @ uri_encoded field raw),
           len - int (length ((out @ ?e) @ uri_encoded field raw)))"
    by (rule Cons.IH)
  finally show ?case by (simp add: uri_encoded_def)
qed

lemma uri_encode_eq:
  "uri_encode m field raw buf len =
     Some (snwrite m buf (nat len) (uri_encoded field raw), length (uri_encoded field raw))"
  using uri_encode_loop_eq [of m buf len "[]" field raw]
  by (simp add: uri_encode_def snwrite_Nil split: if_splits)

lemma uri_encode_string_eq:
  "is_cstring s \<Longrightarrow> length s \<le> SIZE_MAX \<Longrightarrow> uri_encode_string m field s buf len =
     Some (snwrite m buf (nat len) (uri_encoded field s), length (uri_encoded field s))"
  by (simp add: uri_encode_string_def strlen_eq uri_encode_eq)

section \<open>The round trip\<close>

text \<open>The ASCII characters: the bytes on which a signed and an unsigned \<open>char\<close> agree.\<close>

definition is_ascii :: "u8 \<Rightarrow> bool" where
  "is_ascii c \<longleftrightarrow> c < 0x80"

lemma signed_ascii: "is_ascii c \<Longrightarrow> (signed c :: u32) = ucast c" "is_ascii c \<Longrightarrow> sint c = uint c"
proof -
  have "\<not> c < 0x80 \<or> (signed c :: u32) = ucast c \<and> sint c = uint c"
    by (rule u8_exhaustive [of _ c]) code_simp
  then show "is_ascii c \<Longrightarrow> (signed c :: u32) = ucast c" "is_ascii c \<Longrightarrow> sint c = uint c"
    by (auto simp: is_ascii_def)
qed

lemma hex_char_plain:
  "\<not> 16 \<le> digit_value (signed x) \<Longrightarrow> \<not> isspace (sint x) \<and> x \<noteq> 45 \<and> x \<noteq> 43" for x :: u8
proof -
  have "16 \<le> digit_value (signed x) \<or> \<not> isspace (sint x) \<and> x \<noteq> 45 \<and> x \<noteq> 43"
    by (rule u8_exhaustive [of _ x]) code_simp
  then show "\<not> 16 \<le> digit_value (signed x) \<Longrightarrow> ?thesis" by blast
qed

lemma uri_escape_hex:
  assumes x: "digit_value (signed x) = hi" and y: "digit_value (signed y) = lo"
    and hi: "\<not> 16 \<le> hi" and lo: "\<not> 16 \<le> lo"
  shows "uri_escape (x # y # rest) = (ucast (ucast hi * 16 + ucast lo :: u64), 2)"
proof -
  have "strtoul_pre [x, y] 16 = ([x, y], False, 16)"
    using hex_char_plain [of x] x hi by (intro strtoul_pre_plain) auto
  moreover have "strtoul_loop 16 0 [x, y] = ((ucast hi * 16 + ucast lo :: u64), [])"
    using x y hi lo by (simp add: Let_def)
  ultimately show ?thesis
    by (simp add: uri_escape_def strtoul_def numeral_2_eq_2)
qed

lemma ucast_ucast_u8: "ucast (ucast c :: u64) = (c :: u8)"
  by (rule bit_word_eqI) (simp add: bit_simps)

lemma uri_escape_format_hex:
  assumes "is_ascii c"
  shows "uri_escape (format_hex (ucast (signed c :: u32)) 2 ZPAD @ rest) = (c, 2)"
    and "length (format_hex (ucast (signed c :: u32)) 2 ZPAD) = 2"
proof -
  let ?n = "ucast c :: u64"
  have "ucast (signed c :: u32) = ?n" using assms by (simp add: signed_ascii ucast_ucast_up)
  then have f: "format_hex (ucast (signed c :: u32)) 2 ZPAD =
      [hex_digit (drop_bit 4 ?n), hex_digit ?n]"
    using format_hex_u8 [of 0 0 c] by simp
  then show "length (format_hex (ucast (signed c :: u32)) 2 ZPAD) = 2" by simp
  have d: "digit_value (signed (hex_digit n)) = (ucast (n AND 0xf) :: u32)" for n
    using hex_digit_value [of 0 n] by simp
  have w: "(ucast (ucast (n AND 0xf) :: u32) :: u64) = of_nat (unat n mod 16)" for n :: u64
  proof -
    have "(ucast (ucast (n AND 0xf) :: u32) :: u64) = n AND 0xf"
      by (rule bit_word_eqI) (auto simp: and_0xf_take_bit bit_simps)
    then show ?thesis by (simp flip: unat_and_0xf)
  qed
  have n: "unat (drop_bit 4 ?n) = unat c div 16" "unat ?n = unat c"
    by (simp_all add: unat_drop_bit unat_ucast_up)
  have "unat c div 16 mod 16 = unat c div 16"
    using unat_u8_less [of c] by (intro mod_less less_mult_imp_div_less) simp
  then have "(ucast (ucast (drop_bit 4 ?n AND 0xf) :: u32) :: u64) * 16 + ucast (ucast (?n AND 0xf) :: u32) =
      of_nat (unat c div 16 * 16 + unat c mod 16)"
    unfolding w by (simp only: n of_nat_add of_nat_mult of_nat_numeral)
  also have "\<dots> = ?n" by (simp only: div_mult_mod_eq of_nat_unat)
  finally show "uri_escape (format_hex (ucast (signed c :: u32)) 2 ZPAD @ rest) = (c, 2)"
    unfolding f using uri_escape_hex [OF d d ucast_and_0xf_less ucast_and_0xf_less, of "drop_bit 4 ?n" ?n rest]
    by (simp add: ucast_ucast_u8)
qed

text \<open>
  An escaped character is a percent sign and two digits; a character that is not escaped
  is not a percent sign, except in the fields that are already encoded.
\<close>

lemma uri_decoded_encoded:
  assumes "field < URI_EPATH" and "\<forall>c\<in>set raw. is_ascii c"
  shows "uri_decoded (uri_encoded field raw @ rest) = raw @ uri_decoded rest"
  using assms(2)
proof (induction raw)
  case Nil
  then show ?case by (simp add: uri_encoded_def)
next
  case (Cons c raw)
  let ?h = "format_hex (ucast (signed c :: u32)) 2 ZPAD"
  have IH: "uri_decoded (uri_encoded field raw @ rest) = raw @ uri_decoded rest"
    using Cons by simp
  show ?case
  proof (cases "uri_character_escaped c field")
    case True
    then have "uri_encoded field (c # raw) @ rest = 37 # ?h @ (uri_encoded field raw @ rest)"
      by (simp add: uri_encoded_def uri_encoded_char_def)
    then show ?thesis
      using IH Cons.prems by (simp add: uri_escape_format_hex)
  next
    case False
    then have "uri_encoded field (c # raw) @ rest = c # uri_encoded field raw @ rest"
      by (simp add: uri_encoded_def uri_encoded_char_def)
    moreover have "c \<noteq> 37"
      using False assms(1) by (cases "c = 37") (simp_all add: uri_character_escaped_def split: if_splits)
    ultimately show ?thesis using IH by simp
  qed
qed

section \<open>Properties\<close>



text \<open>
  C16: decoding inverts encoding: an ASCII string encoded for any field but the already
  encoded ones (path, query and fragment in their original encoding) and written to a large
  enough buffer decodes to the string, whatever characters it contains.
\<close>

theorem uri_decode_encode:
  assumes "field < URI_EPATH" and "\<forall>c\<in>set raw. is_ascii c"
    and "uri_encode m field raw buf (int len) = Some (m', used)" and "used < len"
  shows "uri_decoded (map m' [buf..<buf + used]) = raw \<and> m' (buf + used) = 0"
proof -
  have "m' = snwrite m buf len (uri_encoded field raw)" "used = length (uri_encoded field raw)"
    using assms(3) by (auto simp: uri_encode_eq)
  then show ?thesis
    using assms(4) uri_decoded_encoded [OF assms(1,2), of "[]"]
    by (simp add: snwrite_fits snwrite_terminated)
qed

theorem uri_decode_encode_witness:
  "\<exists>m' used. uri_encode (\<lambda>_. 0) URI_USER [0x61, 0x3a, 0x25, 0x0a] 0 64 = Some (m', used) \<and>
     uri_decoded (map m' [0..<0 + used]) = [0x61, 0x3a, 0x25, 0x0a]"
proof -
  let ?raw = "[0x61, 0x3a, 0x25, 0x0a] :: u8 list"
  obtain m' used where e: "uri_encode (\<lambda>_. 0) URI_USER ?raw 0 (int 64) = Some (m', used)"
    and u: "used = length (uri_encoded URI_USER ?raw)"
    by (simp add: uri_encode_eq)
  have ascii: "\<forall>c\<in>set ?raw. is_ascii c" by (simp add: is_ascii_def)
  have "length (uri_encoded_char URI_USER c) \<le> 3" if "is_ascii c" for c
    using that by (simp add: uri_encoded_char_def uri_escape_format_hex)
  then have "length (uri_encoded URI_USER raw) \<le> 3 * length raw" if "\<forall>c\<in>set raw. is_ascii c" for raw
    using that by (induction raw) (auto simp: uri_encoded_def intro: order_trans [OF add_mono])
  from this [OF ascii] have "used < 64" by (simp add: u)
  with uri_decode_encode [OF _ ascii e] e show ?thesis by (auto simp: uri_field_defs)
qed

text \<open>
  A byte from 0x80 up is a negative \<open>char\<close>: it is escaped with all eight digits of its
  sign extension, and does not decode to itself.
\<close>

lemma uri_encode_not_ascii:
  "uri_encoded URI_PATH [0xe9] = cs ''%FFFFFFE9''"
  "uri_decoded (uri_encoded URI_PATH [0xe9]) \<noteq> [0xe9]"
  by code_simp+

text \<open>
  \<open>strtoul\<close> accepts white space and signs, so malformed escapes decode to a NUL.
\<close>

lemma uri_decode_malformed_escape:
  "uri_decoded (cs ''a%+z'') = [97, 0, 122]"
  "uri_decoded (cs ''a% z'') = [97, 0, 122]"
  by code_simp+

end
