(* ===== verification/Params.thy ===== *)
theory Params
  imports CString
begin

text \<open>
  Reference counts (\<open>core/refcnt.c\<close>, \<open>include/ipxe/refcnt.h\<close>) and request parameter lists
  (\<open>core/params.c\<close>, \<open>include/ipxe/params.h\<close>).  Allocated parameter lists live in a store
  indexed by their address; the global list \<open>parameters\<close> is a list of addresses.  Memory
  allocation is an argument: the address \<open>zalloc\<close> returned, or None for failure.
\<close>

section \<open>Reference counts\<close>

text \<open>
  \<open>ref_decrement\<close> reports whether the object's \<open>free\<close> method is called: only by the
  decrement that takes the count from zero to minus one.
\<close>

definition ref_increment :: "int \<Rightarrow> int" where
  "ref_increment count = count + 1"

definition ref_decrement :: "int \<Rightarrow> int \<times> bool" where
  "ref_decrement count =
     (let count = count - 1
      in if count \<ge> 0 then (count, False)
         else if count < - 1 then (count, False)
         else (count, True))"

section \<open>Parameter lists\<close>

record parameter =
  key :: cstring
  val :: cstring
  flags :: u32

record parameters =
  p_refcnt :: int
  p_name :: "cstring option"
  p_entries :: "parameter list"

record params_state =
  p_store :: "nat \<rightharpoonup> parameters"
  p_list :: "nat list"

text \<open>
  The comparison of two names: two null pointers compare equal, a null pointer is never
  dereferenced in a defined run (None), and two strings (which are never the same
  pointer here, as the list holds its own copies) are compared with \<open>strcmp\<close>.
\<close>

definition name_matches :: "cstring option \<Rightarrow> cstring option \<Rightarrow> bool option" where
  "name_matches pname name =
     (case (pname, name) of
        (None, None) \<Rightarrow> Some True
      | (Some p, Some n) \<Rightarrow> Some (strcmp p n = 0)
      | _ \<Rightarrow> None)"

fun find_in_list ::
    "(nat \<rightharpoonup> parameters) \<Rightarrow> nat list \<Rightarrow> cstring option \<Rightarrow> nat option option" where
  "find_in_list store [] name = Some None"
| "find_in_list store (a # rest) name =
     (case store a of
        None \<Rightarrow> None
      | Some params \<Rightarrow>
          (case name_matches (p_name params) name of
             None \<Rightarrow> None
           | Some True \<Rightarrow> Some (Some a)
           | Some False \<Rightarrow> find_in_list store rest name))"

definition find_parameters :: "params_state \<Rightarrow> cstring option \<Rightarrow> nat option option" where
  "find_parameters st name = find_in_list (p_store st) (p_list st) name"

definition claim_parameters :: "params_state \<Rightarrow> nat \<Rightarrow> params_state" where
  "claim_parameters st a = st\<lparr>p_list := remove1 a (p_list st)\<rparr>"

definition params_get :: "params_state \<Rightarrow> nat option \<Rightarrow> params_state" where
  "params_get st a =
     (case a of
        None \<Rightarrow> st
      | Some a \<Rightarrow> st\<lparr>p_store := (p_store st)(a :=
          map_option (\<lambda>p. p\<lparr>p_refcnt := ref_increment (p_refcnt p)\<rparr>) (p_store st a))\<rparr>)"

text \<open>\<open>free_parameters\<close>, the free method, releases the entries and the list itself.\<close>

definition params_put :: "params_state \<Rightarrow> nat option \<Rightarrow> params_state" where
  "params_put st a =
     (case a of
        None \<Rightarrow> st
      | Some a \<Rightarrow>
          (case p_store st a of
             None \<Rightarrow> st
           | Some p \<Rightarrow>
               (case ref_decrement (p_refcnt p) of
                  (count, True) \<Rightarrow> st\<lparr>p_store := (p_store st)(a := None)\<rparr>
                | (count, False) \<Rightarrow>
                    st\<lparr>p_store := (p_store st)(a \<mapsto> p\<lparr>p_refcnt := count\<rparr>)\<rparr>)))"

definition create_parameters ::
    "params_state \<Rightarrow> cstring option \<Rightarrow> nat option \<Rightarrow> (nat option \<times> params_state) option" where
  "create_parameters st name zalloc =
     (case find_parameters st name of
        None \<Rightarrow> None
      | Some found \<Rightarrow>
          (let st1 = (case found of
                        None \<Rightarrow> st
                      | Some a \<Rightarrow> params_put (claim_parameters st a) (Some a))
           in case zalloc of
                None \<Rightarrow> Some (None, st1)
              | Some a \<Rightarrow>
                  Some (Some a,
                    st1\<lparr>p_store := (p_store st1)(a \<mapsto>
                            \<lparr>p_refcnt = 0, p_name = name, p_entries = []\<rparr>),
                        p_list := p_list st1 @ [a]\<rparr>)))"

definition add_parameter ::
    "params_state \<Rightarrow> nat \<Rightarrow> cstring \<Rightarrow> cstring \<Rightarrow> u32 \<Rightarrow> bool \<Rightarrow> bool \<times> params_state" where
  "add_parameter st a k v f zalloc_ok =
     (if \<not> zalloc_ok then (False, st)
      else (True, st\<lparr>p_store := (p_store st)(a :=
              map_option (\<lambda>p. p\<lparr>p_entries :=
                 p_entries p @ [\<lparr>key = k, val = v, flags = f\<rparr>]\<rparr>) (p_store st a))\<rparr>))"

section \<open>Invariant\<close>

text \<open>
  Every registered list is allocated and owned by the registry alone (count zero), has a
  proper name, and no two registered lists share a name.
\<close>

definition good_name :: "cstring option \<Rightarrow> bool" where
  "good_name name \<longleftrightarrow> (\<exists>n. name = Some n \<and> is_cstring n \<and> length n \<le> SIZE_MAX)"

definition params_name :: "params_state \<Rightarrow> nat \<Rightarrow> cstring option" where
  "params_name st a = (case p_store st a of None \<Rightarrow> None | Some p \<Rightarrow> p_name p)"

definition params_inv :: "params_state \<Rightarrow> bool" where
  "params_inv st \<longleftrightarrow>
     distinct (map (params_name st) (p_list st)) \<and>
     (\<forall>a\<in>set (p_list st). \<exists>p. p_store st a = Some p \<and> p_refcnt p = 0 \<and> good_name (p_name p))"

section \<open>Lemmas\<close>

lemma strcmp_0_iff:
  assumes "is_cstring a" "is_cstring b" "length a \<le> SIZE_MAX" "length b \<le> SIZE_MAX"
  shows "strcmp a b = 0 \<longleftrightarrow> a = b"
  using assms by (simp add: strcmp_def strncmp_eq_0_iff)

lemma name_matches_good:
  "good_name p \<Longrightarrow> good_name n \<Longrightarrow> name_matches p n = Some (p = n)"
  by (auto simp: name_matches_def good_name_def strcmp_0_iff)

text \<open>In a good state the search returns the first list of that name, if there is one.\<close>

lemma find_in_list_good:
  assumes "\<forall>a\<in>set l. \<exists>p. store a = Some p \<and> good_name (p_name p)" and "good_name n"
  shows "find_in_list store l n = Some (List.find (\<lambda>a. \<exists>p. store a = Some p \<and> p_name p = n) l)"
  using assms
proof (induction l)
  case (Cons a l)
  then obtain p where "store a = Some p" "good_name (p_name p)" by auto
  with Cons show ?case by (auto simp: name_matches_good)
qed simp

lemma find_append: "List.find P (xs @ ys) = (case List.find P xs of None \<Rightarrow> List.find P ys | r \<Rightarrow> r)"
  by (induction xs) auto

lemma find_filter: "(\<And>x. x \<in> set xs \<Longrightarrow> P x \<Longrightarrow> Q x) \<Longrightarrow> List.find P (filter Q xs) = List.find P xs"
  by (induction xs) auto

lemma find_cong_set: "(\<And>x. x \<in> set xs \<Longrightarrow> P x = Q x) \<Longrightarrow> List.find P xs = List.find Q xs"
  by (induction xs) auto

lemma remove1_distinct_map:
  "distinct (map f l) \<Longrightarrow> a \<in> set l \<Longrightarrow> remove1 a l = filter (\<lambda>x. f x \<noteq> f a) l"
  by (induction l) (auto simp: image_iff intro!: filter_True [symmetric])

text \<open>The search in terms of the names of the registered lists.\<close>

lemma find_parameters_good:
  assumes "params_inv st" and "good_name n"
  shows "find_parameters st n = Some (List.find (\<lambda>a. params_name st a = n) (p_list st))"
proof -
  have "find_parameters st n =
      Some (List.find (\<lambda>a. \<exists>p. p_store st a = Some p \<and> p_name p = n) (p_list st))"
    unfolding find_parameters_def using assms
    by (intro find_in_list_good) (auto simp: params_inv_def)
  also have "List.find (\<lambda>a. \<exists>p. p_store st a = Some p \<and> p_name p = n) (p_list st) =
      List.find (\<lambda>a. params_name st a = n) (p_list st)"
    using assms by (intro find_cong_set) (auto simp: params_inv_def params_name_def)
  finally show ?thesis .
qed

definition params_forget :: "params_state \<Rightarrow> cstring option \<Rightarrow> params_state" where
  "params_forget st n =
     (case List.find (\<lambda>a. params_name st a = n) (p_list st) of
        None \<Rightarrow> st
      | Some a \<Rightarrow> params_put (claim_parameters st a) (Some a))"

text \<open>Destroying the list of a given name leaves the other registered lists alone.\<close>

lemma params_forget_list:
  assumes "params_inv st"
  shows "p_list (params_forget st n) = filter (\<lambda>a. params_name st a \<noteq> n) (p_list st)"
proof (cases "List.find (\<lambda>a. params_name st a = n) (p_list st)")
  case None
  then have "filter (\<lambda>a. params_name st a \<noteq> n) (p_list st) = p_list st"
    by (auto simp: find_None_iff intro!: filter_True)
  with None show ?thesis by (simp add: params_forget_def)
next
  case (Some a)
  then have "a \<in> set (p_list st)" "params_name st a = n"
    by (auto simp: find_Some_iff)
  with assms Some show ?thesis
    by (auto simp: params_forget_def params_put_def claim_parameters_def params_inv_def
        remove1_distinct_map [of "params_name st"] split: option.split prod.split bool.split)
qed

lemma params_forget_store:
  assumes "params_inv st" and "x \<in> set (p_list (params_forget st n))"
  shows "p_store (params_forget st n) x = p_store st x"
proof (cases "List.find (\<lambda>a. params_name st a = n) (p_list st)")
  case None
  then show ?thesis by (simp add: params_forget_def)
next
  case (Some a)
  then have a: "params_name st a = n" by (auto simp: find_Some_iff)
  have "params_name st x \<noteq> n" using assms(2) unfolding params_forget_list [OF assms(1)] by simp
  then have "x \<noteq> a" using a by auto
  with Some show ?thesis
    by (auto simp: params_forget_def params_put_def claim_parameters_def
        split: option.split prod.split bool.split)
qed

lemma params_forget_None:
  "params_inv st \<Longrightarrow> p_store st a = None \<Longrightarrow> p_store (params_forget st n) a = None"
  by (auto simp: params_forget_def params_put_def claim_parameters_def params_inv_def find_Some_iff
      ref_decrement_def split: option.split prod.split bool.split)

section \<open>Properties\<close>

text \<open>
  C30: creating a parameter list replaces any list of that name, is what the next search
  for the name returns, leaves the search for every other name alone and keeps the
  invariant of the registry.
\<close>

theorem create_parameters_find:
  assumes inv: "params_inv st" and n: "good_name n" and a: "p_store st a = None"
  shows "\<exists>st'. create_parameters st n (Some a) = Some (Some a, st') \<and> params_inv st' \<and>
    find_parameters st' n = Some (Some a) \<and>
    (\<forall>k. good_name k \<and> k \<noteq> n \<longrightarrow> find_parameters st' k = find_parameters st k)"
proof -
  let ?f = "params_forget st n"
  let ?st = "?f\<lparr>p_store := (p_store ?f)(a \<mapsto> \<lparr>p_refcnt = 0, p_name = n, p_entries = []\<rparr>),
      p_list := p_list ?f @ [a]\<rparr>"
  note l = params_forget_list [OF inv, of n] and s = params_forget_store [OF inv, of _ n]
  have fresh: "a \<notin> set (p_list st)" using inv a by (auto simp: params_inv_def)
  have name: "params_name ?st x = params_name st x" "params_name st x \<noteq> n"
    if "x \<in> set (p_list ?f)" for x
    using that s [OF that] fresh by (auto simp: l params_name_def)
  have name_a: "params_name ?st a = n" by (simp add: params_name_def)
  have eq: "map (params_name ?st) (p_list ?st) = map (params_name st) (p_list ?f) @ [n]"
    using name name_a by simp
  have "distinct (map (params_name st) (p_list ?f))"
    using inv by (simp add: l params_inv_def distinct_map_filter)
  moreover have "n \<notin> params_name st ` set (p_list ?f)" using name by auto
  ultimately have "distinct (map (params_name ?st) (p_list ?st))" unfolding eq by simp
  moreover have "\<exists>p. p_store ?st x = Some p \<and> p_refcnt p = 0 \<and> good_name (p_name p)"
    if "x \<in> set (p_list ?st)" for x
    using that inv n s by (auto simp: l params_inv_def)
  ultimately have inv': "params_inv ?st"
    unfolding params_inv_def by blast
  have "create_parameters st n (Some a) = Some (Some a, ?st)"
    using inv n by (simp add: create_parameters_def find_parameters_good params_forget_def Let_def)
  moreover have "List.find (\<lambda>x. params_name ?st x = n) (p_list ?st) = Some a"
  proof -
    have "List.find (\<lambda>x. params_name ?st x = n) (p_list ?f) = None"
      using name by (auto simp: find_None_iff)
    then show ?thesis using name_a by (simp add: find_append)
  qed
  moreover have "List.find (\<lambda>x. params_name ?st x = k) (p_list ?st) =
      List.find (\<lambda>x. params_name st x = k) (p_list st)" if "k \<noteq> n" for k
  proof -
    have "List.find (\<lambda>x. params_name ?st x = k) (p_list ?st) =
        List.find (\<lambda>x. params_name ?st x = k) (p_list ?f)"
      using that name_a by (auto simp: find_append split: option.split)
    also have "\<dots> = List.find (\<lambda>x. params_name st x = k) (p_list ?f)"
      using name by (intro find_cong_set) auto
    also have "\<dots> = List.find (\<lambda>x. params_name st x = k) (p_list st)"
      unfolding l using that by (intro find_filter) auto
    finally show ?thesis .
  qed
  ultimately show ?thesis
    using inv inv' n by (auto simp: find_parameters_good)
qed

theorem create_parameters_find_witness:
  "\<exists>st'. create_parameters \<lparr>p_store = Map.empty, p_list = []\<rparr> (Some (cs ''form'')) (Some 64) =
       Some (Some 64, st') \<and> find_parameters st' (Some (cs ''form'')) = Some (Some 64)"
proof -
  have "params_inv \<lparr>p_store = Map.empty, p_list = []\<rparr>" by (simp add: params_inv_def)
  moreover have "good_name (Some (cs ''form''))"
    by (simp add: good_name_def is_cstring_def SIZE_MAX_def)
  ultimately show ?thesis
    using create_parameters_find [of "\<lparr>p_store = Map.empty, p_list = []\<rparr>" "Some (cs ''form'')" 64]
    by auto
qed

text \<open>
  A registered anonymous list makes every later search for a name compare with the null
  name pointer: the run is undefined.
\<close>

lemma find_parameters_null_name:
  assumes "p_store st a = Some p" and "p_name p = None" and "p_list st = a # rest"
  shows "find_parameters st (Some n) = None"
  using assms by (simp add: find_parameters_def name_matches_def)

end
