(* ===== verification/Uri.thy ===== *)
theory Uri
  imports UriCodec Params
begin

text \<open>
  Uniform Resource Identifiers (\<open>core/uri.c\<close>, \<open>include/ipxe/uri.h\<close>, \<open>core/basename.c\<close>,
  \<open>core/cwuri.c\<close>, \<open>core/asprintf.c\<close>): parsing, formatting, duplication and resolution.

  A URI is a record of optional strings.  \<open>parse_uri\<close> cuts the fields out of one copy of the
  string by storing NULs, so that each field is the text between two cuts; the model takes
  the substrings.  Allocation is an argument \<open>alloc\<close>, telling for each size whether the
  allocator grants it; None as a result stands for a null pointer, and an outer None for a
  run that dereferences one (\<open>find_parameters\<close>).
\<close>

section \<open>Allocated strings\<close>

definition strndup :: "(nat \<Rightarrow> bool) \<Rightarrow> cstring \<Rightarrow> nat \<Rightarrow> cstring option" where
  "strndup alloc src n =
     (let len = strnlen src n in if alloc (len + 1) then Some (take len src) else None)"

definition strdup :: "(nat \<Rightarrow> bool) \<Rightarrow> cstring \<Rightarrow> cstring option" where
  "strdup alloc src = strndup alloc src SIZE_MAX"

definition asprintf :: "(nat \<Rightarrow> bool) \<Rightarrow> cstring \<Rightarrow> va list \<Rightarrow> cstring option option" where
  "asprintf alloc fmt args =
     (case vcprintf fmt args of
        None \<Rightarrow> None
      | Some out \<Rightarrow> Some (if alloc (length out + 1) then Some (until_nul out) else None))"

section \<open>URIs\<close>

record uri =
  u_refcnt :: int
  u_scheme :: "cstring option"
  u_opaque :: "cstring option"
  u_user :: "cstring option"
  u_password :: "cstring option"
  u_host :: "cstring option"
  u_port :: "cstring option"
  u_path :: "cstring option"
  u_epath :: "cstring option"
  u_equery :: "cstring option"
  u_efragment :: "cstring option"
  u_params :: "nat option"

definition zero_uri :: uri where
  "zero_uri = \<lparr>u_refcnt = 0, u_scheme = None, u_opaque = None, u_user = None, u_password = None,
     u_host = None, u_port = None, u_path = None, u_epath = None, u_equery = None,
     u_efragment = None, u_params = None\<rparr>"

definition sizeof_uri :: nat where
  "sizeof_uri = 104"

definition uri_field :: "uri \<Rightarrow> nat \<Rightarrow> cstring option" where
  "uri_field uri field =
     [u_scheme uri, u_opaque uri, u_user uri, u_password uri, u_host uri, u_port uri,
      u_path uri, u_epath uri, u_equery uri, u_efragment uri] ! field"

definition uri_is_absolute :: "uri \<Rightarrow> bool" where
  "uri_is_absolute uri = (u_scheme uri \<noteq> None)"

definition uri_has_opaque :: "uri \<Rightarrow> bool" where
  "uri_has_opaque uri = (case u_opaque uri of None \<Rightarrow> False | Some s \<Rightarrow> deref s \<noteq> 0)"

definition uri_has_path :: "uri \<Rightarrow> bool" where
  "uri_has_path uri = (case u_path uri of None \<Rightarrow> False | Some s \<Rightarrow> deref s \<noteq> 0)"

definition uri_has_absolute_path :: "uri \<Rightarrow> bool" where
  "uri_has_absolute_path uri = (case u_path uri of None \<Rightarrow> False | Some s \<Rightarrow> deref s = 47)"

definition uri_has_relative_path :: "uri \<Rightarrow> bool" where
  "uri_has_relative_path uri = (case u_path uri of None \<Rightarrow> False | Some s \<Rightarrow> deref s \<noteq> 47)"

definition uri_get :: "uri \<Rightarrow> uri" where
  "uri_get uri = uri\<lparr>u_refcnt := ref_increment (u_refcnt uri)\<rparr>"

text \<open>
  \<open>uri_put\<close>: None when the reference was the last one and \<open>uri_free\<close> released the URI and
  its reference to the parameter list.
\<close>

definition uri_put :: "params_state \<Rightarrow> uri option \<Rightarrow> params_state \<times> uri option" where
  "uri_put st uri =
     (case uri of
        None \<Rightarrow> (st, None)
      | Some uri \<Rightarrow>
          (case ref_decrement (u_refcnt uri) of
             (count, True) \<Rightarrow> (params_put st (u_params uri), None)
           | (count, False) \<Rightarrow> (st, Some (uri\<lparr>u_refcnt := count\<rparr>))))"

section \<open>Parsing\<close>

partial_function (option) strlen_at :: "mem \<Rightarrow> nat \<Rightarrow> nat \<Rightarrow> nat option" where
  "strlen_at m a n = (if m (a + n) = 0 then Some n else strlen_at m a (n + 1))"

definition uri_decode_inplace :: "mem \<Rightarrow> nat option \<Rightarrow> mem option" where
  "uri_decode_inplace m encoded =
     (case encoded of
        None \<Rightarrow> Some m
      | Some a \<Rightarrow>
          (case strlen_at m a 0 of
             None \<Rightarrow> None
           | Some len \<Rightarrow>
               (case uri_decode m a a len of
                  None \<Rightarrow> None
                | Some (m', len') \<Rightarrow> Some (m'(a + len' := 0)))))"

text \<open>What that leaves at the address, as a string.\<close>

definition decode_field :: "cstring \<Rightarrow> cstring" where
  "decode_field s = until_nul (uri_decoded s)"

text \<open>Cutting a string at the first occurrence of a character.\<close>

definition chop :: "cstring \<Rightarrow> int \<Rightarrow> cstring \<times> cstring option" where
  "chop s c =
     (case strchr s c of
        None \<Rightarrow> (s, None)
      | Some i \<Rightarrow> (take i s, Some (drop (i + 1) s)))"

definition parse_params ::
    "params_state \<Rightarrow> cstring \<Rightarrow> (cstring \<times> nat option \<times> params_state) option" where
  "parse_params st raw =
     (case strstr raw (cs ''##params'') of
        None \<Rightarrow> Some (raw, None, st)
      | Some i \<Rightarrow>
          (let tmp = drop (i + 8) raw
           in case find_parameters st (if tmp \<noteq> [] then Some (tl tmp) else None) of
                None \<Rightarrow> None
              | Some None \<Rightarrow> Some (take i raw, None, st)
              | Some (Some a) \<Rightarrow> Some (take i raw, Some a, claim_parameters st a)))"

text \<open>The index of the colon that ends a scheme, if the string starts with one.\<close>

fun scheme_end :: "cstring \<Rightarrow> nat option" where
  "scheme_end [] = None"
| "scheme_end (c # s) =
     (if isalpha (sint c) \<or> c = 45 \<or> c = 95 then map_option Suc (scheme_end s)
      else if c \<noteq> 58 then None
      else Some 0)"

definition parse_hostport :: "uri \<Rightarrow> cstring \<Rightarrow> uri" where
  "parse_hostport uri h =
     (case strrchr h 58 of
        Some i \<Rightarrow>
          if h ! (strlen h - 1) \<noteq> 93
          then uri\<lparr>u_host := Some (take i h), u_port := Some (drop (i + 1) h)\<rparr>
          else uri\<lparr>u_host := Some h\<rparr>
      | None \<Rightarrow> uri\<lparr>u_host := Some h\<rparr>)"

definition parse_authority :: "uri \<Rightarrow> cstring \<Rightarrow> uri" where
  "parse_authority uri authority =
     (case chop authority 64 of
        (userinfo, Some h) \<Rightarrow>
          (case chop userinfo 58 of
             (user, password) \<Rightarrow>
               parse_hostport (uri\<lparr>u_user := Some user, u_password := password\<rparr>) h)
      | (h, None) \<Rightarrow> parse_hostport uri h)"

definition parse_path :: "uri \<Rightarrow> cstring \<Rightarrow> uri" where
  "parse_path uri epath =
     (case chop epath 63 of
        (epath, equery) \<Rightarrow>
          (let uri = uri\<lparr>u_equery := equery\<rparr>
           in if epath = [] then uri
              else if u_scheme uri \<noteq> None \<and> strncmp epath (cs ''//'') 2 = 0
              then (let authority = drop 2 epath
                    in case strchr authority 47 of
                         Some i \<Rightarrow>
                           parse_authority
                             (uri\<lparr>u_epath := Some (drop i authority),
                                  u_path := Some (drop i authority)\<rparr>)
                             (take i authority)
                       | None \<Rightarrow> parse_authority uri authority)
              else uri\<lparr>u_epath := Some epath, u_path := Some epath\<rparr>))"

definition parse_scheme :: "uri \<Rightarrow> cstring \<Rightarrow> uri" where
  "parse_scheme uri raw =
     (case scheme_end raw of
        None \<Rightarrow> parse_path uri raw
      | Some i \<Rightarrow>
          (let uri = uri\<lparr>u_scheme := Some (take i raw)\<rparr>; tmp = drop (i + 1) raw
           in if deref tmp = 47 then parse_path uri tmp
              else uri\<lparr>u_opaque := Some tmp\<rparr>))"

text \<open>The fields before \<open>URI_EPATH\<close> are decoded in place.\<close>

definition decode_fields :: "uri \<Rightarrow> uri" where
  "decode_fields uri =
     uri\<lparr>u_scheme := map_option decode_field (u_scheme uri),
         u_opaque := map_option decode_field (u_opaque uri),
         u_user := map_option decode_field (u_user uri),
         u_password := map_option decode_field (u_password uri),
         u_host := map_option decode_field (u_host uri),
         u_port := map_option decode_field (u_port uri),
         u_path := map_option decode_field (u_path uri)\<rparr>"

definition parse_uri ::
    "(nat \<Rightarrow> bool) \<Rightarrow> params_state \<Rightarrow> cstring \<Rightarrow> (uri option \<times> params_state) option" where
  "parse_uri alloc st uri_string =
     (let raw_len = strlen uri_string + 1
      in if \<not> alloc (sizeof_uri + 2 * raw_len) then Some (None, st)
         else case parse_params st uri_string of
                None \<Rightarrow> None
              | Some (raw, params, st') \<Rightarrow>
                  (case chop raw 35 of
                     (raw, efragment) \<Rightarrow>
                       Some (Some (decode_fields (parse_scheme
                         (zero_uri\<lparr>u_params := params, u_efragment := efragment\<rparr>) raw)), st')))"

definition uri_port :: "uri option \<Rightarrow> u32 \<Rightarrow> u32" where
  "uri_port uri default_port =
     (case uri of
        None \<Rightarrow> default_port
      | Some uri \<Rightarrow>
          (case u_port uri of
             None \<Rightarrow> default_port
           | Some s \<Rightarrow> ucast (fst (strtoul s 0 :: u64 \<times> cstring))))"

section \<open>Formatting\<close>

definition uri_prefixes :: "nat \<Rightarrow> u8" where
  "uri_prefixes field =
     (if field = URI_PASSWORD \<or> field = URI_PORT then 58
      else if field = URI_EQUERY then 63
      else if field = URI_EFRAGMENT then 35
      else 0)"

definition format_uri_field ::
    "mem \<Rightarrow> uri \<Rightarrow> nat \<Rightarrow> nat \<Rightarrow> nat \<Rightarrow> nat \<Rightarrow> (mem \<times> nat) option" where
  "format_uri_field m uri field buf len used =
     (case uri_field uri field of
        None \<Rightarrow> Some (m, used)
      | Some s \<Rightarrow>
          if field = URI_PATH \<and> u_epath uri \<noteq> None then Some (m, used)
          else
            (let prefix = (if field = URI_HOST \<and> u_user uri \<noteq> None then 64 else uri_prefixes field)
             in case (if prefix \<noteq> 0
                      then vssnprintf m (buf + used) (int len - int used) (cs ''%c'')
                             [VaInt (signed prefix)]
                      else Some (m, 0)) of
                  None \<Rightarrow> None
                | Some (m, n) \<Rightarrow>
                    (let used = used + n
                     in case uri_encode_string m field s (buf + used) (int len - int used) of
                          None \<Rightarrow> None
                        | Some (m, n) \<Rightarrow>
                            (let used = used + n
                             in if field = URI_SCHEME
                                then (case vssnprintf m (buf + used) (int len - int used) (cs '':%s'')
                                             [VaStr (Some (if u_host uri \<noteq> None then cs ''//'' else []))] of
                                        None \<Rightarrow> None
                                      | Some (m, n) \<Rightarrow> Some (m, used + n))
                                else Some (m, used)))))"

fun format_uri_loop ::
    "mem \<Rightarrow> uri \<Rightarrow> nat list \<Rightarrow> nat \<Rightarrow> nat \<Rightarrow> nat \<Rightarrow> (mem \<times> nat) option" where
  "format_uri_loop m uri [] buf len used = Some (m, used)"
| "format_uri_loop m uri (field # fs) buf len used =
     (case format_uri_field m uri field buf len used of
        None \<Rightarrow> None
      | Some (m, used) \<Rightarrow> format_uri_loop m uri fs buf len used)"

definition format_uri :: "mem \<Rightarrow> uri option \<Rightarrow> nat \<Rightarrow> nat \<Rightarrow> (mem \<times> nat) option" where
  "format_uri m uri buf len =
     (let m = (if len \<noteq> 0 then m(buf := 0) else m)
      in case uri of
           None \<Rightarrow> Some (m, 0)
         | Some uri \<Rightarrow> format_uri_loop m uri [0..<URI_FIELDS] buf len 0)"

text \<open>\<open>format_uri_alloc\<close>: the argument is the result of \<open>malloc\<close> for the requested size.\<close>

definition format_uri_alloc ::
    "mem \<Rightarrow> uri option \<Rightarrow> (nat \<Rightarrow> nat option) \<Rightarrow> (mem \<times> nat option) option" where
  "format_uri_alloc m uri malloc =
     (case format_uri m uri 0 0 of
        None \<Rightarrow> None
      | Some (m, n) \<Rightarrow>
          (let len = n + 1
           in case malloc len of
                None \<Rightarrow> Some (m, None)
              | Some a \<Rightarrow>
                  (case format_uri m uri a len of
                     None \<Rightarrow> None
                   | Some (m', _) \<Rightarrow> Some (m', Some a))))"

section \<open>Duplication\<close>

text \<open>
  The fields are copied one after the other behind the structure; the result is the total
  length, the memory and the field pointers of the copy.  Without a destination only the
  length is calculated.
\<close>

fun uri_copy_loop ::
    "uri \<Rightarrow> nat list \<Rightarrow> bool \<Rightarrow> nat \<Rightarrow> nat \<Rightarrow> mem \<Rightarrow> nat \<times> mem \<times> (nat \<rightharpoonup> nat)" where
  "uri_copy_loop src [] dest len out m = (len, m, Map.empty)"
| "uri_copy_loop src (field # fs) dest len out m =
     (case uri_field src field of
        None \<Rightarrow> uri_copy_loop src fs dest len out m
      | Some s \<Rightarrow>
          (let field_len = strlen s + 1
           in if dest
              then (case uri_copy_loop src fs dest (len + field_len) (out + field_len)
                           (mem_write m out (take field_len (s @ [0]))) of
                      (len', m', ptrs) \<Rightarrow> (len', m', ptrs(field \<mapsto> out)))
              else uri_copy_loop src fs dest (len + field_len) out m))"

definition uri_copy_fields :: "uri \<Rightarrow> nat option \<Rightarrow> mem \<Rightarrow> nat \<times> mem \<times> (nat \<rightharpoonup> nat)" where
  "uri_copy_fields src dest m =
     (let len = sizeof_uri
      in case dest of
           None \<Rightarrow> uri_copy_loop src [0..<URI_FIELDS] False len 0 m
         | Some a \<Rightarrow> uri_copy_loop src [0..<URI_FIELDS] True len (a + len) m)"

text \<open>The copy as a value: the same strings, a fresh reference count.\<close>

definition uri_dup :: "(nat \<Rightarrow> bool) \<Rightarrow> params_state \<Rightarrow> uri \<Rightarrow> uri option \<times> params_state" where
  "uri_dup alloc st uri =
     (let len = fst (uri_copy_fields uri None (\<lambda>_. 0))
      in if \<not> alloc len then (None, st)
         else (Some (uri\<lparr>u_refcnt := 0\<rparr>), params_get st (u_params uri)))"

section \<open>Paths\<close>

definition basename :: "cstring \<Rightarrow> cstring" where
  "basename path = (case strrchr path 47 of Some i \<Rightarrow> drop (i + 1) path | None \<Rightarrow> path)"

definition dirname :: "cstring \<Rightarrow> cstring" where
  "dirname path =
     (case strrchr path 47 of
        Some i \<Rightarrow> if i = 0 then cs ''/'' else take i path
      | None \<Rightarrow> cs ''.'')"

fun resolve_dots :: "cstring \<Rightarrow> cstring \<Rightarrow> cstring \<times> cstring" where
  "resolve_dots base_tmp (c # r) =
     (if c \<noteq> 46 then (base_tmp, c # r)
      else
        (case r of
           [] \<Rightarrow> (base_tmp, [])
         | d # r' \<Rightarrow>
             if d = 47 then resolve_dots base_tmp r'
             else if d = 46 then
               (case r' of
                  [] \<Rightarrow> (dirname base_tmp, [])
                | e # r'' \<Rightarrow>
                    if e = 47 then resolve_dots (dirname base_tmp) r''
                    else (base_tmp, c # r))
             else (base_tmp, c # r)))"
| "resolve_dots base_tmp [] = (base_tmp, [])"

definition resolve_path ::
    "(nat \<Rightarrow> bool) \<Rightarrow> cstring \<Rightarrow> cstring \<Rightarrow> cstring option option" where
  "resolve_path alloc base_path relative_path =
     (if deref relative_path = 47 then Some (strdup alloc relative_path)
      else
        (case strdup alloc base_path of
           None \<Rightarrow> Some None
         | Some base_copy \<Rightarrow>
             (case resolve_dots (dirname base_copy) relative_path of
                (base_tmp, relative_path) \<Rightarrow>
                  asprintf alloc (cs ''%s%s%s'')
                    [VaStr (Some base_tmp),
                     VaStr (Some (if base_tmp ! (strlen base_tmp - 1) = 47 then [] else cs ''/'')),
                     VaStr (Some relative_path)])))"

section \<open>Resolution\<close>

definition resolve_uri ::
    "(nat \<Rightarrow> bool) \<Rightarrow> params_state \<Rightarrow> uri option \<Rightarrow> uri \<Rightarrow> (uri option \<times> params_state) option" where
  "resolve_uri alloc st base_uri relative_uri =
     (case (if uri_is_absolute relative_uri then None else base_uri) of
        None \<Rightarrow> Some (Some (uri_get relative_uri), st)
      | Some base \<Rightarrow>
          (case u_epath relative_uri of
             Some epath \<Rightarrow>
               (case resolve_path alloc (case u_epath base of Some p \<Rightarrow> p | None \<Rightarrow> cs ''/'') epath of
                  None \<Rightarrow> None
                | Some None \<Rightarrow> Some (None, st)
                | Some (Some tmp_epath) \<Rightarrow>
                    (case strdup alloc tmp_epath of
                       None \<Rightarrow> Some (None, st)
                     | Some tmp_path \<Rightarrow>
                         Some (uri_dup alloc st
                           (base\<lparr>u_epath := Some tmp_epath,
                                 u_path := Some (decode_field tmp_path),
                                 u_equery := u_equery relative_uri,
                                 u_efragment := u_efragment relative_uri,
                                 u_params := u_params relative_uri\<rparr>))))
           | None \<Rightarrow>
               Some (uri_dup alloc st
                 (if u_equery relative_uri \<noteq> None
                  then base\<lparr>u_equery := u_equery relative_uri,
                            u_efragment := u_efragment relative_uri,
                            u_params := u_params relative_uri\<rparr>
                  else if u_efragment relative_uri \<noteq> None
                  then base\<lparr>u_efragment := u_efragment relative_uri,
                            u_params := u_params relative_uri\<rparr>
                  else if u_params relative_uri \<noteq> None
                  then base\<lparr>u_params := u_params relative_uri\<rparr>
                  else base))))"

text \<open>
  \<open>tftp_uri\<close>: the text of the server address is the result of \<open>sock_ntoa\<close> (None if the
  address family has no converter), the port is in host byte order.
\<close>

definition tftp_uri ::
    "(nat \<Rightarrow> bool) \<Rightarrow> params_state \<Rightarrow> cstring option \<Rightarrow> u16 \<Rightarrow> cstring \<Rightarrow>
       (uri option \<times> params_state) option" where
  "tftp_uri alloc st ntoa st_port filename =
     (case ntoa of
        None \<Rightarrow> Some (None, st)
      | Some host \<Rightarrow>
          (let tmp = zero_uri\<lparr>u_scheme := Some (cs ''tftp''), u_host := Some host\<rparr>
           in case (if st_port \<noteq> 0
                    then (case vsnprintf (\<lambda>_. 0) 0 6 (cs ''%d'') [VaInt (ucast st_port)] of
                            None \<Rightarrow> None
                          | Some (buf, _) \<Rightarrow> Some (Some (until_nul (map buf [0..<6]))))
                    else Some None) of
                None \<Rightarrow> None
              | Some port \<Rightarrow>
                  (case asprintf alloc (cs ''/%s'') [VaStr (Some filename)] of
                     None \<Rightarrow> None
                   | Some None \<Rightarrow> Some (None, st)
                   | Some (Some path) \<Rightarrow>
                       Some (uri_dup alloc st
                         (tmp\<lparr>u_port := port, u_path := Some path, u_epath := Some path\<rparr>)))))"

definition pxe_uri ::
    "(nat \<Rightarrow> bool) \<Rightarrow> params_state \<Rightarrow> cstring option \<Rightarrow> u16 \<Rightarrow> cstring option \<Rightarrow>
       (uri option \<times> params_state) option" where
  "pxe_uri alloc st ntoa st_port filename =
     (case filename of
        None \<Rightarrow> Some (None, st)
      | Some filename \<Rightarrow>
          if deref filename = 0 then Some (None, st)
          else
            (case parse_uri alloc st filename of
               None \<Rightarrow> None
             | Some (uri, st) \<Rightarrow>
                 if (case uri of
                       None \<Rightarrow> False
                     | Some u \<Rightarrow> uri_is_absolute u \<and> u_opaque u = None)
                 then Some (uri, st)
                 else tftp_uri alloc (fst (uri_put st uri)) ntoa st_port filename))"

text \<open>The current working URI; \<open>churi\<close> resolves against it and releases the old one.\<close>

definition churi ::
    "(nat \<Rightarrow> bool) \<Rightarrow> params_state \<Rightarrow> uri option \<Rightarrow> uri option \<Rightarrow>
       (uri option \<times> params_state) option" where
  "churi alloc st cwuri uri =
     (case (case uri of
              None \<Rightarrow> Some (None, st)
            | Some u \<Rightarrow> resolve_uri alloc st cwuri u) of
        None \<Rightarrow> None
      | Some (new_uri, st) \<Rightarrow> Some (new_uri, fst (uri_put st cwuri)))"

section \<open>Decoding in place\<close>

lemma strlen_at_eq:
  assumes "cstring_at m a s" and "n \<le> length s"
  shows "strlen_at m a n = Some (length s)"
  using assms(2)
proof (induction "length s - n" arbitrary: n)
  case 0
  then show ?case using assms(1) by (simp add: strlen_at.simps cstring_at_def)
next
  case (Suc k)
  then have "m (a + n) = s ! n" "s ! n \<noteq> 0"
    using assms(1) by (auto simp: cstring_at_def is_cstring_def in_set_conv_nth)
  with Suc show ?case by (subst strlen_at.simps) simp
qed

lemma until_nul_terminated:
  "\<lbrakk>\<forall>i<length d. m (a + i) = d ! i; m (a + length d) = 0\<rbrakk> \<Longrightarrow> cstring_at m a (until_nul d)"
proof (induction d arbitrary: a)
  case Nil
  then show ?case by (simp add: until_nul_def cstring_at_simps)
next
  case (Cons c d)
  have "\<forall>i<length d. m (a + 1 + i) = d ! i" using Cons.prems(1) by (auto dest: spec [of _ "Suc _"])
  with Cons have "cstring_at m (a + 1) (until_nul d)" by simp
  then show ?case
    using Cons.prems(1) by (auto simp: until_nul_def cstring_at_simps dest: spec [of _ 0])
qed

text \<open>In-place decoding leaves the decoded field, cut at its first NUL, in its place.\<close>

lemma uri_decode_inplace_at:
  assumes "cstring_at m a s"
  obtains m' where "uri_decode_inplace m (Some a) = Some m'" and "cstring_at m' a (decode_field s)"
    and "\<And>x. x < a \<or> a + length s < x \<Longrightarrow> m' x = m x"
proof -
  let ?d = "uri_decoded s"
  let ?m = "cputchars m a (length s) 0 ?d"
  let ?m' = "?m(a + length ?d := 0)"
  have d: "length ?d \<le> length s" by (rule uri_decoded_length)
  have "uri_decode m a a (length s) = Some (?m, length ?d)"
    unfolding uri_decode_def using uri_decode_loop_eq [OF assms, of a 0 "length s"] by simp
  then have "uri_decode_inplace m (Some a) = Some ?m'"
    by (simp add: uri_decode_inplace_def strlen_at_eq [OF assms])
  moreover have "cstring_at ?m' a (decode_field s)"
    unfolding decode_field_def using d by (intro until_nul_terminated) (auto simp: cputchars_apply)
  moreover have "?m' x = m x" if "x < a \<or> a + length s < x" for x
    using that d by (auto simp: cputchars_apply)
  ultimately show ?thesis by (rule that)
qed

section \<open>The text of a URI\<close>

definition uri_ok :: "uri \<Rightarrow> bool" where
  "uri_ok uri \<longleftrightarrow>
     (\<forall>field<URI_FIELDS. \<forall>s. uri_field uri field = Some s \<longrightarrow> is_cstring s \<and> length s \<le> SIZE_MAX)"

definition field_prefix :: "uri \<Rightarrow> nat \<Rightarrow> u8 list" where
  "field_prefix uri field =
     (let p = (if field = URI_HOST \<and> u_user uri \<noteq> None then 64 else uri_prefixes field)
      in if p \<noteq> 0 then [p] else [])"

definition field_suffix :: "uri \<Rightarrow> nat \<Rightarrow> u8 list" where
  "field_suffix uri field =
     (if field = URI_SCHEME then 58 # (if u_host uri \<noteq> None then cs ''//'' else []) else [])"

definition field_text :: "uri \<Rightarrow> nat \<Rightarrow> u8 list" where
  "field_text uri field =
     (case uri_field uri field of
        None \<Rightarrow> []
      | Some s \<Rightarrow>
          if field = URI_PATH \<and> u_epath uri \<noteq> None then []
          else field_prefix uri field @ uri_encoded field s @ field_suffix uri field)"

definition uri_text :: "uri \<Rightarrow> u8 list" where
  "uri_text uri = concat (map (field_text uri) [0..<URI_FIELDS])"

lemma vssnprintf_snwrite:
  assumes "vcprintf fmt args = Some out"
  shows "vssnprintf (snwrite m buf len o0) (buf + length o0) (int len - int (length o0)) fmt args =
    Some (snwrite m buf len (o0 @ out), length out)"
  using vssnprintf_eq [OF assms] snwrite_append by simp

lemma uri_encode_string_snwrite:
  assumes "is_cstring s" "length s \<le> SIZE_MAX"
  shows "uri_encode_string (snwrite m buf len o0) field s (buf + length o0) (int len - int (length o0)) =
    Some (snwrite m buf len (o0 @ uri_encoded field s), length (uri_encoded field s))"
  using uri_encode_string_eq [OF assms] snwrite_append by simp

lemma format_uri_field_eq:
  assumes "uri_ok uri" and "field < URI_FIELDS"
  shows "format_uri_field (snwrite m buf len o0) uri field buf len (length o0) =
    Some (snwrite m buf len (o0 @ field_text uri field), length (o0 @ field_text uri field))"
proof (cases "uri_field uri field")
  case None
  then show ?thesis by (simp add: format_uri_field_def field_text_def)
next
  case (Some s)
  have s: "is_cstring s" "length s \<le> SIZE_MAX" using assms Some by (auto simp: uri_ok_def)
  let ?p = "if field = URI_HOST \<and> u_user uri \<noteq> None then 64 else uri_prefixes field"
  let ?o1 = "o0 @ field_prefix uri field"
  let ?o2 = "?o1 @ uri_encoded field s"
  have 1: "(if ?p \<noteq> 0
      then vssnprintf (snwrite m buf len o0) (buf + length o0) (int len - int (length o0)) (cs ''%c'')
             [VaInt (signed ?p)]
      else Some (snwrite m buf len o0, 0)) =
    Some (snwrite m buf len ?o1, length (field_prefix uri field))"
  proof -
    have "vcprintf (cs ''%c'') [VaInt (signed ?p)] = Some [?p]"
      by (simp add: printf_eval ucast_scast_u8)
    from vssnprintf_snwrite [OF this] show ?thesis by (simp add: field_prefix_def Let_def)
  qed
  have 2: "uri_encode_string (snwrite m buf len ?o1) field s (buf + length ?o1) (int len - int (length ?o1)) =
      Some (snwrite m buf len ?o2, length (uri_encoded field s))"
    by (rule uri_encode_string_snwrite [OF s])
  have 3: "vssnprintf (snwrite m buf len ?o2) (buf + length ?o2) (int len - int (length ?o2)) (cs '':%s'')
        [VaStr (Some (if u_host uri \<noteq> None then cs ''//'' else []))] =
      Some (snwrite m buf len (?o2 @ field_suffix uri URI_SCHEME), length (field_suffix uri URI_SCHEME))"
  proof -
    have "vcprintf (cs '':%s'') [VaStr (Some (if u_host uri \<noteq> None then cs ''//'' else []))] =
        Some (field_suffix uri URI_SCHEME)"
      by (simp add: printf_eval field_suffix_def is_cstring_def)
    then show ?thesis by (rule vssnprintf_snwrite)
  qed
  have l: "length o0 + length (field_prefix uri field) = length ?o1"
    "length ?o1 + length (uri_encoded field s) = length ?o2" by simp_all
  have "format_uri_field (snwrite m buf len o0) uri field buf len (length o0) =
      (if field = URI_PATH \<and> u_epath uri \<noteq> None then Some (snwrite m buf len o0, length o0)
       else if field = URI_SCHEME
       then Some (snwrite m buf len (?o2 @ field_suffix uri URI_SCHEME),
              length ?o2 + length (field_suffix uri URI_SCHEME))
       else Some (snwrite m buf len ?o2, length ?o2))"
    unfolding format_uri_field_def Some option.case Let_def 1 prod.case l 2 3 ..
  then show ?thesis
    using Some by (auto simp: field_text_def field_suffix_def)
qed

lemma format_uri_loop_eq:
  assumes "uri_ok uri" and "\<forall>field\<in>set fs. field < URI_FIELDS"
  shows "format_uri_loop (snwrite m buf len o0) uri fs buf len (length o0) =
    Some (snwrite m buf len (o0 @ concat (map (field_text uri) fs)),
          length (o0 @ concat (map (field_text uri) fs)))"
  using assms(2)
proof (induction fs arbitrary: o0)
  case Nil
  then show ?case by simp
next
  case (Cons field fs)
  then have "format_uri_loop (snwrite m buf len o0) uri (field # fs) buf len (length o0) =
      format_uri_loop (snwrite m buf len (o0 @ field_text uri field)) uri fs buf len
        (length (o0 @ field_text uri field))"
    using format_uri_field_eq [OF assms(1), of field m buf len o0] by simp
  with Cons.IH [of "o0 @ field_text uri field"] Cons.prems show ?case by simp
qed

lemma format_uri_eq:
  assumes "uri_ok uri"
  shows "format_uri m (Some uri) buf len = Some (snwrite m buf len (uri_text uri), length (uri_text uri))"
  using format_uri_loop_eq [OF assms, of "[0..<URI_FIELDS]" m buf len "[]"]
  by (simp add: format_uri_def uri_text_def snwrite_Nil Let_def)

section \<open>Duplicating the fields\<close>

lemma cstring_at_mem_write: "is_cstring s \<Longrightarrow> cstring_at (mem_write m a (s @ [0])) a s"
  by (simp add: cstring_at_def mem_write_def nth_append)

text \<open>
  Each pointer of the copy is to a copy of the field; the copies are laid out between the
  given address and the end of the area, and nothing else is written.
\<close>

lemma uri_copy_loop_copies:
  assumes "\<forall>field\<in>set fs. \<forall>s. uri_field src field = Some s \<longrightarrow> is_cstring s \<and> length s \<le> SIZE_MAX"
    and "distinct fs" and "uri_copy_loop src fs True len out m = (len', m', ptrs)"
  shows "len \<le> len' \<and> (\<forall>x. x < out \<or> out + (len' - len) \<le> x \<longrightarrow> m' x = m x) \<and>
    dom ptrs \<subseteq> set fs \<and>
    (\<forall>field\<in>set fs. case uri_field src field of
       None \<Rightarrow> ptrs field = None
     | Some s \<Rightarrow> \<exists>a. ptrs field = Some a \<and> cstring_at m' a s \<and>
                   out \<le> a \<and> a + length s < out + (len' - len))"
  using assms
proof (induction fs arbitrary: len out m len' m' ptrs)
  case Nil
  then show ?case by simp
next
  case (Cons f fs)
  show ?case
  proof (cases "uri_field src f")
    case None
    with Cons.prems have r: "uri_copy_loop src fs True len out m = (len', m', ptrs)" by simp
    have "f \<notin> set fs" using Cons.prems by simp
    with None Cons.IH [OF _ _ r] Cons.prems show ?thesis by (auto simp: domIff)
  next
    case (Some s)
    have s: "is_cstring s" "length s \<le> SIZE_MAX" "take (length s + 1) (s @ [0]) = s @ [0]"
      using Cons.prems Some by auto
    let ?n = "length s + 1" and ?m = "mem_write m out (s @ [0])"
    obtain ptrs0 where r: "uri_copy_loop src fs True (len + ?n) (out + ?n) ?m = (len', m', ptrs0)"
      and ptrs: "ptrs = ptrs0(f \<mapsto> out)"
      using Cons.prems(3) Some s by (auto simp: strlen_eq Let_def split: prod.splits)
    have IH: "len + ?n \<le> len'" "\<And>x. x < out + ?n \<or> out + ?n + (len' - (len + ?n)) \<le> x \<Longrightarrow> m' x = ?m x"
      "dom ptrs0 \<subseteq> set fs"
      "\<And>field. field \<in> set fs \<Longrightarrow> case uri_field src field of
         None \<Rightarrow> ptrs0 field = None
       | Some s \<Rightarrow> \<exists>a. ptrs0 field = Some a \<and> cstring_at m' a s \<and> out + ?n \<le> a \<and>
                     a + length s < out + ?n + (len' - (len + ?n))"
      using Cons.IH [OF _ _ r] Cons.prems by auto
    have "cstring_at m' out s"
      by (rule cstring_at_cong [OF cstring_at_mem_write [OF s(1), of m out]]) (auto simp: IH(2))
    moreover have "m' x = m x" if "x < out \<or> out + (len' - len) \<le> x" for x
    proof -
      have "x < out + ?n \<or> out + ?n + (len' - (len + ?n)) \<le> x" "x < out \<or> out + length (s @ [0]) \<le> x"
        using that IH(1) by auto
      then show ?thesis by (simp only: IH(2) mem_write_outside)
    qed
    moreover have "f \<notin> set fs" using Cons.prems by simp
    ultimately show ?thesis
      using IH(1,3) IH(4) Some by (fastforce simp: ptrs split: option.splits)
  qed
qed

lemma uri_copy_loop_len:
  "fst (uri_copy_loop src fs True len out m) = fst (uri_copy_loop src fs False len out' m')"
  by (induction fs arbitrary: len out m out' m')
    (simp_all add: Let_def case_prod_beta split: option.split)

end
