(* ===== verification/UriRoundtrip.thy ===== *)
theory UriRoundtrip
  imports Uri
begin

text \<open>
  Parsing inverts formatting: the text of a well-formed hierarchical URI with an authority
  (scheme, host, and optionally user, password, port, path, query and fragment) parses back
  to the URI, escapes and IPv6 literals included; and the properties of formatting,
  duplication and path resolution.
\<close>

section \<open>Characters of encoded fields\<close>

lemma hex_digit_in: "hex_digit n \<in> set (cs ''0123456789ABCDEF'')"
proof -
  have "unat (n AND 0xf) < length (cs ''0123456789ABCDEF'')" by (simp add: unat_and_0xf)
  then show ?thesis unfolding hex_digit_def by (rule nth_mem)
qed

lemma uri_encoded_char_set:
  assumes "is_ascii c" and "d \<in> set (uri_encoded_char field c)"
  shows "d = 37 \<or> d \<in> set (cs ''0123456789ABCDEF'') \<or> d = c \<and> \<not> uri_character_escaped c field"
proof (cases "uri_character_escaped c field")
  case True
  have "ucast (signed c :: u32) = (ucast c :: u64)" using assms(1) by (simp add: signed_ascii ucast_ucast_up)
  then have "format_hex (ucast (signed c :: u32)) 2 ZPAD = [hex_digit (drop_bit 4 (ucast c)), hex_digit (ucast c)]"
    using format_hex_u8 [of 0 0 c] by simp
  with True assms(2) hex_digit_in show ?thesis by (auto simp: uri_encoded_char_def simp del: cs_Cons)
next
  case False
  with assms(2) show ?thesis by (simp add: uri_encoded_char_def)
qed

lemma uri_encoded_set:
  assumes "\<forall>c\<in>set s. is_ascii c" and "d \<in> set (uri_encoded field s)"
  shows "d = 37 \<or> d \<in> set (cs ''0123456789ABCDEF'') \<or> d \<in> set s \<and> \<not> uri_character_escaped d field"
  using assms uri_encoded_char_set unfolding uri_encoded_def by fastforce

text \<open>The characters that mean something to the parser: number sign, slash, colon, question mark, at.\<close>

definition delimiters :: "u8 list" where
  "delimiters = [35, 47, 58, 63, 64]"

lemma uri_encoded_no_delimiter:
  assumes "\<forall>c\<in>set s. is_ascii c" and "d \<in> set delimiters" and "uri_character_escaped d field"
  shows "d \<notin> set (uri_encoded field s)"
  using uri_encoded_set [OF assms(1), of d field] assms(2,3) by (auto simp: delimiters_def)

lemma delimiters_escaped:
  "list_all (\<lambda>d. uri_character_escaped d URI_USER \<and> uri_character_escaped d URI_PASSWORD \<and>
     uri_character_escaped d URI_PORT \<and> (d \<noteq> 58 \<longrightarrow> uri_character_escaped d URI_HOST)) delimiters"
  by code_simp

lemma uri_encoded_verbatim:
  "(\<And>c. c \<in> set s \<Longrightarrow> \<not> uri_character_escaped c field) \<Longrightarrow> uri_encoded field s = s"
  by (induction s) (auto simp: uri_encoded_def uri_encoded_char_def)

lemma uri_encoded_nonempty: "s \<noteq> [] \<Longrightarrow> uri_encoded field s \<noteq> []"
  by (cases s) (auto simp: uri_encoded_def uri_encoded_char_def)

lemma uri_encoded_last:
  assumes "\<forall>c\<in>set s. is_ascii c" and "s \<noteq> []" and "\<not> uri_character_escaped 93 field"
  shows "last (uri_encoded field s) = 93 \<longleftrightarrow> last s = 93"
proof -
  obtain t c where s: "s = t @ [c]" using assms(2) by (metis append_butlast_last_id)
  have ne: "uri_encoded_char field c \<noteq> []" by (simp add: uri_encoded_char_def)
  then have l: "last (uri_encoded field s) = last (uri_encoded_char field c)"
    by (simp add: s uri_encoded_def)
  show ?thesis
  proof (cases "c = 93")
    case True
    then show ?thesis using assms(3) l by (simp add: s uri_encoded_char_def)
  next
    case False
    have "last (uri_encoded_char field c) \<noteq> 93"
      using uri_encoded_char_set [of c "last (uri_encoded_char field c)" field] assms(1) ne False s
      by (auto dest!: last_in_set)
    with False l show ?thesis by (simp add: s)
  qed
qed

lemma decode_field_encoded:
  assumes "field < URI_EPATH" and "\<forall>c\<in>set s. is_ascii c" and "is_cstring s"
  shows "decode_field (uri_encoded field s) = s"
  using uri_decoded_encoded [OF assms(1,2), of "[]"] assms(3)
  by (auto simp: decode_field_def until_nul_def takeWhile_eq_all_conv is_cstring_def)

section \<open>Cutting strings\<close>

lemma in_set_tl: "x \<in> set (tl a) \<Longrightarrow> x \<in> set a"
  by (cases a) auto

lemma chop_at: "c \<notin> set a \<Longrightarrow> k = uint c \<Longrightarrow> chop (a @ c # b) k = (a, Some b)"
proof -
  assume "c \<notin> set a" "k = uint c"
  then have "strchr (a @ c # b) k = Some (length a)" by (simp add: strchr_Some_iff)
  then show ?thesis by (simp add: chop_def)
qed

lemma chop_none: "c \<notin> set a \<Longrightarrow> c \<noteq> 0 \<Longrightarrow> k = uint c \<Longrightarrow> chop a k = (a, None)"
  using strchr_None_iff [of a c] by (simp add: chop_def)

lemma scheme_end_at:
  "\<forall>c\<in>set s. isalpha (sint c) \<or> c = 45 \<or> c = 95 \<Longrightarrow> scheme_end (s @ 58 # rest) = Some (length s)"
proof (induction s)
  case Nil
  have "\<not> isalpha (sint (58 :: u8))" by code_simp
  then show ?case by simp
qed simp

lemma strrchr_at: "c \<notin> set b \<Longrightarrow> k = uint c \<Longrightarrow> strrchr (a @ c # b) k = Some (length a)"
proof -
  assume "c \<notin> set b" and k: "k = uint c"
  then have "b ! (j - Suc (length a)) \<noteq> c" if "length a < j" "j < length (a @ c # b)" for j
    using that nth_mem [of "j - Suc (length a)" b] by auto
  then show ?thesis unfolding k strrchr_Some_iff by (auto simp: nth_append nth_Cons')
qed

lemma strrchr_none: "c \<notin> set a \<Longrightarrow> k = uint c \<Longrightarrow> strrchr a k = None"
  by (simp add: strrchr_None_iff)

lemma parse_hostport_host:
  assumes "58 \<notin> set h \<or> h \<noteq> [] \<and> last h = 93" and "is_cstring h" and "length h \<le> SIZE_MAX"
  shows "parse_hostport uri h = uri\<lparr>u_host := Some h\<rparr>"
proof (cases "58 \<in> set h")
  case True
  then have "h ! (strlen h - 1) = 93"
    using assms by (auto simp: strlen_eq last_conv_nth)
  then show ?thesis by (simp add: parse_hostport_def split: option.split)
next
  case False
  then show ?thesis by (simp add: parse_hostport_def strrchr_none)
qed

lemma parse_hostport_port:
  assumes "58 \<notin> set p" and "p = [] \<or> last p \<noteq> 93"
    and "is_cstring (h @ 58 # p)" and "length (h @ 58 # p) \<le> SIZE_MAX"
  shows "parse_hostport uri (h @ 58 # p) = uri\<lparr>u_host := Some h, u_port := Some p\<rparr>"
proof -
  have "(h @ 58 # p) ! (strlen (h @ 58 # p) - 1) = last (h @ 58 # p)"
    unfolding strlen_eq [OF assms(3,4)] by (rule last_conv_nth [symmetric]) simp
  also have "\<dots> \<noteq> 93" using assms(2) by auto
  finally show ?thesis using assms(1) by (simp add: parse_hostport_def strrchr_at)
qed

section \<open>Well-formed hierarchical URIs\<close>

text \<open>Text that is formatted unchanged although it is not escaped again: printable, without spaces.\<close>

definition plain_text :: "cstring \<Rightarrow> bool" where
  "plain_text s \<longleftrightarrow> (\<forall>c\<in>set s. isprint (sint c) \<and> c \<noteq> 32)"

definition ascii_text :: "cstring option \<Rightarrow> bool" where
  "ascii_text f \<longleftrightarrow> (\<forall>s. f = Some s \<longrightarrow> is_cstring s \<and> (\<forall>c\<in>set s. is_ascii c))"

definition uri_wellformed :: "uri \<Rightarrow> bool" where
  "uri_wellformed uri \<longleftrightarrow>
     u_refcnt uri = 0 \<and> u_params uri = None \<and> u_opaque uri = None \<and>
     length (uri_text uri) \<le> SIZE_MAX \<and>
     (\<exists>s. u_scheme uri = Some s \<and> (\<forall>c\<in>set s. isalpha (sint c) \<or> c = 45 \<or> c = 95)) \<and>
     ascii_text (u_user uri) \<and> ascii_text (u_password uri) \<and> ascii_text (u_host uri) \<and>
     ascii_text (u_port uri) \<and>
     (u_password uri \<noteq> None \<longrightarrow> u_user uri \<noteq> None) \<and>
     (\<exists>h. u_host uri = Some h \<and>
        (case u_port uri of
           None \<Rightarrow> 58 \<notin> set h \<or> h \<noteq> [] \<and> last h = 93
         | Some p \<Rightarrow> p = [] \<or> last p \<noteq> 93)) \<and>
     (case u_epath uri of
        None \<Rightarrow> u_path uri = None
      | Some e \<Rightarrow> deref e = 47 \<and> plain_text e \<and> 35 \<notin> set e \<and> 63 \<notin> set e \<and>
                 u_path uri = Some (decode_field e)) \<and>
     (\<forall>q. u_equery uri = Some q \<longrightarrow> plain_text q \<and> 35 \<notin> set q) \<and>
     (\<forall>f. u_efragment uri = Some f \<longrightarrow>
        plain_text f \<and> strstr (35 # f) (cs ''##params'') = None)"

definition opt_text :: "u8 \<Rightarrow> cstring option \<Rightarrow> cstring" where
  "opt_text p f = (case f of None \<Rightarrow> [] | Some s \<Rightarrow> p # s)"

definition hostport_text :: "cstring \<Rightarrow> cstring option \<Rightarrow> cstring" where
  "hostport_text h p = uri_encoded URI_HOST h @ opt_text 58 (map_option (uri_encoded URI_PORT) p)"

definition authority_text :: "uri \<Rightarrow> cstring \<Rightarrow> cstring" where
  "authority_text uri hp =
     (case u_user uri of
        None \<Rightarrow> hp
      | Some u \<Rightarrow> uri_encoded URI_USER u @
                  opt_text 58 (map_option (uri_encoded URI_PASSWORD) (u_password uri)) @ 64 # hp)"

lemma plain_not_escaped: "plain_text s \<Longrightarrow> field \<ge> URI_EPATH \<Longrightarrow> uri_encoded field s = s"
  by (rule uri_encoded_verbatim) (auto simp: plain_text_def uri_character_escaped_def)

lemma scheme_char_plain: "isalpha (sint c) \<or> c = 45 \<or> c = 95 \<Longrightarrow> \<not> uri_character_escaped c URI_SCHEME"
proof -
  have "\<not> (isalpha (sint c) \<or> c = 45 \<or> c = 95) \<or> \<not> uri_character_escaped c URI_SCHEME"
    by (rule u8_exhaustive [of _ c]) code_simp
  then show "isalpha (sint c) \<or> c = 45 \<or> c = 95 \<Longrightarrow> \<not> uri_character_escaped c URI_SCHEME" by blast
qed

lemma scheme_char_value:
  "isalpha (sint c) \<or> c = 45 \<or> c = 95 \<Longrightarrow> c \<noteq> 0 \<and> c \<noteq> 35 \<and> is_ascii c"
  for c :: u8
proof -
  have "\<not> (isalpha (sint c) \<or> c = 45 \<or> c = 95) \<or> c \<noteq> 0 \<and> c \<noteq> 35 \<and> is_ascii c"
    by (rule u8_exhaustive [of _ c]) code_simp
  then show "isalpha (sint c) \<or> c = 45 \<or> c = 95 \<Longrightarrow> c \<noteq> 0 \<and> c \<noteq> 35 \<and> is_ascii c" by blast
qed

lemma uri_fields_upt: "[0..<URI_FIELDS] =
   [URI_SCHEME, URI_OPAQUE, URI_USER, URI_PASSWORD, URI_HOST, URI_PORT, URI_PATH, URI_EPATH,
    URI_EQUERY, URI_EFRAGMENT]"
  by code_simp

lemma uri_text_wellformed:
  assumes "uri_wellformed uri" and "u_scheme uri = Some s" and "u_host uri = Some h"
  shows "uri_text uri =
    s @ cs ''://'' @ authority_text uri (hostport_text h (u_port uri)) @
    opt_text 47 (map_option tl (u_epath uri)) @ opt_text 63 (u_equery uri) @
    opt_text 35 (u_efragment uri)"
proof -
  have sch: "uri_encoded URI_SCHEME s = s"
    using assms by (intro uri_encoded_verbatim scheme_char_plain) (auto simp: uri_wellformed_def)
  have field_text_simps:
    "field_text uri URI_SCHEME = s @ cs ''://''"
    "field_text uri URI_OPAQUE = []"
    "field_text uri URI_USER = (case u_user uri of None \<Rightarrow> [] | Some u \<Rightarrow> uri_encoded URI_USER u)"
    "field_text uri URI_PASSWORD = opt_text 58 (map_option (uri_encoded URI_PASSWORD) (u_password uri))"
    "field_text uri URI_HOST = (if u_user uri = None then [] else [64]) @ uri_encoded URI_HOST h"
    "field_text uri URI_PORT = opt_text 58 (map_option (uri_encoded URI_PORT) (u_port uri))"
    "field_text uri URI_PATH = []"
    using assms sch
    by (auto simp: field_text_def field_prefix_def field_suffix_def uri_field_def uri_prefixes_def
        opt_text_def uri_field_defs uri_wellformed_def split: option.split)
  have epath: "field_text uri URI_EPATH = opt_text 47 (map_option tl (u_epath uri))"
    using assms(1) plain_not_escaped [of _ URI_EPATH]
    by (auto simp: field_text_def field_prefix_def field_suffix_def uri_field_def uri_prefixes_def
        opt_text_def uri_field_defs uri_wellformed_def deref_def neq_Nil_conv
        split: option.splits list.splits)
  have rest: "field_text uri URI_EQUERY = opt_text 63 (u_equery uri)"
    "field_text uri URI_EFRAGMENT = opt_text 35 (u_efragment uri)"
    using assms(1) plain_not_escaped [of _ URI_EQUERY] plain_not_escaped [of _ URI_EFRAGMENT]
    by (auto simp: field_text_def field_prefix_def field_suffix_def uri_field_def uri_prefixes_def
        opt_text_def uri_field_defs uri_wellformed_def split: option.split)
  show ?thesis
    using assms(1)
    by (auto simp: uri_text_def uri_fields_upt field_text_simps epath rest authority_text_def
        hostport_text_def uri_wellformed_def opt_text_def simp del: cs_Cons split: option.splits)
qed

lemma chop_opt_text: "c \<notin> set a \<Longrightarrow> c \<noteq> 0 \<Longrightarrow> k = uint c \<Longrightarrow> chop (a @ opt_text c f) k = (a, f)"
  by (cases f) (simp_all add: opt_text_def chop_at chop_none)

lemma encoded_no_delimiters:
  assumes "ascii_text (Some s)" and "d \<in> set delimiters"
  shows "d \<notin> set (uri_encoded URI_USER s)" "d \<notin> set (uri_encoded URI_PASSWORD s)"
    "d \<notin> set (uri_encoded URI_PORT s)" "d \<noteq> 58 \<Longrightarrow> d \<notin> set (uri_encoded URI_HOST s)"
  using assms delimiters_escaped uri_encoded_no_delimiter [of s d]
  by (auto simp: ascii_text_def list_all_iff)

lemma hostport_no_delimiters:
  assumes "ascii_text (Some h)" and "ascii_text p" and "d \<in> set delimiters" and "d \<noteq> 58"
  shows "d \<notin> set (hostport_text h p)"
  using assms encoded_no_delimiters [OF assms(1,3)]
  by (cases p) (auto simp: hostport_text_def opt_text_def encoded_no_delimiters)

lemma authority_no_delimiters:
  assumes "ascii_text (u_user uri)" and "ascii_text (u_password uri)"
    and "d \<in> set delimiters" and "d \<noteq> 58" and "d \<noteq> 64" and "d \<notin> set hp"
  shows "d \<notin> set (authority_text uri hp)"
  using assms
  by (cases "u_user uri"; cases "u_password uri")
    (auto simp: authority_text_def opt_text_def encoded_no_delimiters)

lemma uri_encoded_cstring:
  "ascii_text (Some s) \<Longrightarrow> is_cstring (uri_encoded field s)"
  using uri_encoded_set [of s 0 field] by (auto simp: ascii_text_def is_cstring_def)

lemma uri_encoded_colon:
  "ascii_text (Some h) \<Longrightarrow> 58 \<in> set (uri_encoded URI_HOST h) \<Longrightarrow> 58 \<in> set h"
  using uri_encoded_set [of h 58 URI_HOST] by (auto simp: ascii_text_def)

lemma bracket_not_escaped: "\<not> uri_character_escaped 93 URI_HOST" "\<not> uri_character_escaped 93 URI_PORT"
  by code_simp+

lemma parse_hostport_text:
  assumes h: "ascii_text (Some h)" and p: "ascii_text port"
    and ok: "case port of None \<Rightarrow> 58 \<notin> set h \<or> h \<noteq> [] \<and> last h = 93 | Some p \<Rightarrow> p = [] \<or> last p \<noteq> 93"
    and len: "length (hostport_text h port) \<le> SIZE_MAX" and np: "u_port uri = None"
  shows "parse_hostport uri (hostport_text h port) =
    uri\<lparr>u_host := Some (uri_encoded URI_HOST h), u_port := map_option (uri_encoded URI_PORT) port\<rparr>"
proof (cases port)
  case None
  have "58 \<notin> set (uri_encoded URI_HOST h) \<or>
      uri_encoded URI_HOST h \<noteq> [] \<and> last (uri_encoded URI_HOST h) = 93"
    using None ok h uri_encoded_colon [OF h] uri_encoded_last [of h URI_HOST] uri_encoded_nonempty [of h URI_HOST]
    by (auto simp: ascii_text_def bracket_not_escaped)
  then have "parse_hostport uri (uri_encoded URI_HOST h) = uri\<lparr>u_host := Some (uri_encoded URI_HOST h)\<rparr>"
    using None len by (intro parse_hostport_host uri_encoded_cstring h) (simp_all add: hostport_text_def opt_text_def)
  then show ?thesis using None np by (simp add: hostport_text_def opt_text_def)
next
  case (Some q)
  then have q: "ascii_text (Some q)" using p by simp
  have "uri_encoded URI_PORT q = [] \<or> last (uri_encoded URI_PORT q) \<noteq> 93"
    using Some ok q uri_encoded_last [of q URI_PORT]
    by (cases "q = []") (auto simp: ascii_text_def bracket_not_escaped uri_encoded_def)
  moreover have "58 \<notin> set (uri_encoded URI_PORT q)"
    using q by (rule encoded_no_delimiters) (simp add: delimiters_def)
  moreover have "is_cstring (uri_encoded URI_HOST h @ 58 # uri_encoded URI_PORT q)"
    using uri_encoded_cstring [OF h, of URI_HOST] uri_encoded_cstring [OF q, of URI_PORT] by (simp add: is_cstring_def)
  ultimately show ?thesis
    using Some len parse_hostport_port by (simp add: hostport_text_def opt_text_def)
qed

lemma parse_authority_text:
  assumes u: "ascii_text (u_user uri)" and pw: "ascii_text (u_password uri)"
    and up: "u_password uri \<noteq> None \<longrightarrow> u_user uri \<noteq> None" and hp: "64 \<notin> set hp"
    and z: "u_user u0 = None" "u_password u0 = None"
  shows "parse_authority u0 (authority_text uri hp) =
    parse_hostport (u0\<lparr>u_user := map_option (uri_encoded URI_USER) (u_user uri),
       u_password := map_option (uri_encoded URI_PASSWORD) (u_password uri)\<rparr>) hp"
proof (cases "u_user uri")
  case None
  moreover have "chop hp 64 = (hp, None)" using hp by (rule chop_none) simp_all
  moreover have "u_password uri = None" using None up by (cases "u_password uri") auto
  moreover have "u0\<lparr>u_user := None, u_password := None\<rparr> = u0" using z by (cases u0) simp
  ultimately show ?thesis by (simp add: parse_authority_def authority_text_def)
next
  case (Some n)
  let ?u = "uri_encoded URI_USER n" and ?p = "map_option (uri_encoded URI_PASSWORD) (u_password uri)"
  have n: "ascii_text (Some n)" using u Some by simp
  have d: "64 \<in> set delimiters" "58 \<in> set delimiters" by (simp_all add: delimiters_def)
  have p: "64 \<notin> set (opt_text 58 ?p)"
  proof (cases "u_password uri")
    case None
    then show ?thesis by (simp add: opt_text_def)
  next
    case (Some w)
    then have "ascii_text (Some w)" using pw by simp
    from encoded_no_delimiters(2) [OF this d(1)] Some show ?thesis by (simp add: opt_text_def)
  qed
  have cut: "chop (?u @ opt_text 58 ?p) 58 = (?u, ?p)"
    using encoded_no_delimiters(1) [OF n d(2)] by (rule chop_opt_text) simp_all
  have "64 \<notin> set (?u @ opt_text 58 ?p)"
    using p encoded_no_delimiters(1) [OF n d(1)] by simp
  from chop_at [OF this, of 64 hp] Some cut show ?thesis
    by (simp add: parse_authority_def authority_text_def)
qed

lemma strncmp_slashes: "strncmp (47 # 47 # x) (cs ''//'') 2 = 0"
  by (simp add: numeral_2_eq_2)

lemma parse_path_text:
  assumes "u_scheme u0 \<noteq> None" and "47 \<notin> set a" and "63 \<notin> set a"
    and "63 \<notin> set (opt_text 47 t)" and "u_epath u0 = None" and "u_path u0 = None"
  shows "parse_path u0 (47 # 47 # a @ opt_text 47 t @ opt_text 63 q) =
    parse_authority
      (u0\<lparr>u_equery := q,
          u_epath := map_option ((#) 47) t, u_path := map_option ((#) 47) t\<rparr>) a"
proof -
  have "chop ((47 # 47 # a @ opt_text 47 t) @ opt_text 63 q) 63 = (47 # 47 # a @ opt_text 47 t, q)"
    using assms(3,4) by (intro chop_opt_text) auto
  moreover have "strchr (a @ opt_text 47 t) 47 = (case t of None \<Rightarrow> None | Some r \<Rightarrow> Some (length a))"
    using assms(2) strchr_None_iff [of a 47] strchr_Some_iff [of "a @ opt_text 47 t" 47]
    by (cases t) (auto simp: opt_text_def)
  moreover have "u0\<lparr>u_equery := q, u_epath := None, u_path := None\<rparr> = u0\<lparr>u_equery := q\<rparr>"
    using assms(5,6) by (cases u0) simp
  ultimately show ?thesis
    using assms(1) strncmp_slashes [of "a @ opt_text 47 t"]
    by (cases t) (simp_all add: parse_path_def opt_text_def Let_def del: cs_Cons)
qed

lemma strstr_fragment_none:
  assumes "35 \<notin> set x" and "\<And>f. f0 = Some f \<Longrightarrow> strstr (35 # f) (cs ''##params'') = None"
  shows "strstr (x @ opt_text 35 f0) (cs ''##params'') = None"
proof -
  let ?n = "cs ''##params''" and ?t = "x @ opt_text 35 f0"
  have n: "is_cstring ?n" by simp
  have "take (length ?n) (drop i ?t) \<noteq> ?n" if i: "i < length ?t" for i
  proof
    assume eq: "take (length ?n) (drop i ?t) = ?n"
    have "?t ! i = drop i ?t ! 0" using nth_drop [of i ?t 0] i by (simp del: drop_append)
    also have "\<dots> = take (length ?n) (drop i ?t) ! 0" by (rule nth_take [symmetric]) simp
    also have "\<dots> = 35" unfolding eq by simp
    finally have "?t ! i = 35" .
    then have ge: "length x \<le> i" using assms(1) by (auto simp: nth_append dest: nth_mem split: if_splits)
    then obtain f where f: "f0 = Some f" using i by (cases f0) (auto simp: opt_text_def)
    have "take (length ?n) (drop (i - length x) (35 # f)) \<noteq> ?n"
      using assms(2) [OF f] i ge f unfolding strstr_None_iff [OF n] by (auto simp: opt_text_def simp del: cs_Cons)
    moreover have "drop i ?t = drop (i - length x) (35 # f)" using ge f by (simp add: opt_text_def)
    ultimately show False using eq by simp
  qed
  then show ?thesis unfolding strstr_None_iff [OF n] by blast
qed

lemma uri_wellformedD:
  assumes "uri_wellformed uri" and "u_scheme uri = Some s" and "u_host uri = Some h"
  shows "\<forall>c\<in>set s. isalpha (sint c) \<or> c = 45 \<or> c = 95"
    and "ascii_text (u_user uri)" and "ascii_text (u_password uri)" and "ascii_text (Some h)"
    and "ascii_text (u_port uri)" and "u_password uri \<noteq> None \<longrightarrow> u_user uri \<noteq> None"
    and "case u_port uri of None \<Rightarrow> 58 \<notin> set h \<or> h \<noteq> [] \<and> last h = 93
         | Some p \<Rightarrow> p = [] \<or> last p \<noteq> 93"
    and "u_epath uri = None \<Longrightarrow> u_path uri = None"
    and "u_epath uri = Some e \<Longrightarrow> deref e = 47 \<and> plain_text e \<and> 35 \<notin> set e \<and> 63 \<notin> set e \<and>
           u_path uri = Some (decode_field e)"
    and "u_equery uri = Some q \<Longrightarrow> plain_text q \<and> 35 \<notin> set q"
    and "u_efragment uri = Some f \<Longrightarrow> plain_text f \<and> strstr (35 # f) (cs ''##params'') = None"
  using assms unfolding uri_wellformed_def by (auto simp del: cs_Cons strstr.simps)

lemma wellformed_prefix_no_hash:
  assumes wf: "uri_wellformed uri" and s: "u_scheme uri = Some s" and h: "u_host uri = Some h"
  shows "35 \<notin> set (s @ cs ''://'' @ authority_text uri (hostport_text h (u_port uri)) @
    opt_text 47 (map_option tl (u_epath uri)) @ opt_text 63 (u_equery uri))"
proof -
  note D = uri_wellformedD [OF wf s h]
  have d: "35 \<in> set delimiters" by (simp add: delimiters_def)
  have "35 \<notin> set s" using D(1) scheme_char_value by blast
  moreover have "35 \<notin> set (authority_text uri (hostport_text h (u_port uri)))"
    by (rule authority_no_delimiters [OF D(2,3) d _ _ hostport_no_delimiters [OF D(4,5) d]]) simp_all
  moreover have "35 \<notin> set (opt_text 47 (map_option tl (u_epath uri)))"
    using D(9) by (cases "u_epath uri") (auto simp: opt_text_def dest: in_set_tl)
  moreover have "35 \<notin> set (opt_text 63 (u_equery uri))"
    using D(10) by (cases "u_equery uri") (auto simp: opt_text_def)
  ultimately show ?thesis by simp
qed

lemma parse_scheme_text:
  assumes wf: "uri_wellformed uri" and s: "u_scheme uri = Some s" and h: "u_host uri = Some h"
    and z: "u0 = zero_uri\<lparr>u_params := None, u_efragment := u_efragment uri\<rparr>"
  shows "parse_scheme u0 (s @ cs ''://'' @ authority_text uri (hostport_text h (u_port uri)) @
      opt_text 47 (map_option tl (u_epath uri)) @ opt_text 63 (u_equery uri)) =
    u0\<lparr>u_scheme := Some s, u_equery := u_equery uri, u_epath := u_epath uri, u_path := u_epath uri,
       u_user := map_option (uri_encoded URI_USER) (u_user uri),
       u_password := map_option (uri_encoded URI_PASSWORD) (u_password uri),
       u_host := Some (uri_encoded URI_HOST h),
       u_port := map_option (uri_encoded URI_PORT) (u_port uri)\<rparr>"
proof -
  note D = uri_wellformedD [OF wf s h]
  let ?hp = "hostport_text h (u_port uri)"
  let ?a = "authority_text uri ?hp" and ?t = "map_option tl (u_epath uri)"
  let ?rest = "47 # 47 # ?a @ opt_text 47 ?t @ opt_text 63 (u_equery uri)"
  let ?u1 = "u0\<lparr>u_scheme := Some s\<rparr>"
  have dl: "47 \<in> set delimiters" "63 \<in> set delimiters" "64 \<in> set delimiters" by (simp_all add: delimiters_def)
  have a: "47 \<notin> set ?a" "63 \<notin> set ?a"
    by (rule authority_no_delimiters [OF D(2,3) dl(1) _ _ hostport_no_delimiters [OF D(4,5) dl(1)]]; simp)
      (rule authority_no_delimiters [OF D(2,3) dl(2) _ _ hostport_no_delimiters [OF D(4,5) dl(2)]]; simp)
  have t: "63 \<notin> set (opt_text 47 ?t)"
    using D(9) by (cases "u_epath uri") (auto simp: opt_text_def dest: in_set_tl)
  have e: "map_option ((#) 47) ?t = u_epath uri"
    using D(9) by (cases "u_epath uri") (auto simp: deref_def split: list.splits)
  have "parse_scheme u0 (s @ 58 # ?rest) = parse_path ?u1 ?rest"
    using scheme_end_at [OF D(1), of ?rest] by (simp add: parse_scheme_def Let_def deref_def)
  also have "\<dots> = parse_authority (?u1\<lparr>u_equery := u_equery uri, u_epath := u_epath uri, u_path := u_epath uri\<rparr>) ?a"
    by (subst parse_path_text [OF _ a t]) (simp_all only: e, simp_all add: z zero_uri_def)
  also have "\<dots> = parse_hostport (?u1\<lparr>u_equery := u_equery uri, u_epath := u_epath uri, u_path := u_epath uri,
      u_user := map_option (uri_encoded URI_USER) (u_user uri),
      u_password := map_option (uri_encoded URI_PASSWORD) (u_password uri)\<rparr>) ?hp"
    using hostport_no_delimiters [OF D(4,5) dl(3)]
    by (intro parse_authority_text [OF D(2,3,6)]) (simp_all add: z zero_uri_def)
  also have "\<dots> = ?u1\<lparr>u_equery := u_equery uri, u_epath := u_epath uri, u_path := u_epath uri,
      u_user := map_option (uri_encoded URI_USER) (u_user uri),
      u_password := map_option (uri_encoded URI_PASSWORD) (u_password uri),
      u_host := Some (uri_encoded URI_HOST h),
      u_port := map_option (uri_encoded URI_PORT) (u_port uri)\<rparr>"
  proof (rule parse_hostport_text [OF D(4,5,7)])
    have "length (uri_text uri) \<le> SIZE_MAX" using wf by (simp add: uri_wellformed_def)
    then show "length ?hp \<le> SIZE_MAX"
      by (auto simp: uri_text_wellformed [OF wf s h] authority_text_def split: option.splits)
  qed (simp add: z zero_uri_def)
  finally show ?thesis by simp
qed

lemma parse_uri_text:
  assumes wf: "uri_wellformed uri" and alloc: "alloc (sizeof_uri + 2 * (strlen (uri_text uri) + 1))"
  shows "parse_uri alloc st (uri_text uri) = Some (Some uri, st)"
proof -
  obtain s h where s: "u_scheme uri = Some s" and h: "u_host uri = Some h"
    using wf by (auto simp: uri_wellformed_def)
  note D = uri_wellformedD [OF wf s h]
  let ?x = "s @ cs ''://'' @ authority_text uri (hostport_text h (u_port uri)) @
      opt_text 47 (map_option tl (u_epath uri)) @ opt_text 63 (u_equery uri)"
  let ?u0 = "zero_uri\<lparr>u_params := None, u_efragment := u_efragment uri\<rparr>"
  have tx: "uri_text uri = ?x @ opt_text 35 (u_efragment uri)"
    unfolding uri_text_wellformed [OF wf s h] by simp
  note nh = wellformed_prefix_no_hash [OF wf s h]
  have "strstr (uri_text uri) (cs ''##params'') = None"
    unfolding tx using nh D(11) by (intro strstr_fragment_none) blast+
  then have params: "parse_params st (uri_text uri) = Some (uri_text uri, None, st)"
    by (simp add: parse_params_def del: cs_Cons)
  have chop: "chop (uri_text uri) 35 = (?x, u_efragment uri)"
    unfolding tx using nh by (rule chop_opt_text) simp_all
  have dec: "decode_field s = s"
  proof -
    have "uri_encoded URI_SCHEME s = s"
      using D(1) by (intro uri_encoded_verbatim scheme_char_plain) auto
    moreover have "\<forall>c\<in>set s. is_ascii c" "is_cstring s"
      using D(1) scheme_char_value by (auto simp: is_cstring_def)
    ultimately show ?thesis using decode_field_encoded [of URI_SCHEME s] by (simp add: uri_field_defs)
  qed
  have dec2: "map_option decode_field (map_option (uri_encoded field) f) = f"
    if "field < URI_EPATH" "ascii_text f" for field f
    using that by (cases f) (auto simp: ascii_text_def decode_field_encoded)
  have path: "map_option decode_field (u_epath uri) = u_path uri"
    using D(8,9) by (cases "u_epath uri") auto
  have "parse_uri alloc st (uri_text uri) = Some (Some (decode_fields (parse_scheme ?u0 ?x)), st)"
    using alloc by (simp add: parse_uri_def params chop Let_def del: cs_Cons)
  also have "decode_fields (parse_scheme ?u0 ?x) = uri"
    using wf s h dec path D(2-5) dec2 [of URI_HOST "Some h"]
    unfolding parse_scheme_text [OF wf s h refl] decode_fields_def
    by (cases uri) (simp add: dec2 zero_uri_def uri_wellformed_def uri_field_defs)
  finally show ?thesis .
qed

lemma uri_encoded_length: "length s \<le> length (uri_encoded field s)"
  by (induction s) (auto simp: uri_encoded_def uri_encoded_char_def intro: le_SucI trans_le_add2)

lemma plain_text_cstring: "plain_text s \<Longrightarrow> is_cstring s"
  by (auto simp: plain_text_def is_cstring_def isprint_def)

lemma decode_field_ok: "is_cstring (decode_field s) \<and> length (decode_field s) \<le> length s"
proof -
  have "length (takeWhile P d) \<le> length d" for P and d :: "u8 list"
    by (rule length_takeWhile_le)
  then have "length (decode_field s) \<le> length (uri_decoded s)"
    by (simp add: decode_field_def until_nul_def)
  then show ?thesis
    using uri_decoded_length [of s]
    by (auto simp: decode_field_def until_nul_def is_cstring_def dest: set_takeWhileD)
qed

lemma authority_text_length:
  "u_user uri = Some u \<Longrightarrow> length u \<le> length (authority_text uri hp)"
  "u_user uri = Some u \<Longrightarrow> u_password uri = Some p \<Longrightarrow> length p \<le> length (authority_text uri hp)"
  "length hp \<le> length (authority_text uri hp)"
  using uri_encoded_length [of u URI_USER] uri_encoded_length [of p URI_PASSWORD]
  by (auto simp: authority_text_def opt_text_def split: option.splits)

lemma hostport_text_length:
  "length h \<le> length (hostport_text h port)" "port = Some p \<Longrightarrow> length p \<le> length (hostport_text h port)"
  using uri_encoded_length [of h URI_HOST] uri_encoded_length [of p URI_PORT]
  by (auto simp: hostport_text_def opt_text_def)

lemma uri_wellformed_ok:
  assumes wf: "uri_wellformed uri"
  shows "uri_ok uri"
proof -
  obtain s h where s: "u_scheme uri = Some s" and h: "u_host uri = Some h"
    using wf by (auto simp: uri_wellformed_def)
  note D = uri_wellformedD [OF wf s h]
  let ?hp = "hostport_text h (u_port uri)"
  have len: "length (uri_text uri) \<le> SIZE_MAX" using wf by (simp add: uri_wellformed_def)
  have parts: "length s \<le> length (uri_text uri)"
    "length (authority_text uri ?hp) \<le> length (uri_text uri)"
    "length (opt_text 47 (map_option tl (u_epath uri))) \<le> length (uri_text uri)"
    "length (opt_text 63 (u_equery uri)) \<le> length (uri_text uri)"
    "length (opt_text 35 (u_efragment uri)) \<le> length (uri_text uri)"
    by (simp_all add: uri_text_wellformed [OF wf s h])
  note le = order_trans [OF _ order_trans [OF parts(2) len]]
  have a: "is_cstring t" if "ascii_text (Some t)" for t using that by (simp add: ascii_text_def)
  have epath: "length e \<le> SIZE_MAX" if "u_epath uri = Some e" for e
    using D(9) [OF that] parts(3) len that by (cases e) (auto simp: opt_text_def deref_def)
  define ok where "ok f \<longleftrightarrow> (\<forall>t. f = Some t \<longrightarrow> is_cstring t \<and> length t \<le> SIZE_MAX)" for f
  have "ok (u_scheme uri)"
    using s D(1) scheme_char_value parts(1) len by (auto simp: ok_def is_cstring_def)
  moreover have "ok (u_opaque uri)" using wf by (simp add: ok_def uri_wellformed_def)
  moreover have "ok (u_user uri)"
    using D(2) le authority_text_length(1) [of uri _ ?hp] by (auto simp: ok_def ascii_text_def)
  moreover have "ok (u_password uri)"
    using D(3,6) le authority_text_length(2) [of uri _ _ ?hp] by (auto simp: ok_def ascii_text_def)
  moreover have "ok (u_host uri)"
    using D(4) h le [OF order_trans [OF hostport_text_length(1) authority_text_length(3)]]
    by (auto simp: ok_def ascii_text_def)
  moreover have "ok (u_port uri)"
    using D(5) le [OF order_trans [OF hostport_text_length(2) authority_text_length(3)]]
    by (auto simp: ok_def ascii_text_def)
  moreover have "ok (u_path uri)"
    using D(8,9) epath decode_field_ok by (cases "u_epath uri") (auto simp: ok_def intro: order_trans)
  moreover have "ok (u_epath uri)"
    using D(9) epath by (auto simp: ok_def plain_text_cstring)
  moreover have "ok (u_equery uri)"
    using D(10) parts(4) len
    by (auto simp: ok_def plain_text_cstring opt_text_def)
  moreover have "ok (u_efragment uri)"
    using D(11) parts(5) len
    by (auto simp: ok_def plain_text_cstring opt_text_def)
  ultimately have all: "\<forall>f\<in>set [u_scheme uri, u_opaque uri, u_user uri, u_password uri, u_host uri, u_port uri,
      u_path uri, u_epath uri, u_equery uri, u_efragment uri]. ok f" by simp
  have "ok (uri_field uri field)" if "field < URI_FIELDS" for field
    unfolding uri_field_def using that by (intro bspec [OF all] nth_mem) (simp add: uri_field_defs)
  then show ?thesis by (auto simp: uri_ok_def ok_def)
qed

section \<open>Relative paths\<close>

text \<open>Climbing directories: the directory part of a path, repeatedly, stopping at the root.\<close>

definition no_slash :: "cstring \<Rightarrow> bool" where
  "no_slash s \<longleftrightarrow> 47 \<notin> set s"

lemma dirname_split:
  "no_slash f \<Longrightarrow> dirname (d @ 47 # f) = (if d = [] then cs ''/'' else d)"
  using strrchr_at [of 47 f 47 d] by (simp add: dirname_def no_slash_def)

lemma dirname_absolute: "deref p = 47 \<Longrightarrow> deref (dirname p) = 47 \<and> dirname p \<noteq> []"
proof -
  assume p: "deref p = 47"
  then obtain q where q: "p = 47 # q" by (cases p) (auto simp: deref_def)
  then have "strrchr p 47 \<noteq> None" using strrchr_None_iff [of p 47] by simp
  then obtain i where "strrchr p 47 = Some i" by blast
  then show ?thesis using q by (cases i) (auto simp: dirname_def deref_def)
qed

fun climb :: "nat \<Rightarrow> cstring \<Rightarrow> cstring" where
  "climb 0 p = p"
| "climb (Suc k) p = climb k (dirname p)"

lemma resolve_dots_climb:
  "resolve_dots b (concat (replicate k (cs ''../'')) @ r) = resolve_dots (climb k b) r"
  by (induction k arbitrary: b) simp_all

lemma resolve_dots_name: "deref r \<noteq> 46 \<Longrightarrow> resolve_dots b r = (b, r)"
  by (cases r) (auto simp: deref_def)

lemma climb_absolute: "deref b = 47 \<Longrightarrow> deref (climb k b) = 47"
  by (induction k arbitrary: b) (auto simp: dirname_absolute)

text \<open>A directory given by its components.\<close>

definition dir_path :: "cstring list \<Rightarrow> cstring" where
  "dir_path ds = (if ds = [] then cs ''/'' else concat (map ((#) 47) ds))"

lemma dirname_dir_path:
  assumes "\<forall>d\<in>set ds. no_slash d"
  shows "dirname (dir_path ds) = dir_path (butlast ds)"
proof (cases ds rule: rev_cases)
  case Nil
  then show ?thesis using dirname_split [of "[]" "[]"] by (simp add: dir_path_def no_slash_def)
next
  case (snoc es d)
  then have "dirname (concat (map ((#) 47) es) @ 47 # d) =
      (if concat (map ((#) 47) es) = [] then cs ''/'' else concat (map ((#) 47) es))"
    using assms by (intro dirname_split) simp
  then show ?thesis using snoc by (auto simp: dir_path_def)
qed

lemma climb_dir_path:
  "\<forall>d\<in>set ds. no_slash d \<Longrightarrow> climb k (dir_path ds) = dir_path (take (length ds - k) ds)"
proof (induction k arbitrary: ds)
  case 0
  then show ?case by simp
next
  case (Suc k)
  have "\<forall>d\<in>set (butlast ds). no_slash d" using Suc.prems by (auto dest: in_set_butlastD)
  with Suc show ?case
    by (simp add: dirname_dir_path take_butlast) (simp add: butlast_conv_take min_def)
qed

lemma dir_path_join:
  "is_cstring (dir_path ds) \<Longrightarrow> length (dir_path ds) \<le> SIZE_MAX \<Longrightarrow> \<forall>d\<in>set ds. no_slash d \<and> d \<noteq> [] \<Longrightarrow>
   dir_path ds @ (if dir_path ds ! (strlen (dir_path ds) - 1) = 47 then [] else cs ''/'') @ r =
   concat (map ((#) 47) ds) @ 47 # r"
proof (cases ds rule: rev_cases)
  case Nil
  then show ?thesis
    by (simp add: dir_path_def strlen_eq is_cstring_def SIZE_MAX_def)
next
  case (snoc es d)
  assume c: "is_cstring (dir_path ds)" "length (dir_path ds) \<le> SIZE_MAX" and d: "\<forall>d\<in>set ds. no_slash d \<and> d \<noteq> []"
  have "dir_path ds ! (strlen (dir_path ds) - 1) = last (dir_path ds)"
    unfolding strlen_eq [OF c] using snoc by (intro last_conv_nth [symmetric]) (simp add: dir_path_def)
  also have "\<dots> = last d" using snoc d by (simp add: dir_path_def)
  also have "\<dots> \<noteq> 47" using snoc d by (metis last_in_set last_snoc no_slash_def in_set_conv_decomp)
  finally show ?thesis using snoc by (simp add: dir_path_def)
qed

lemma is_cstring_dir_path: "\<forall>d\<in>set ds. is_cstring d \<Longrightarrow> is_cstring (dir_path ds)"
  by (auto simp: dir_path_def is_cstring_def)

lemma strdup_ok:
  "is_cstring s \<Longrightarrow> length s \<le> SIZE_MAX \<Longrightarrow> alloc (length s + 1) \<Longrightarrow> strdup alloc s = Some s"
  using strlen_eq [of s] by (simp add: strdup_def strndup_def strlen_def)

lemma length_concat_take:
  "length (concat (map f (take n ds))) \<le> length (concat (map f ds))"
  by (metis append_take_drop_id concat_append length_append le_add1 map_append)

lemma snwrite_zero: "snwrite m buf 0 out = m"
  by (simp add: snwrite_def)

lemma uri_ok_single:
  "\<forall>field\<in>set [0..<URI_FIELDS]. uri_field u field = None \<or> uri_field u field = Some s \<Longrightarrow>
   is_cstring s \<Longrightarrow> length s \<le> SIZE_MAX \<Longrightarrow> uri_ok u"
  unfolding uri_ok_def by (metis atLeastLessThan_iff option.distinct(1) option.inject set_upt zero_le)

section \<open>Properties\<close>

text \<open>
  C1: formatting and parsing are inverse: the text of a well-formed hierarchical URI fits
  the parser, which returns the URI it was formatted from: every special character of the
  user name, password, host and port survives through its escape, and the host may be an
  IPv6 literal in brackets.
\<close>

theorem parse_format_uri:
  assumes wf: "uri_wellformed uri" and "\<And>n. alloc n"
    and f: "format_uri m (Some uri) buf len = Some (m', used)" and "used < len"
  shows "parse_uri alloc st (map m' [buf..<buf + used]) = Some (Some uri, st)"
proof -
  have "m' = snwrite m buf len (uri_text uri)" "used = length (uri_text uri)"
    using f format_uri_eq [OF uri_wellformed_ok [OF wf]] by auto
  then have "map m' [buf..<buf + used] = uri_text uri"
    using assms(4) by (simp add: snwrite_fits)
  with parse_uri_text [OF wf, of alloc st] assms(2) show ?thesis by simp
qed

theorem parse_format_uri_witness:
  "\<exists>uri m' used. u_user uri = Some (cs ''a:b'') \<and> u_host uri = Some (cs ''[::1]'') \<and>
     format_uri (\<lambda>_. 0) (Some uri) 0 100 = Some (m', used) \<and>
     parse_uri (\<lambda>_. True) \<lparr>p_store = Map.empty, p_list = []\<rparr> (map m' [0..<0 + used]) =
       Some (Some uri, \<lparr>p_store = Map.empty, p_list = []\<rparr>)"
proof -
  let ?u = "zero_uri\<lparr>u_scheme := Some (cs ''http''), u_user := Some (cs ''a:b''),
      u_host := Some (cs ''[::1]''), u_epath := Some (cs ''/x''), u_path := Some (cs ''/x'')\<rparr>"
  have ascii: "ascii_text (Some (cs ''a:b''))" "ascii_text (Some (cs ''[::1]''))" "ascii_text None"
    by (simp_all add: ascii_text_def is_cstring_def is_ascii_def)
  have "length (uri_text ?u) = 20" "decode_field (cs ''/x'') = cs ''/x''"
    "\<forall>c\<in>set (cs ''http''). isalpha (sint c) \<or> c = 45 \<or> c = 95"
    "\<forall>c\<in>set (cs ''/x''). isprint (sint c) \<and> c \<noteq> 32"
    by code_simp+
  then have wf: "uri_wellformed ?u"
    using ascii by (simp add: uri_wellformed_def zero_uri_def plain_text_def SIZE_MAX_def deref_def del: cs_Cons) simp
  obtain m' used where f: "format_uri (\<lambda>_. 0) (Some ?u) 0 100 = Some (m', used)" and u: "used = length (uri_text ?u)"
    using format_uri_eq [OF uri_wellformed_ok [OF wf]] by blast
  have "used < 100" using u \<open>length (uri_text ?u) = 20\<close> by simp
  from parse_format_uri [OF wf _ f this, of "\<lambda>_. True"] f show ?thesis
    by (intro exI [of _ ?u] exI [of _ m'] exI [of _ used]) simp
qed

text \<open>
  C18: \<open>format_uri_alloc\<close> asks for exactly the memory it needs: the string it returns is the
  whole text of the URI with its terminator, and nothing is written outside the block.
\<close>

theorem format_uri_alloc_exact:
  assumes ok: "uri_ok uri" and a: "malloc (length (uri_text uri) + 1) = Some a"
  shows "\<exists>m'. format_uri_alloc m (Some uri) malloc = Some (m', Some a) \<and>
    map m' [a..<a + length (uri_text uri)] = uri_text uri \<and> m' (a + length (uri_text uri)) = 0 \<and>
    (\<forall>x. x < a \<or> a + length (uri_text uri) + 1 \<le> x \<longrightarrow> m' x = m x)"
proof -
  let ?n = "length (uri_text uri)"
  let ?m = "snwrite m a (?n + 1) (uri_text uri)"
  have "format_uri_alloc m (Some uri) malloc = Some (?m, Some a)"
    using a format_uri_eq [OF ok] by (simp add: format_uri_alloc_def snwrite_zero)
  then show ?thesis
    using snwrite_fits [of "uri_text uri" "?n + 1" m a] snwrite_terminated [of "uri_text uri" "?n + 1" m a]
      snwrite_outside [of _ a "?n + 1" m "uri_text uri"]
    by (intro exI [of _ ?m]) auto
qed

theorem format_uri_alloc_exact_witness:
  "\<exists>m'. format_uri_alloc (\<lambda>_. 7) (Some (zero_uri\<lparr>u_path := Some (cs ''/x'')\<rparr>)) (\<lambda>n. if n = 3 then Some 50 else None) =
       Some (m', Some 50) \<and> map m' [50..<50 + 2] = cs ''/x'' \<and> m' (50 + 2) = 0"
proof -
  let ?u = "zero_uri\<lparr>u_path := Some (cs ''/x'')\<rparr>"
  have "\<forall>field\<in>set [0..<URI_FIELDS]. uri_field ?u field = None \<or> uri_field ?u field = Some (cs ''/x'')"
    by code_simp
  then have ok: "uri_ok ?u" by (rule uri_ok_single) (simp_all add: SIZE_MAX_def)
  have t: "uri_text ?u = cs ''/x''" by code_simp
  then have l: "length (uri_text ?u) = 2" by simp
  from format_uri_alloc_exact [OF ok, of "\<lambda>n. if n = 3 then Some 50 else None" 50 "\<lambda>_. 7"]
  show ?thesis unfolding l unfolding t by auto
qed

text \<open>
  C17: the two passes of \<open>uri_copy_fields\<close> agree: the length calculated without a destination
  is the length used with one, every field of the copy points to its own copy of the string
  inside the allocated block behind the structure, and nothing is written outside it.
\<close>

theorem uri_copy_fields_within:
  assumes ok: "uri_ok src" and "uri_copy_fields src (Some dest) m = (len, m', ptrs)"
  shows "len = fst (uri_copy_fields src None m0) \<and>
    (\<forall>x. x < dest + sizeof_uri \<or> dest + len \<le> x \<longrightarrow> m' x = m x) \<and>
    (\<forall>field<URI_FIELDS. case uri_field src field of
       None \<Rightarrow> ptrs field = None
     | Some s \<Rightarrow> \<exists>a. ptrs field = Some a \<and> cstring_at m' a s \<and>
                   dest + sizeof_uri \<le> a \<and> a + length s < dest + len)"
proof -
  let ?fs = "[0..<URI_FIELDS]"
  have r: "uri_copy_loop src ?fs True sizeof_uri (dest + sizeof_uri) m = (len, m', ptrs)"
    using assms(2) by (simp add: uri_copy_fields_def)
  have ok': "\<forall>field\<in>set ?fs. \<forall>s. uri_field src field = Some s \<longrightarrow> is_cstring s \<and> length s \<le> SIZE_MAX"
    using ok by (auto simp: uri_ok_def)
  have "len = fst (uri_copy_fields src None m0)"
    using uri_copy_loop_len [of src ?fs sizeof_uri "dest + sizeof_uri" m 0 m0] r
    by (simp add: uri_copy_fields_def)
  moreover note copies = uri_copy_loop_copies [OF ok' distinct_upt r]
  from copies have eq: "dest + sizeof_uri + (len - sizeof_uri) = dest + len" by simp
  ultimately show ?thesis
    using copies [unfolded eq] by (simp add: Ball_def)
qed

theorem uri_copy_fields_within_witness:
  "\<exists>len m' ptrs. uri_copy_fields (zero_uri\<lparr>u_host := Some (cs ''a'')\<rparr>) (Some 1000) (\<lambda>_. 0) = (len, m', ptrs) \<and>
     len = sizeof_uri + 2 \<and> (\<exists>a. ptrs URI_HOST = Some a \<and> cstring_at m' a (cs ''a'') \<and> a + 1 < 1000 + len)"
proof -
  let ?u = "zero_uri\<lparr>u_host := Some (cs ''a'')\<rparr>"
  obtain len m' ptrs where r: "uri_copy_fields ?u (Some 1000) (\<lambda>_. 0) = (len, m', ptrs)"
    by (cases "uri_copy_fields ?u (Some 1000) (\<lambda>_. 0)")
  have "\<forall>field\<in>set [0..<URI_FIELDS]. uri_field ?u field = None \<or> uri_field ?u field = Some (cs ''a'')"
    by code_simp
  then have ok: "uri_ok ?u" by (rule uri_ok_single) (simp_all add: SIZE_MAX_def)
  have "uri_field ?u URI_HOST = Some (cs ''a'')" "URI_HOST < URI_FIELDS"
    by (simp_all add: uri_field_def uri_field_defs)
  moreover have "fst (uri_copy_fields ?u None (\<lambda>_. 0)) = sizeof_uri + 2"
    unfolding uri_copy_fields_def uri_fields_upt
    by (simp add: uri_field_def uri_field_defs zero_uri_def strlen_eq is_cstring_def SIZE_MAX_def)
  ultimately show ?thesis
    using uri_copy_fields_within [OF ok r, of "\<lambda>_. 0"] r by (auto dest!: spec [of _ URI_HOST])
qed

text \<open>
  C19: resolving a relative path climbs: from a file in a directory given by its components,
  each leading parent reference drops one component, never above the root, and the rest of
  the relative path is appended below the directory that is left.
\<close>

theorem resolve_path_climbs:
  assumes ds: "\<forall>d\<in>set ds. no_slash d \<and> d \<noteq> [] \<and> is_cstring d"
    and nf: "no_slash file" "is_cstring file" and r: "is_cstring r" "deref r \<noteq> 46" "deref r \<noteq> 47"
    and len: "length (concat (map ((#) 47) ds) @ 47 # file) < SIZE_MAX" and alloc: "\<And>n. alloc n"
  shows "resolve_path alloc (concat (map ((#) 47) ds) @ 47 # file)
      (concat (replicate k (cs ''../'')) @ r) =
    Some (Some (concat (map ((#) 47) (take (length ds - k) ds)) @ 47 # r))"
proof -
  let ?base = "concat (map ((#) 47) ds) @ 47 # file" and ?rel = "concat (replicate k (cs ''../'')) @ r"
  let ?ds = "take (length ds - k) ds"
  have base: "is_cstring ?base" using ds nf by (auto simp: is_cstring_def)
  have "deref ?rel \<noteq> 47" using r by (cases k) (simp_all add: deref_def)
  have ds': "\<forall>d\<in>set ?ds. no_slash d \<and> d \<noteq> []" "\<forall>d\<in>set ?ds. is_cstring d"
    using ds by (auto dest: in_set_takeD)
  have "dirname ?base = dir_path ds"
    using dirname_split [OF nf(1), of "concat (map ((#) 47) ds)"] by (auto simp: dir_path_def)
  then have dots: "resolve_dots (dirname ?base) ?rel = (dir_path ?ds, r)"
    using ds by (simp only: resolve_dots_climb resolve_dots_name [OF r(2)]) (simp add: climb_dir_path)
  have c: "is_cstring (dir_path ?ds)" using ds' by (intro is_cstring_dir_path) auto
  have l: "length (dir_path ?ds) \<le> SIZE_MAX"
    using len length_concat_take [of "(#) 47" "length ds - k" ds] by (auto simp: dir_path_def)
  let ?sep = "if dir_path ?ds ! (strlen (dir_path ?ds) - 1) = 47 then [] else cs ''/''"
  have "vcprintf (cs ''%s%s%s'') [VaStr (Some (dir_path ?ds)), VaStr (Some ?sep), VaStr (Some r)] =
      Some (dir_path ?ds @ ?sep @ r)"
    using c r(1) by (simp add: printf_eval is_cstring_def)
  also have "dir_path ?ds @ ?sep @ r = concat (map ((#) 47) ?ds) @ 47 # r"
    by (rule dir_path_join [OF c l ds'(1)])
  finally have p: "vcprintf (cs ''%s%s%s'')
      [VaStr (Some (dir_path ?ds)), VaStr (Some ?sep), VaStr (Some r)] =
      Some (concat (map ((#) 47) ?ds) @ 47 # r)" .
  have "until_nul (concat (map ((#) 47) ?ds) @ 47 # r) = concat (map ((#) 47) ?ds) @ 47 # r"
    using ds'(2) r(1) by (auto simp: until_nul_def takeWhile_eq_all_conv is_cstring_def)
  with \<open>deref ?rel \<noteq> 47\<close> base len p alloc dots show ?thesis
    by (simp add: resolve_path_def strdup_ok asprintf_def del: cs_Cons)
qed

theorem resolve_path_climbs_witness:
  "resolve_path (\<lambda>_. True) (cs ''/var/lib/vmlinuz'') (cs ''../../../initrd'') = Some (Some (cs ''/initrd'')) \<and>
   resolve_path (\<lambda>_. True) (cs ''/var/lib/vmlinuz'') (cs ''../initrd'') = Some (Some (cs ''/var/initrd''))"
proof -
  let ?ds = "[cs ''var'', cs ''lib'']"
  have ds: "\<forall>d\<in>set ?ds. no_slash d \<and> d \<noteq> [] \<and> is_cstring d"
    by (simp add: no_slash_def is_cstring_def)
  have f: "no_slash (cs ''vmlinuz'')" "is_cstring (cs ''vmlinuz'')" "is_cstring (cs ''initrd'')"
    "deref (cs ''initrd'') \<noteq> 46" "deref (cs ''initrd'') \<noteq> 47"
    by (simp_all add: no_slash_def is_cstring_def deref_def)
  have l: "length (concat (map ((#) 47) ?ds) @ 47 # cs ''vmlinuz'') < SIZE_MAX"
    by (simp add: SIZE_MAX_def)
  note t = resolve_path_climbs [OF ds f l, of "\<lambda>_. True"]
  from t [of 3] t [of 1] show ?thesis by (simp add: eval_nat_numeral)
qed

end
