(* ===== verification/Bitmap.thy ===== *)
theory Bitmap
  imports Prelude
begin

text \<open>
  Bitmaps of the multicast downloads (\<open>core/bitmap.c\<close>, \<open>include/ipxe/bitmap.h\<close>): blocks of
  64 bits, a length and the index of the first gap.  The result of \<open>realloc\<close> is an argument:
  whether it succeeds, and what the fresh part of the memory holds before it is cleared.
\<close>

section \<open>Definitions\<close>

definition BITMAP_BLKSIZE :: nat where
  "BITMAP_BLKSIZE = 8 * 8"

definition BITMAP_INDEX :: "nat \<Rightarrow> nat" where
  "BITMAP_INDEX b = b div BITMAP_BLKSIZE"

definition BITMAP_MASK :: "nat \<Rightarrow> u64" where
  "BITMAP_MASK b = push_bit (b mod BITMAP_BLKSIZE) 1"

record bitmap =
  bm_blocks :: "u64 list"
  bm_length :: nat
  bm_first_gap :: nat

definition bitmap_resize ::
    "bitmap \<Rightarrow> nat \<Rightarrow> bool \<Rightarrow> (nat \<Rightarrow> u64) \<Rightarrow> bitmap \<times> unit result" where
  "bitmap_resize bm new_length realloc_ok fresh =
     (let old_num_blocks = BITMAP_INDEX (bm_length bm + BITMAP_BLKSIZE - 1);
          new_num_blocks = BITMAP_INDEX (new_length + BITMAP_BLKSIZE - 1)
      in if old_num_blocks \<noteq> new_num_blocks \<and> \<not> realloc_ok then (bm, Inl ENOMEM)
         else
           (let blocks = (if old_num_blocks \<noteq> new_num_blocks
                          then take new_num_blocks (bm_blocks bm) @
                               map fresh [length (bm_blocks bm)..<new_num_blocks]
                          else bm_blocks bm);
                cleared = foldl (\<lambda>bs i. bs[i := 0]) blocks [old_num_blocks..<new_num_blocks]
            in (bm\<lparr>bm_blocks := cleared, bm_length := new_length\<rparr>, Inr ())))"

definition bitmap_test :: "bitmap \<Rightarrow> nat \<Rightarrow> bool" where
  "bitmap_test bm b =
     (if b \<ge> bm_length bm then False
      else bm_blocks bm ! BITMAP_INDEX b AND BITMAP_MASK b \<noteq> 0)"

text \<open>The loop that advances the first gap stops at the latest at the length of the bitmap.\<close>

function bitmap_advance :: "bitmap \<Rightarrow> nat \<Rightarrow> nat" where
  "bitmap_advance bm gap = (if bitmap_test bm gap then bitmap_advance bm (gap + 1) else gap)"
  by pat_completeness auto
termination
  by (relation "measure (\<lambda>(bm, gap). bm_length bm - gap)") (auto simp: bitmap_test_def split: if_splits)

declare bitmap_advance.simps [simp del]

definition bitmap_set :: "bitmap \<Rightarrow> nat \<Rightarrow> bitmap" where
  "bitmap_set bm b =
     (let bm1 = bm\<lparr>bm_blocks := (bm_blocks bm)[BITMAP_INDEX b :=
                     bm_blocks bm ! BITMAP_INDEX b OR BITMAP_MASK b]\<rparr>
      in bm1\<lparr>bm_first_gap := bitmap_advance bm1 (bm_first_gap bm1)\<rparr>)"

definition bitmap_first_gap :: "bitmap \<Rightarrow> nat" where
  "bitmap_first_gap bm = bm_first_gap bm"

definition bitmap_full :: "bitmap \<Rightarrow> bool" where
  "bitmap_full bm = (bm_first_gap bm = bm_length bm)"

section \<open>Specification\<close>

text \<open>
  The abstract bitmap is the set of its bits.  The invariant: there are as many blocks as
  the length needs, no bit is set at or beyond the length, and the first gap is the first
  bit not set.
\<close>

definition raw_bit :: "bitmap \<Rightarrow> nat \<Rightarrow> bool" where
  "raw_bit bm b \<longleftrightarrow>
     BITMAP_INDEX b < length (bm_blocks bm) \<and> bit (bm_blocks bm ! BITMAP_INDEX b) (b mod 64)"

definition bitmap_bits :: "bitmap \<Rightarrow> nat set" where
  "bitmap_bits bm = {b. bitmap_test bm b}"

definition bitmap_inv :: "bitmap \<Rightarrow> bool" where
  "bitmap_inv bm \<longleftrightarrow>
     length (bm_blocks bm) = BITMAP_INDEX (bm_length bm + BITMAP_BLKSIZE - 1) \<and>
     (\<forall>b. raw_bit bm b \<longrightarrow> b < bm_length bm) \<and>
     (\<forall>b<bm_first_gap bm. raw_bit bm b) \<and> \<not> raw_bit bm (bm_first_gap bm)"

text \<open>The states a download goes through: the bitmap only grows, and bits are set within it.\<close>

inductive bitmap_reachable :: "bitmap \<Rightarrow> nat set \<Rightarrow> bool" where
  empty: "bitmap_reachable \<lparr>bm_blocks = [], bm_length = 0, bm_first_gap = 0\<rparr> {}"
| resize: "bitmap_reachable bm bits \<Longrightarrow> bm_length bm \<le> n \<Longrightarrow>
     bitmap_reachable (fst (bitmap_resize bm n ok fresh)) bits"
| set_bit: "bitmap_reachable bm bits \<Longrightarrow> b < bm_length bm \<Longrightarrow>
     bitmap_reachable (bitmap_set bm b) (insert b bits)"

section \<open>Lemmas\<close>

lemmas bitmap_consts = BITMAP_BLKSIZE_def BITMAP_INDEX_def BITMAP_MASK_def

lemma index_in_range: "b < n \<Longrightarrow> BITMAP_INDEX b < BITMAP_INDEX (n + BITMAP_BLKSIZE - 1)"
  unfolding bitmap_consts by simp

lemma mask_nonzero_iff: "w AND BITMAP_MASK b \<noteq> 0 \<longleftrightarrow> bit w (b mod 64)"
proof -
  have "w AND BITMAP_MASK b = (if bit w (b mod 64) then BITMAP_MASK b else 0)"
    by (rule bit_word_eqI) (auto simp: bitmap_consts bit_simps)
  moreover have "bit (BITMAP_MASK b) (b mod 64)"
    by (simp add: bitmap_consts bit_simps)
  then have "BITMAP_MASK b \<noteq> 0" by auto
  ultimately show ?thesis by simp
qed

lemma bitmap_test_raw:
  assumes "bitmap_inv bm"
  shows "bitmap_test bm b \<longleftrightarrow> raw_bit bm b"
  using assms index_in_range [of b "bm_length bm"]
  by (auto simp: bitmap_test_def raw_bit_def bitmap_inv_def mask_nonzero_iff not_le)

lemma bitmap_advance_spec:
  "(\<forall>b. gap \<le> b \<and> b < bitmap_advance bm gap \<longrightarrow> bitmap_test bm b) \<and>
   \<not> bitmap_test bm (bitmap_advance bm gap) \<and> gap \<le> bitmap_advance bm gap"
proof (induction bm gap rule: bitmap_advance.induct)
  case (1 bm gap)
  show ?case
  proof (cases "bitmap_test bm gap")
    case True
    then have "bitmap_advance bm gap = bitmap_advance bm (gap + 1)"
      by (simp add: bitmap_advance.simps [of bm gap])
    with 1 [OF True] True show ?thesis
      by (metis Suc_eq_plus1 Suc_leI le_neq_implies_less le_trans le_add1)
  next
    case False
    then show ?thesis by (auto simp: bitmap_advance.simps [of bm gap])
  qed
qed

lemma raw_bit_set:
  assumes "BITMAP_INDEX b < length (bm_blocks bm)"
  shows "raw_bit (bm\<lparr>bm_blocks := (bm_blocks bm)[BITMAP_INDEX b :=
      bm_blocks bm ! BITMAP_INDEX b OR BITMAP_MASK b]\<rparr>) c \<longleftrightarrow> raw_bit bm c \<or> c = b"
proof (cases "BITMAP_INDEX c = BITMAP_INDEX b")
  case True
  then have "c = b \<longleftrightarrow> c mod 64 = b mod 64"
    unfolding bitmap_consts by simp (metis div_mult_mod_eq)
  with True assms show ?thesis
    by (auto simp: raw_bit_def bit_simps bitmap_consts)
next
  case False
  then show ?thesis by (auto simp: raw_bit_def nth_list_update)
qed

lemma bitmap_inv_set:
  assumes inv: "bitmap_inv bm" and b: "b < bm_length bm"
  shows "bitmap_inv (bitmap_set bm b)" "bitmap_bits (bitmap_set bm b) = insert b (bitmap_bits bm)"
proof -
  let ?bm1 = "bm\<lparr>bm_blocks := (bm_blocks bm)[BITMAP_INDEX b :=
      bm_blocks bm ! BITMAP_INDEX b OR BITMAP_MASK b]\<rparr>"
  have idx: "BITMAP_INDEX b < length (bm_blocks bm)"
    using inv index_in_range [OF b] by (simp add: bitmap_inv_def)
  have raw: "raw_bit ?bm1 c \<longleftrightarrow> raw_bit bm c \<or> c = b" for c by (rule raw_bit_set [OF idx])
  have test: "bitmap_test ?bm1 c \<longleftrightarrow> raw_bit bm c \<or> c = b" for c
  proof (cases "c < bm_length bm")
    case True
    then have "BITMAP_INDEX c < length (bm_blocks bm)"
      using inv index_in_range [OF True] by (simp add: bitmap_inv_def)
    then have "bitmap_test ?bm1 c = raw_bit ?bm1 c"
      using True by (simp add: bitmap_test_def raw_bit_def mask_nonzero_iff)
    then show ?thesis by (simp add: raw)
  next
    case False
    then show ?thesis using inv b by (auto simp: bitmap_test_def bitmap_inv_def)
  qed
  let ?g = "bitmap_advance ?bm1 (bm_first_gap bm)"
  have adv: "\<forall>c. bm_first_gap bm \<le> c \<and> c < ?g \<longrightarrow> bitmap_test ?bm1 c" "\<not> bitmap_test ?bm1 ?g"
    using bitmap_advance_spec [of "bm_first_gap bm" ?bm1] by auto
  have set: "bitmap_set bm b = ?bm1\<lparr>bm_first_gap := ?g\<rparr>" by (simp add: bitmap_set_def Let_def)
  have raw': "raw_bit (bitmap_set bm b) c \<longleftrightarrow> raw_bit bm c \<or> c = b" for c
    using raw [of c] by (simp add: set raw_bit_def)
  show inv': "bitmap_inv (bitmap_set bm b)"
    unfolding bitmap_inv_def raw' using inv b adv test by (auto simp: set bitmap_inv_def) (meson leI)+
  show "bitmap_bits (bitmap_set bm b) = insert b (bitmap_bits bm)"
    using bitmap_test_raw [OF inv'] bitmap_test_raw [OF inv] raw' by (auto simp: bitmap_bits_def)
qed

lemma foldl_clear:
  "foldl (\<lambda>bs i. bs[i := 0]) (bl @ xs) [length bl..<length bl + length xs] = bl @ replicate (length xs) 0"
proof (induction xs arbitrary: bl)
  case Nil
  then show ?case by simp
next
  case (Cons x xs)
  have "[length bl..<length bl + length (x # xs)] = length bl # [length (bl @ [0])..<length (bl @ [0]) + length xs]"
    using upt_conv_Cons [of "length bl" "length bl + length (x # xs)"] by simp
  moreover have "(bl @ x # xs)[length bl := 0] = (bl @ [0]) @ xs" by simp
  ultimately show ?case using Cons.IH [of "bl @ [0]"] by simp
qed

lemma bitmap_resize_grow:
  assumes inv: "bitmap_inv bm" and n: "bm_length bm \<le> n"
  shows "bitmap_resize bm n ok fresh = (bm, Inl ENOMEM) \<or>
    (\<exists>k. bitmap_resize bm n ok fresh =
       (bm\<lparr>bm_blocks := bm_blocks bm @ replicate k 0, bm_length := n\<rparr>, Inr ()) \<and>
       length (bm_blocks bm) + k = BITMAP_INDEX (n + BITMAP_BLKSIZE - 1))"
proof -
  let ?old = "BITMAP_INDEX (bm_length bm + BITMAP_BLKSIZE - 1)" and ?new = "BITMAP_INDEX (n + BITMAP_BLKSIZE - 1)"
  let ?bl = "bm_blocks bm"
  have old: "length ?bl = ?old" using inv by (simp add: bitmap_inv_def)
  have le: "?old \<le> ?new" unfolding bitmap_consts using n by (intro div_le_mono) simp
  have "foldl (\<lambda>bs i. bs[i := 0])
      (if ?old \<noteq> ?new then take ?new ?bl @ map fresh [length ?bl..<?new] else ?bl) [?old..<?new] =
    ?bl @ replicate (?new - ?old) 0"
    using foldl_clear [of ?bl "map fresh [length ?bl..<?new]"] old le by auto
  then show ?thesis
    using old le by (auto simp: bitmap_resize_def Let_def)
qed

lemma raw_bit_grow: "raw_bit (bm\<lparr>bm_blocks := bm_blocks bm @ replicate k 0, bm_length := n\<rparr>) b = raw_bit bm b"
  by (auto simp: raw_bit_def nth_append)

lemma bitmap_inv_resize:
  assumes inv: "bitmap_inv bm" and n: "bm_length bm \<le> n"
  shows "bitmap_inv (fst (bitmap_resize bm n ok fresh))"
    "bitmap_bits (fst (bitmap_resize bm n ok fresh)) = bitmap_bits bm"
proof -
  from bitmap_resize_grow [OF assms, of ok fresh]
  consider "bitmap_resize bm n ok fresh = (bm, Inl ENOMEM)"
    | k where "bitmap_resize bm n ok fresh =
        (bm\<lparr>bm_blocks := bm_blocks bm @ replicate k 0, bm_length := n\<rparr>, Inr ())"
      "length (bm_blocks bm) + k = BITMAP_INDEX (n + BITMAP_BLKSIZE - 1)" by blast
  then have "bitmap_inv (fst (bitmap_resize bm n ok fresh)) \<and>
    (\<forall>b. raw_bit (fst (bitmap_resize bm n ok fresh)) b = raw_bit bm b)"
  proof cases
    case 1
    then show ?thesis using inv by simp
  next
    case 2
    then show ?thesis
      using inv n unfolding bitmap_inv_def by (auto simp: raw_bit_grow intro: less_le_trans)
  qed
  then show inv': "bitmap_inv (fst (bitmap_resize bm n ok fresh))"
    and "bitmap_bits (fst (bitmap_resize bm n ok fresh)) = bitmap_bits bm"
    using bitmap_test_raw [OF inv] bitmap_test_raw by (auto simp: bitmap_bits_def)
qed

lemma bitmap_reachable_inv:
  "bitmap_reachable bm bits \<Longrightarrow> bitmap_inv bm \<and> bitmap_bits bm = bits"
proof (induction rule: bitmap_reachable.induct)
  case empty
  show ?case by (simp add: bitmap_inv_def raw_bit_def bitmap_bits_def bitmap_test_def bitmap_consts)
qed (auto simp: bitmap_inv_resize bitmap_inv_set)

section \<open>Properties\<close>

text \<open>
  C32: through any sequence of growing resizes (failed allocations included) and of bits set
  within the length, the bitmap holds exactly the bits that were set, the first gap is the
  first bit not set, and the bitmap counts as full exactly when every bit of it is set.
\<close>

theorem bitmap_first_gap_correct:
  assumes "bitmap_reachable bm bits"
  shows "bits = {b. bitmap_test bm b} \<and>
    (\<forall>b<bitmap_first_gap bm. b \<in> bits) \<and> bitmap_first_gap bm \<notin> bits \<and>
    (bitmap_full bm \<longleftrightarrow> (\<forall>b<bm_length bm. b \<in> bits))"
proof -
  from bitmap_reachable_inv [OF assms]
  have inv: "bitmap_inv bm" and bits: "bitmap_bits bm = bits" by auto
  have raw: "raw_bit bm b \<longleftrightarrow> b \<in> bits" for b
    using bitmap_test_raw [OF inv, of b] bits by (auto simp: bitmap_bits_def)
  have "bm_first_gap bm = bm_length bm \<longleftrightarrow> (\<forall>b<bm_length bm. b \<in> bits)"
    using inv unfolding bitmap_inv_def raw by (metis linorder_neqE_nat less_irrefl)
  then show ?thesis
    using inv bits unfolding bitmap_inv_def raw
    by (auto simp: bitmap_bits_def bitmap_first_gap_def bitmap_full_def)
qed

theorem bitmap_first_gap_correct_witness:
  "\<exists>bm. bitmap_reachable bm {0, 1} \<and> bm_length bm = 2 \<and> bitmap_full bm"
proof -
  let ?b0 = "\<lparr>bm_blocks = [], bm_length = 0, bm_first_gap = 0\<rparr> :: bitmap"
  let ?b1 = "fst (bitmap_resize ?b0 2 True (\<lambda>_. 7))"
  have 1: "bitmap_reachable ?b1 {}"
    by (rule bitmap_reachable.resize [OF bitmap_reachable.empty]) simp
  have len: "bm_length ?b1 = 2" by (simp add: bitmap_resize_def Let_def)
  have 2: "bitmap_reachable (bitmap_set ?b1 1) {1}"
    using bitmap_reachable.set_bit [OF 1, of 1] len by simp
  have len2: "bm_length (bitmap_set ?b1 1) = 2" using len by (simp add: bitmap_set_def Let_def)
  have 3: "bitmap_reachable (bitmap_set (bitmap_set ?b1 1) 0) {0, 1}"
    using bitmap_reachable.set_bit [OF 2, of 0] len2 by simp
  have len3: "bm_length (bitmap_set (bitmap_set ?b1 1) 0) = 2" using len2 by (simp add: bitmap_set_def Let_def)
  have "\<forall>b<2. b \<in> {0, 1 :: nat}" by (auto simp: less_2_cases_iff)
  with bitmap_first_gap_correct [OF 3] len3 have "bitmap_full (bitmap_set (bitmap_set ?b1 1) 0)" by simp
  with 3 len3 show ?thesis by blast
qed

text \<open>
  The restriction to growth matters: a shrunk bitmap keeps stale bits in its last block,
  which reappear when it grows again.
\<close>

lemma bitmap_shrink_keeps_bits:
  "bitmap_test (fst (bitmap_resize (fst (bitmap_resize
     \<lparr>bm_blocks = [0x20], bm_length = 8, bm_first_gap = 0\<rparr> 4 True (\<lambda>_. 0))) 8 True (\<lambda>_. 0))) 5"
  by code_simp

end
