(* ===== verification/Linebuf.thy ===== *)
theory Linebuf
  imports CString
begin

text \<open>
  Line buffering (\<open>core/linebuf.c\<close>): received data is collected up to the next line feed;
  completed lines stay in the buffer, each followed by a NUL.
\<close>

section \<open>Definitions\<close>

text \<open>
  The buffer holds \<open>len\<close> bytes and a terminator beyond them (\<open>lb_data\<close> is the list of the
  first \<open>len\<close> bytes).  The data to add is a list; \<open>memchr\<close> on it gives an index.
\<close>

record line_buffer =
  lb_data :: "u8 list"
  lb_consumed :: nat

definition memchr_list :: "u8 list \<Rightarrow> u8 \<Rightarrow> nat option" where
  "memchr_list data c =
     (if c \<in> set data then Some (length (takeWhile (\<lambda>d. d \<noteq> c) data)) else None)"

definition empty_line_buffer :: "line_buffer \<Rightarrow> line_buffer" where
  "empty_line_buffer lb = \<lparr>lb_data = [], lb_consumed = 0\<rparr>"

text \<open>The last byte must be a NUL; the line starts after the NUL before it.\<close>

definition buffered_line :: "line_buffer \<Rightarrow> u8 list option" where
  "buffered_line lb =
     (if lb_data lb = [] \<or> lb_consumed lb = 0 \<or> last (lb_data lb) \<noteq> 0 then None
      else Some (rev (takeWhile (\<lambda>c. c \<noteq> 0) (rev (butlast (lb_data lb))))))"

text \<open>
  The end of a line: the line feed is overwritten, and a carriage return before it is
  overwritten and trimmed.
\<close>

definition trim_eol :: "u8 list \<Rightarrow> u8 list" where
  "trim_eol new_data =
     (let d = new_data[length new_data - 1 := 0]
      in if length d > 1 \<and> d ! (length d - 2) = 13
         then take (length d - 1) (d[length d - 2 := 0])
         else d)"

definition line_buffer_add :: "line_buffer \<Rightarrow> u8 list \<Rightarrow> bool \<Rightarrow> line_buffer \<times> nat result" where
  "line_buffer_add lb data realloc_ok =
     (let eol = memchr_list data 10;
          consume = (case eol of Some i \<Rightarrow> i + 1 | None \<Rightarrow> length data)
      in if memchr_list (take consume data) 0 \<noteq> None then (lb, Inl EINVAL)
         else if \<not> realloc_ok then (lb, Inl ENOMEM)
         else
           (let new_data = lb_data lb @ take consume data;
                d1 = (if eol \<noteq> None then trim_eol new_data else new_data)
            in (\<lparr>lb_data = d1, lb_consumed = consume\<rparr>, Inr consume)))"

section \<open>Specification\<close>

text \<open>Splitting a byte stream into lines: the completed ones and the partial last one.\<close>

definition strip_cr :: "u8 list \<Rightarrow> u8 list" where
  "strip_cr l = (if l \<noteq> [] \<and> last l = 13 then butlast l else l)"

fun split_lines :: "u8 list \<Rightarrow> u8 list \<Rightarrow> u8 list list \<times> u8 list" where
  "split_lines part [] = ([], part)"
| "split_lines part (c # s) =
     (if c = 10 then (case split_lines [] s of (ls, p) \<Rightarrow> (strip_cr part # ls, p))
      else split_lines (part @ [c]) s)"

text \<open>
  What a consumer does with one piece of data: it calls \<open>line_buffer\<close> until the piece is
  consumed and takes each line that is ready.
\<close>

function consume_data :: "line_buffer \<Rightarrow> u8 list \<Rightarrow> line_buffer \<times> u8 list list result" where
  "consume_data lb data =
     (if data = [] then (lb, Inr [])
      else
        (case line_buffer_add lb data True of
           (lb', Inl e) \<Rightarrow> (lb', Inl e)
         | (lb', Inr n) \<Rightarrow>
             (case consume_data lb' (drop n data) of
                (lb'', Inl e) \<Rightarrow> (lb'', Inl e)
              | (lb'', Inr ls) \<Rightarrow>
                  (lb'', Inr (case buffered_line lb' of None \<Rightarrow> ls | Some l \<Rightarrow> l # ls)))))"
  by pat_completeness auto
termination
  by (relation "measure (\<lambda>(_, data). length data)")
    (auto simp: line_buffer_add_def Let_def split: if_splits option.splits)

declare consume_data.simps [simp del]

fun consume_chunks :: "line_buffer \<Rightarrow> u8 list list \<Rightarrow> line_buffer \<times> u8 list list result" where
  "consume_chunks lb [] = (lb, Inr [])"
| "consume_chunks lb (d # ds) =
     (case consume_data lb d of
        (lb', Inl e) \<Rightarrow> (lb', Inl e)
      | (lb', Inr ls) \<Rightarrow>
          (case consume_chunks lb' ds of
             (lb'', Inl e) \<Rightarrow> (lb'', Inl e)
           | (lb'', Inr ls') \<Rightarrow> (lb'', Inr (ls @ ls'))))"

text \<open>The buffer ends with a partial line: what is before it is empty or ends with a NUL.\<close>

definition has_part :: "line_buffer \<Rightarrow> u8 list \<Rightarrow> bool" where
  "has_part lb part \<longleftrightarrow>
     0 \<notin> set part \<and> (\<exists>pre. lb_data lb = pre @ part \<and> (pre = [] \<or> last pre = 0))"

section \<open>Lemmas\<close>

lemma memchr_list_at: "c \<notin> set l \<Longrightarrow> memchr_list (l @ c # r) c = Some (length l)"
proof -
  assume "c \<notin> set l"
  then have "takeWhile (\<lambda>d. d \<noteq> c) (l @ c # r) = l" by (subst takeWhile_append2) auto
  then show ?thesis by (simp add: memchr_list_def)
qed

lemma memchr_list_none: "memchr_list l c = None \<longleftrightarrow> c \<notin> set l"
  by (simp add: memchr_list_def)

lemma buffered_line_at:
  assumes "lb_data lb = pre @ l @ [0]" and "pre = [] \<or> last pre = 0" and "0 \<notin> set l"
    and "lb_consumed lb \<noteq> 0"
  shows "buffered_line lb = Some l"
proof -
  have "takeWhile (\<lambda>c. c \<noteq> 0) (rev l @ rev pre) = rev l"
  proof (cases pre rule: rev_cases)
    case Nil
    then show ?thesis using assms(3) by (auto simp: takeWhile_eq_all_conv)
  next
    case (snoc q c)
    then have "c = 0" using assms(2) by simp
    with snoc show ?thesis using assms(3) by (subst takeWhile_append2) auto
  qed
  then show ?thesis using assms by (simp add: buffered_line_def butlast_append)
qed

text \<open>Terminating a line: the line feed becomes the NUL, a carriage return before it goes.\<close>

lemma trim_eol_line:
  assumes "pre = [] \<or> last pre = 0" and "0 \<notin> set l"
  shows "trim_eol (pre @ l @ [10]) = pre @ strip_cr l @ [0]"
proof (cases l rule: rev_cases)
  case Nil
  then show ?thesis
    using assms(1)
    by (cases pre rule: rev_cases) (auto simp: trim_eol_def strip_cr_def list_update_append nth_append)
next
  case (snoc k c)
  then show ?thesis by (simp add: trim_eol_def strip_cr_def list_update_append nth_append)
qed

lemma line_buffer_line:
  assumes h: "has_part lb part" and "10 \<notin> set l" and "0 \<notin> set l"
  obtains lb' where "line_buffer_add lb (l @ 10 # rest) True = (lb', Inr (length l + 1))"
    and "buffered_line lb' = Some (strip_cr (part @ l))" and "has_part lb' []"
proof -
  obtain pre where pre: "lb_data lb = pre @ part" "pre = [] \<or> last pre = 0" "0 \<notin> set part"
    using h by (auto simp: has_part_def)
  let ?lb = "\<lparr>lb_data = pre @ strip_cr (part @ l) @ [0], lb_consumed = length l + 1\<rparr>"
  have "take (length l + 1) (l @ 10 # rest) = l @ [10]" by simp
  moreover have "0 \<notin> set (l @ [10])" using assms by simp
  ultimately have "line_buffer_add lb (l @ 10 # rest) True = (?lb, Inr (length l + 1))"
    using trim_eol_line [OF pre(2), of "part @ l"] assms pre
    by (simp add: line_buffer_add_def memchr_list_at memchr_list_none Let_def)
  moreover have "0 \<notin> set (strip_cr (part @ l))"
    using assms pre by (auto simp: strip_cr_def dest: in_set_butlastD)
  then have "buffered_line ?lb = Some (strip_cr (part @ l))"
    using pre by (intro buffered_line_at [of _ pre]) simp_all
  moreover have "has_part ?lb []" by (simp add: has_part_def)
  ultimately show ?thesis by (rule that)
qed

lemma line_buffer_part:
  assumes h: "has_part lb part" and "10 \<notin> set l" and "0 \<notin> set l" and "l \<noteq> []"
  obtains lb' where "line_buffer_add lb l True = (lb', Inr (length l))"
    and "buffered_line lb' = None" and "has_part lb' (part @ l)"
proof -
  obtain pre where pre: "lb_data lb = pre @ part" "pre = [] \<or> last pre = 0" "0 \<notin> set part"
    using h by (auto simp: has_part_def)
  let ?lb = "\<lparr>lb_data = (pre @ part) @ l, lb_consumed = length l\<rparr>"
  have eol: "memchr_list l 10 = None" "memchr_list l 0 = None"
    using assms by (simp_all add: memchr_list_none)
  then have "line_buffer_add lb l True = (?lb, Inr (length l))"
    using pre by (simp add: line_buffer_add_def Let_def)
  moreover have "last l \<noteq> 0" using assms(3,4) last_in_set by metis
  then have "buffered_line ?lb = None" using assms(4) by (simp add: buffered_line_def)
  moreover have "has_part ?lb (part @ l)" using pre assms(3) by (auto simp: has_part_def)
  ultimately show ?thesis by (rule that)
qed

lemma split_lines_no_lf: "10 \<notin> set l \<Longrightarrow> split_lines part (l @ s) = split_lines (part @ l) s"
  by (induction l arbitrary: part) auto

lemma consume_data_split:
  assumes "has_part lb part" and "0 \<notin> set data"
  shows "\<exists>lb' ls p. split_lines part data = (ls, p) \<and> consume_data lb data = (lb', Inr ls) \<and> has_part lb' p"
  using assms
proof (induction "length data" arbitrary: lb part data rule: less_induct)
  case less
  show ?case
  proof (cases "10 \<in> set data")
    case True
    then obtain l rest where d: "data = l @ 10 # rest" and l: "10 \<notin> set l"
      by (meson split_list_first)
    have z: "0 \<notin> set l" "0 \<notin> set rest" using less.prems d by auto
    obtain lb1 where 1: "line_buffer_add lb (l @ 10 # rest) True = (lb1, Inr (length l + 1))"
      "buffered_line lb1 = Some (strip_cr (part @ l))" "has_part lb1 []"
      using line_buffer_line [OF less.prems(1) l z(1)] by blast
    obtain lb' ls p where r: "split_lines [] rest = (ls, p)" "consume_data lb1 rest = (lb', Inr ls)" "has_part lb' p"
      using less.hyps [of rest lb1 "[]"] 1(3) z d by auto
    have "consume_data lb data = (lb', Inr (strip_cr (part @ l) # ls))"
      using 1 r by (simp add: d consume_data.simps [of lb])
    moreover have "split_lines part data = (strip_cr (part @ l) # ls, p)"
      using r by (simp add: d split_lines_no_lf l)
    ultimately show ?thesis using r by blast
  next
    case False
    show ?thesis
    proof (cases "data = []")
      case True
      then show ?thesis using less.prems by (simp add: consume_data.simps)
    next
      case ne: False
      obtain lb1 where 1: "line_buffer_add lb data True = (lb1, Inr (length data))"
        "buffered_line lb1 = None" "has_part lb1 (part @ data)"
        using line_buffer_part [OF less.prems(1) False less.prems(2) ne] by blast
      then have "consume_data lb data = (lb1, Inr [])"
        using ne by (simp add: consume_data.simps [of lb] consume_data.simps [of lb1])
      moreover have "split_lines part data = ([], part @ data)"
        using split_lines_no_lf [OF False, of part "[]"] by simp
      ultimately show ?thesis using 1 by blast
    qed
  qed
qed

lemma split_lines_append:
  "split_lines part (a @ b) =
     (case split_lines part a of (ls, p) \<Rightarrow> case split_lines p b of (ls', p') \<Rightarrow> (ls @ ls', p'))"
  by (induction part a rule: split_lines.induct) (auto split: prod.splits)

lemma consume_chunks_split:
  assumes "has_part lb part" and "\<forall>d\<in>set ds. 0 \<notin> set d"
  shows "\<exists>lb' ls p. split_lines part (concat ds) = (ls, p) \<and> consume_chunks lb ds = (lb', Inr ls) \<and> has_part lb' p"
  using assms
proof (induction ds arbitrary: lb part)
  case Nil
  then show ?case by simp
next
  case (Cons d ds)
  obtain lb1 ls p where 1: "split_lines part d = (ls, p)" "consume_data lb d = (lb1, Inr ls)" "has_part lb1 p"
    using consume_data_split [OF Cons.prems(1), of d] Cons.prems(2) by auto
  obtain lb2 ls' p' where 2: "split_lines p (concat ds) = (ls', p')" "consume_chunks lb1 ds = (lb2, Inr ls')" "has_part lb2 p'"
    using Cons.IH [OF 1(3)] Cons.prems(2) by auto
  from 1 2 show ?case by (simp add: split_lines_append)
qed

section \<open>Properties\<close>

text \<open>
  C29: the lines delivered by the line buffer depend only on the byte stream, not on how it
  is cut into pieces: they are the text between line feeds, each without its carriage
  return, whether a terminator arrives whole or split across two pieces.
\<close>

theorem line_buffer_chunking:
  assumes "\<forall>d\<in>set ds. 0 \<notin> set d"
  shows "snd (consume_chunks (empty_line_buffer lb) ds) = Inr (fst (split_lines [] (concat ds)))"
  using consume_chunks_split [of "empty_line_buffer lb" "[]" ds] assms
  by (auto simp: has_part_def empty_line_buffer_def)

theorem line_buffer_chunking_witness:
  "snd (consume_chunks (empty_line_buffer \<lparr>lb_data = [1], lb_consumed = 1\<rparr>)
     [cs ''GET '' , [47, 13], [10, 65, 10, 66]]) = Inr [cs ''GET /'', [65]]"
proof -
  have "\<forall>d\<in>set [cs ''GET '' , [47, 13], [10, 65, 10, 66]]. 0 \<notin> set d" by simp
  moreover have "fst (split_lines [] (concat [cs ''GET '' , [47, 13], [10, 65, 10, 66]])) = [cs ''GET /'', [65]]"
    by (simp add: strip_cr_def)
  ultimately show ?thesis
    using line_buffer_chunking [of "[cs ''GET '' , [47, 13], [10, 65, 10, 66]]" "\<lparr>lb_data = [1], lb_consumed = 1\<rparr>"] by metis
qed

end
