(* ===== verification/Utf8.thy ===== *)
theory Utf8
  imports Prelude
begin

text \<open>
  The UTF-8 accumulator of the console (\<open>core/utf8.c\<close>, \<open>include/ipxe/utf8.h\<close>): a byte at a
  time, it returns the completed character, zero while one is incomplete, or the
  replacement character.
\<close>

section \<open>Definitions\<close>

definition UTF8_MAX_LEN :: nat where "UTF8_MAX_LEN = 4"
definition UTF8_MIN_TWO :: u32 where "UTF8_MIN_TWO = 0x80"
definition UTF8_MIN_THREE :: u32 where "UTF8_MIN_THREE = 0x800"
definition UTF8_MIN_FOUR :: u32 where "UTF8_MIN_FOUR = 0x10000"
definition UTF8_HIGH_BIT :: u8 where "UTF8_HIGH_BIT = 0x80"
definition UTF8_CONTINUATION_BITS :: nat where "UTF8_CONTINUATION_BITS = 6"
definition UTF8_CONTINUATION_MASK :: u8 where "UTF8_CONTINUATION_MASK = push_bit 6 1 - 1"
definition UTF8_CONTINUATION :: u8 where "UTF8_CONTINUATION = 0x80"
definition UTF8_INVALID :: u32 where "UTF8_INVALID = 0xfffd"

lemmas utf8_consts = UTF8_MAX_LEN_def UTF8_MIN_TWO_def UTF8_MIN_THREE_def UTF8_MIN_FOUR_def
  UTF8_HIGH_BIT_def UTF8_CONTINUATION_BITS_def UTF8_CONTINUATION_MASK_def UTF8_CONTINUATION_def
  UTF8_INVALID_def

definition UTF8_IS_CONTINUATION :: "u8 \<Rightarrow> bool" where
  "UTF8_IS_CONTINUATION byte \<longleftrightarrow> byte AND NOT UTF8_CONTINUATION_MASK = UTF8_CONTINUATION"

definition UTF8_IS_ASCII :: "u8 \<Rightarrow> bool" where
  "UTF8_IS_ASCII byte \<longleftrightarrow> \<not> (byte AND UTF8_HIGH_BIT \<noteq> 0)"

record utf8_accumulator =
  u8_character :: u32
  u8_remaining :: nat
  u8_min :: u32

text \<open>
  The loop that counts the leading ones shifts them out; it ends because the byte becomes
  zero.
\<close>

lemma shift_out_less:
  fixes tmp :: u8
  assumes "tmp \<noteq> 0"
  shows "(LEAST k. push_bit k (push_bit 1 tmp) = 0) < (LEAST k. push_bit k tmp = 0)"
proof -
  have "push_bit 8 tmp = 0" by (rule bit_word_eqI) (simp add: bit_simps)
  then have "push_bit (LEAST k. push_bit k tmp = 0) tmp = 0" by (rule LeastI)
  moreover have "(LEAST k. push_bit k tmp = 0) \<noteq> 0" using calculation assms by (metis push_bit_0_id id_apply)
  then obtain j where j: "(LEAST k. push_bit k tmp = 0) = Suc j" by (metis not0_implies_Suc)
  ultimately have "push_bit j (push_bit 1 tmp) = 0" by (simp add: push_bit_push_bit)
  then have "(LEAST k. push_bit k (push_bit 1 tmp) = 0) \<le> j" by (rule Least_le)
  with j show ?thesis by simp
qed

function utf8_leading :: "u8 \<Rightarrow> nat \<Rightarrow> u8 \<times> nat" where
  "utf8_leading tmp len =
     (if tmp AND UTF8_HIGH_BIT \<noteq> 0 then utf8_leading (push_bit 1 tmp) (len + 1) else (tmp, len))"
  by pat_completeness auto
termination
proof (relation "measure (\<lambda>(tmp, _). LEAST k. push_bit k tmp = 0)")
  fix tmp :: u8 and len :: nat
  assume "tmp AND UTF8_HIGH_BIT \<noteq> 0"
  then have "tmp \<noteq> 0" by auto
  from shift_out_less [OF this]
  show "((push_bit 1 tmp, len + 1), tmp, len) \<in> measure (\<lambda>(tmp, _). LEAST k. push_bit k tmp = 0)"
    by (simp only: in_measure prod.case)
qed simp

declare utf8_leading.simps [simp del]

definition utf8_min_table :: "u32 list" where
  "utf8_min_table = [UTF8_MIN_TWO, UTF8_MIN_THREE, UTF8_MIN_FOUR]"

definition utf8_accumulate :: "utf8_accumulator \<Rightarrow> u8 \<Rightarrow> utf8_accumulator \<times> u32" where
  "utf8_accumulate utf8 byte =
     (if UTF8_IS_CONTINUATION byte then
        (if u8_remaining utf8 = 0 then (utf8, UTF8_INVALID)
         else
           (let character = push_bit UTF8_CONTINUATION_BITS (u8_character utf8) OR
                              ucast (byte AND UTF8_CONTINUATION_MASK);
                utf8 = utf8\<lparr>u8_character := character, u8_remaining := u8_remaining utf8 - 1\<rparr>
            in if u8_remaining utf8 \<noteq> 0 then (utf8, 0)
               else if character < u8_min utf8 then (utf8, UTF8_INVALID)
               else (utf8, character)))
      else
        (let utf8 = utf8\<lparr>u8_remaining := 0\<rparr>
         in if \<not> UTF8_IS_ASCII byte
            then (case utf8_leading byte 0 of
                    (tmp, len) \<Rightarrow>
                      if len > UTF8_MAX_LEN then (utf8, UTF8_INVALID)
                      else (utf8\<lparr>u8_character := ucast (drop_bit len tmp), u8_remaining := len - 1,
                                 u8_min := utf8_min_table ! (len - 1 - 1)\<rparr>, 0))
            else (utf8, ucast byte)))"

section \<open>Specification\<close>

text \<open>The encoding of a code point (up to four bytes).\<close>

definition cont_byte :: "u32 \<Rightarrow> nat \<Rightarrow> u8" where
  "cont_byte c n = 0x80 OR ucast (take_bit 6 (drop_bit (6 * n) c))"

definition utf8_encode :: "u32 \<Rightarrow> u8 list" where
  "utf8_encode c =
     (if c < 0x80 then [ucast c]
      else if c < 0x800 then [0xc0 OR ucast (drop_bit 6 c), cont_byte c 0]
      else if c < 0x10000 then [0xe0 OR ucast (drop_bit 12 c), cont_byte c 1, cont_byte c 0]
      else [0xf0 OR ucast (drop_bit 18 c), cont_byte c 2, cont_byte c 1, cont_byte c 0])"

fun utf8_run :: "utf8_accumulator \<Rightarrow> u8 list \<Rightarrow> utf8_accumulator \<times> u32 list" where
  "utf8_run utf8 [] = (utf8, [])"
| "utf8_run utf8 (b # bs) =
     (case utf8_accumulate utf8 b of
        (utf8', c) \<Rightarrow> case utf8_run utf8' bs of
          (utf8'', rs) \<Rightarrow> (utf8'', if c = 0 then rs else c # rs))"

section \<open>Lemmas\<close>

text \<open>The byte classes: a first byte announces the length of the sequence.\<close>

definition first_byte :: "nat \<Rightarrow> u8 \<Rightarrow> u8 \<Rightarrow> bool" where
  "first_byte k b y \<longleftrightarrow>
     \<not> UTF8_IS_CONTINUATION b \<and> \<not> UTF8_IS_ASCII b \<and> utf8_leading b 0 = (push_bit k b, k) \<and>
     drop_bit k (push_bit k b) = y"

lemma first_bytes:
  "unat y < 32 \<Longrightarrow> first_byte 2 (0xc0 OR y) y"
  "unat y < 16 \<Longrightarrow> first_byte 3 (0xe0 OR y) y"
  "unat y < 8 \<Longrightarrow> first_byte 4 (0xf0 OR y) y"
  by (erule u8_below, code_simp)+

lemma cont_bytes:
  "unat y < 64 \<Longrightarrow> UTF8_IS_CONTINUATION (0x80 OR y) \<and> (0x80 OR y) AND UTF8_CONTINUATION_MASK = y"
  by (erule u8_below) code_simp

lemma ascii_bytes: "unat y < 128 \<Longrightarrow> \<not> UTF8_IS_CONTINUATION y \<and> UTF8_IS_ASCII y"
  by (erule u8_below) code_simp

lemma ucast_small:
  assumes "unat w < 256"
  shows "unat (ucast (w :: u32) :: u8) = unat w" "ucast (ucast w :: u8) = w"
proof -
  show 1: "unat (ucast w :: u8) = unat w"
    using assms by (simp add: unsigned_ucast_eq take_bit_nat_eq_self)
  have "unat (ucast (ucast w :: u8) :: u32) = unat w"
    using 1 by (simp add: unat_ucast_up)
  then show "ucast (ucast w :: u8) = w" by (simp only: word_unat_eq_iff)
qed

text \<open>A continuation byte moves six bits into the character.\<close>

lemma accumulate_cont:
  assumes "u8_remaining st = n + 1" and "u8_character st = drop_bit (6 * (n + 1)) c"
  shows "utf8_accumulate st (cont_byte c n) =
    (st\<lparr>u8_character := drop_bit (6 * n) c, u8_remaining := n\<rparr>,
     if n \<noteq> 0 then 0 else if c < u8_min st then UTF8_INVALID else c)"
proof -
  let ?x = "take_bit 6 (drop_bit (6 * n) c)"
  have "unat ?x < 64"
    using take_bit_nat_less_exp [of 6 "unat (drop_bit (6 * n) c)"] by (simp add: unsigned_take_bit_eq)
  then have "unat (ucast ?x :: u8) < 64" "ucast (ucast ?x :: u8) = ?x"
    by (simp_all add: ucast_small)
  then have k: "UTF8_IS_CONTINUATION (cont_byte c n)"
    "ucast (cont_byte c n AND UTF8_CONTINUATION_MASK) = ?x"
    using cont_bytes [of "ucast ?x"] by (simp_all add: cont_byte_def)
  have "push_bit 6 (drop_bit (6 * (n + 1)) c) OR ?x = drop_bit (6 * n) c"
    by (rule bit_word_eqI) (auto simp: bit_simps algebra_simps not_less)
  with k assms show ?thesis
    by (simp add: utf8_accumulate_def Let_def UTF8_CONTINUATION_BITS_def)
qed

text \<open>A first byte starts a character, whatever came before it.\<close>

lemma accumulate_first:
  assumes "first_byte k b y" and "2 \<le> k" and "k \<le> 4"
  shows "utf8_accumulate st b =
    (st\<lparr>u8_remaining := k - 1, u8_character := ucast y, u8_min := utf8_min_table ! (k - 2)\<rparr>, 0)"
  using assms by (simp add: first_byte_def utf8_accumulate_def Let_def UTF8_MAX_LEN_def numeral_2_eq_2)

lemma unat_drop_bit_u32: "unat (drop_bit n (c :: u32)) = unat c div 2 ^ n"
  by (simp add: unat_drop_bit)

lemma utf8_run_encode:
  assumes "0 < c" and "c < 0x200000"
  shows "\<exists>st'. utf8_run st (utf8_encode c @ bs) = (case utf8_run st' bs of (st'', rs) \<Rightarrow> (st'', c # rs))"
proof -
  have nz: "c \<noteq> 0" using assms(1) by auto
  consider "c < 0x80" | "\<not> c < 0x80" "c < 0x800" | "\<not> c < 0x80" "\<not> c < 0x800" "c < 0x10000"
    | "\<not> c < 0x80" "\<not> c < 0x800" "\<not> c < 0x10000" by blast
  then show ?thesis
  proof cases
    case 1
    then have "unat c < 256" and lt: "unat (ucast c :: u8) < 128"
      by (simp_all add: word_less_nat_alt ucast_small)
    then have "utf8_accumulate st (ucast c) = (st\<lparr>u8_remaining := 0\<rparr>, c)"
      using ascii_bytes [OF lt] by (simp add: utf8_accumulate_def Let_def ucast_small)
    then show ?thesis
      using 1 nz by (intro exI [of _ "st\<lparr>u8_remaining := 0\<rparr>"]) (simp add: utf8_encode_def split: prod.split)
  next
    case 2
    let ?w = "drop_bit 6 c"
    have "unat ?w < 32" using 2(2) by (simp add: unat_drop_bit_u32 word_less_nat_alt)
    then have y: "unat (ucast ?w :: u8) < 32" and w: "ucast (ucast ?w :: u8) = ?w"
      by (simp_all add: ucast_small)
    have a: "utf8_accumulate st (0xc0 OR ucast ?w) =
        (st\<lparr>u8_remaining := 1, u8_character := ?w, u8_min := 0x80\<rparr>, 0)"
      using accumulate_first [OF first_bytes(1) [OF y], of st] w
      by (simp add: utf8_min_table_def utf8_consts)
    have b: "utf8_accumulate (st\<lparr>u8_remaining := 1, u8_character := ?w, u8_min := 0x80\<rparr>) (cont_byte c 0) =
        (st\<lparr>u8_remaining := 0, u8_character := c, u8_min := 0x80\<rparr>, c)"
      using accumulate_cont [of "st\<lparr>u8_remaining := 1, u8_character := ?w, u8_min := 0x80\<rparr>" 0 c] 2 by simp
    show ?thesis
      using 2 nz by (intro exI [of _ "st\<lparr>u8_remaining := 0, u8_character := c, u8_min := 0x80\<rparr>"])
        (simp add: utf8_encode_def a b del: One_nat_def split: prod.split)
  next
    case 3
    let ?w = "drop_bit 12 c"
    have "unat ?w < 16" using 3(3) by (simp add: unat_drop_bit_u32 word_less_nat_alt)
    then have y: "unat (ucast ?w :: u8) < 16" and w: "ucast (ucast ?w :: u8) = ?w"
      by (simp_all add: ucast_small)
    let ?st = "\<lambda>r ch. st\<lparr>u8_remaining := r, u8_character := ch, u8_min := 0x800\<rparr>"
    have a: "utf8_accumulate st (0xe0 OR ucast ?w) = (?st 2 ?w, 0)"
      using accumulate_first [OF first_bytes(2) [OF y], of st] w
      by (simp add: utf8_min_table_def utf8_consts)
    have b: "utf8_accumulate (?st 2 ?w) (cont_byte c 1) = (?st 1 (drop_bit 6 c), 0)"
      using accumulate_cont [of "?st 2 ?w" 1 c] by simp
    have d: "utf8_accumulate (?st 1 (drop_bit 6 c)) (cont_byte c 0) = (?st 0 c, c)"
      using accumulate_cont [of "?st 1 (drop_bit 6 c)" 0 c] 3 by simp
    show ?thesis
      using 3 nz by (intro exI [of _ "?st 0 c"]) (simp add: utf8_encode_def a b d del: One_nat_def split: prod.split)
  next
    case 4
    let ?w = "drop_bit 18 c"
    have "unat ?w < 8" using assms(2) by (simp add: unat_drop_bit_u32 word_less_nat_alt)
    then have y: "unat (ucast ?w :: u8) < 8" and w: "ucast (ucast ?w :: u8) = ?w"
      by (simp_all add: ucast_small)
    let ?st = "\<lambda>r ch. st\<lparr>u8_remaining := r, u8_character := ch, u8_min := 0x10000\<rparr>"
    have a: "utf8_accumulate st (0xf0 OR ucast ?w) = (?st 3 ?w, 0)"
      using accumulate_first [OF first_bytes(3) [OF y], of st] w
      by (simp add: utf8_min_table_def utf8_consts)
    have b: "utf8_accumulate (?st 3 ?w) (cont_byte c 2) = (?st 2 (drop_bit 12 c), 0)"
      using accumulate_cont [of "?st 3 ?w" 2 c] by simp
    have d: "utf8_accumulate (?st 2 (drop_bit 12 c)) (cont_byte c 1) = (?st 1 (drop_bit 6 c), 0)"
      using accumulate_cont [of "?st 2 (drop_bit 12 c)" 1 c] by simp
    have e: "utf8_accumulate (?st 1 (drop_bit 6 c)) (cont_byte c 0) = (?st 0 c, c)"
      using accumulate_cont [of "?st 1 (drop_bit 6 c)" 0 c] 4 by simp
    show ?thesis
      using 4 nz by (intro exI [of _ "?st 0 c"]) (simp add: utf8_encode_def a b d e del: One_nat_def split: prod.split)
  qed
qed

section \<open>Properties\<close>

text \<open>
  C28: decoding inverts encoding and resynchronises: from every state of the accumulator, in
  the middle of a broken sequence included, the encoding of a text (without NULs, any code
  point that four bytes can hold) yields exactly its characters.
\<close>

theorem utf8_decode_encode:
  assumes "\<forall>c\<in>set ucs. 0 < c \<and> c < 0x200000"
  shows "snd (utf8_run st (concat (map utf8_encode ucs))) = ucs"
  using assms
proof (induction ucs arbitrary: st)
  case Nil
  then show ?case by simp
next
  case (Cons c ucs)
  then obtain st' where "utf8_run st (utf8_encode c @ concat (map utf8_encode ucs)) =
      (case utf8_run st' (concat (map utf8_encode ucs)) of (st'', rs) \<Rightarrow> (st'', c # rs))"
    using utf8_run_encode by fastforce
  with Cons show ?case by (auto split: prod.split) (metis snd_conv)
qed

theorem utf8_decode_encode_witness:
  "snd (utf8_run \<lparr>u8_character = 5, u8_remaining = 2, u8_min = 0x800\<rparr>
     (concat (map utf8_encode [0x41, 0xe9, 0x20ac, 0x1f600]))) = [0x41, 0xe9, 0x20ac, 0x1f600]"
  by (rule utf8_decode_encode) simp

end
