(* ===== verification/Ansiesc.thy ===== *)
theory Ansiesc
  imports Prelude
begin

text \<open>
  ANSI escape sequences (core/ansiesc.c, include/ipxe/ansiesc.h): the filter that the console
  drivers put between a character stream and the screen.  It plucks control sequences out of the
  stream, one character per call, and dispatches each complete sequence to the handler registered
  for its control function.

  A character is the C \<open>int\<close> the caller passes; the parameters are C \<open>int\<close>s kept as 32-bit words
  (the code's signed overflow on overlong numbers is the wrap-around of the word).  Handlers are
  function pointers of the console drivers: \<^term>\<open>ansiesc_process\<close> returns the call it makes, that
  is the handler, the parameter count and the parameter array, or \<open>None\<close>.
\<close>

section \<open>State and operations\<close>

definition ANSIESC_MAX_PARAMS :: nat where
  "ANSIESC_MAX_PARAMS = 5"

definition ESC :: int where
  "ESC = 0x1b"

record 'h ansiesc_handler =
  ah_function :: u32
  ah_handle :: 'h

record 'h ansiesc_context =
  ac_handlers :: "'h ansiesc_handler list"
  ac_count :: u32
  ac_params :: "u32 list"
  ac_function :: u32

type_synonym 'h ansiesc_call = "'h \<times> u32 \<times> u32 list"

text \<open>The handler table ends at the first entry whose function is zero.\<close>

fun ansiesc_call_handler ::
  "'h ansiesc_handler list \<Rightarrow> u32 \<Rightarrow> u32 \<Rightarrow> u32 list \<Rightarrow> 'h ansiesc_call option" where
  "ansiesc_call_handler [] f count params = None"
| "ansiesc_call_handler (handler # handlers) f count params =
     (if ah_function handler = 0 then None
      else if ah_function handler = f then Some (ah_handle handler, count, params)
      else ansiesc_call_handler handlers f count params)"

definition ansiesc_process ::
  "'h ansiesc_context \<Rightarrow> int \<Rightarrow> 'h ansiesc_context \<times> int \<times> 'h ansiesc_call option" where
  "ansiesc_process ctx c =
     (if ac_count ctx = 0 then
        if c = ESC then
          (ctx\<lparr>ac_count := 1, ac_params := replicate ANSIESC_MAX_PARAMS (-1), ac_function := 0\<rparr>,
           -1, None)
        else (ctx, c, None)
      else if c = 0x5b then (ctx, -1, None)
      else if 0x30 \<le> c \<and> c \<le> 0x39 then
        let i = unat (ac_count ctx - 1);
            param = (if sint (ac_params ctx ! i) < 0 then 0 else ac_params ctx ! i)
        in (ctx\<lparr>ac_params := (ac_params ctx)[i := param * 10 + word_of_int (c - 0x30)]\<rparr>, -1, None)
      else if c = 0x3b then
        let count = ac_count ctx + 1
        in (ctx\<lparr>ac_count := if unat count > ANSIESC_MAX_PARAMS then 0 else count\<rparr>, -1, None)
      else if (0x20 \<le> c \<and> c \<le> 0x2f) \<or> c = 0x3f then
        (ctx\<lparr>ac_function := push_bit 8 (ac_function ctx) OR word_of_int c\<rparr>, -1, None)
      else
        let count = ac_count ctx;
            f = push_bit 8 (ac_function ctx) OR word_of_int c
        in (ctx\<lparr>ac_count := 0, ac_function := f\<rparr>, -1,
            ansiesc_call_handler (ac_handlers ctx) f count (ac_params ctx)))"

text \<open>A console feeds the filter a stream: the characters that pass and the calls made.\<close>

fun ansiesc_run ::
  "'h ansiesc_context \<Rightarrow> int list \<Rightarrow> 'h ansiesc_context \<times> int list \<times> 'h ansiesc_call list" where
  "ansiesc_run ctx [] = (ctx, [], [])"
| "ansiesc_run ctx (c # rest) =
     (case ansiesc_process ctx c of (ctx1, ret, call) \<Rightarrow>
        case ansiesc_run ctx1 rest of (ctx2, out, calls) \<Rightarrow>
          (ctx2, (if 0 \<le> ret then ret # out else out),
           (case call of None \<Rightarrow> calls | Some d \<Rightarrow> d # calls)))"

section \<open>The parameter array is never indexed out of range\<close>

text \<open>
  The index \<open>count - 1\<close> of a parameter byte is inside the array after every stream of characters.
\<close>

definition ansiesc_ok :: "'h ansiesc_context \<Rightarrow> bool" where
  "ansiesc_ok ctx \<longleftrightarrow>
     unat (ac_count ctx) \<le> ANSIESC_MAX_PARAMS \<and>
     (ac_count ctx \<noteq> 0 \<longrightarrow> length (ac_params ctx) = ANSIESC_MAX_PARAMS)"

lemma ansiesc_ok_process:
  "ansiesc_ok ctx \<Longrightarrow> ansiesc_ok (fst (ansiesc_process ctx c))"
  by (simp add: ansiesc_ok_def ansiesc_process_def Let_def ANSIESC_MAX_PARAMS_def)

lemma ansiesc_ok_index:
  assumes "ansiesc_ok ctx" and "ac_count ctx \<noteq> 0"
  shows "unat (ac_count ctx - 1) < length (ac_params ctx)"
proof -
  have "0 < unat (ac_count ctx)" using assms(2) by (simp add: unat_gt_0)
  then show ?thesis
    using assms by (auto simp: ansiesc_ok_def ANSIESC_MAX_PARAMS_def unat_minus_one)
qed

section \<open>Sequences\<close>

text \<open>
  What a stream means: plain characters, and control sequences \<open>ESC [\<close> with up to five parameters
  separated by semicolons, intermediate bytes and a final byte.  A parameter is a string of decimal
  digits; the empty string stands for an absent parameter, which a handler sees as -1.
\<close>

datatype ansi_item =
    Plain int
  | Seq "nat list list" "int list" int

definition digit_char :: "nat \<Rightarrow> int" where
  "digit_char d = 0x30 + int d"

fun semicolons :: "int list list \<Rightarrow> int list" where
  "semicolons [] = []"
| "semicolons [p] = p"
| "semicolons (p # ps) = p @ [0x3b] @ semicolons ps"

fun item_chars :: "ansi_item \<Rightarrow> int list" where
  "item_chars (Plain c) = [c]"
| "item_chars (Seq ps inters f) =
     [ESC, 0x5b] @ semicolons (map (map digit_char) ps) @ inters @ [f]"

definition param_value :: "nat list \<Rightarrow> u32" where
  "param_value ds =
     (if ds = [] then -1 else word_of_nat (foldl (\<lambda>v d. 10 * v + d) 0 ds))"

definition function_id :: "int list \<Rightarrow> u32" where
  "function_id chars = foldl (\<lambda>f c. push_bit 8 f OR word_of_int c) 0 chars"

definition inter_char :: "int \<Rightarrow> bool" where
  "inter_char c \<longleftrightarrow> (0x20 \<le> c \<and> c \<le> 0x2f) \<or> c = 0x3f"

definition final_char :: "int \<Rightarrow> bool" where
  "final_char c \<longleftrightarrow> 0x40 \<le> c \<and> c \<le> 0x7e \<and> c \<noteq> 0x5b"

definition digits_ok :: "nat list \<Rightarrow> bool" where
  "digits_ok ds \<longleftrightarrow> list_all (\<lambda>d. d < 10) ds \<and> foldl (\<lambda>v d. 10 * v + d) 0 ds < 2 ^ 31"

fun item_ok :: "ansi_item \<Rightarrow> bool" where
  "item_ok (Plain c) \<longleftrightarrow> 0 \<le> c \<and> c \<noteq> ESC"
| "item_ok (Seq ps inters f) \<longleftrightarrow>
     0 < length ps \<and> length ps \<le> ANSIESC_MAX_PARAMS \<and>
     list_all digits_ok ps \<and>
     list_all inter_char inters \<and> final_char f"

fun item_output :: "ansi_item \<Rightarrow> int list" where
  "item_output (Plain c) = [c]"
| "item_output (Seq ps inters f) = []"

fun item_call :: "'h ansiesc_handler list \<Rightarrow> ansi_item \<Rightarrow> 'h ansiesc_call list" where
  "item_call handlers (Plain c) = []"
| "item_call handlers (Seq ps inters f) =
     (case ansiesc_call_handler handlers (function_id (inters @ [f])) (word_of_nat (length ps))
             (map param_value ps @ replicate (ANSIESC_MAX_PARAMS - length ps) (-1)) of
        None \<Rightarrow> [] | Some call \<Rightarrow> [call])"

lemma ansiesc_run_append:
  "ansiesc_run ctx (xs @ ys) =
     (case ansiesc_run ctx xs of (ctx1, out1, calls1) \<Rightarrow>
        case ansiesc_run ctx1 ys of (ctx2, out2, calls2) \<Rightarrow> (ctx2, out1 @ out2, calls1 @ calls2))"
  by (induction xs arbitrary: ctx) (simp_all split: prod.splits option.splits)

text \<open>A string of digits accumulates into the current parameter.\<close>

definition param_acc :: "u32 \<Rightarrow> nat list \<Rightarrow> u32" where
  "param_acc = foldl (\<lambda>p d. (if sint p < 0 then 0 else p) * 10 + word_of_nat d)"

lemma foldl_digits_mono: "v \<le> foldl (\<lambda>v d. 10 * v + d) v (ds :: nat list)"
proof (induction ds arbitrary: v)
  case (Cons d ds)
  show ?case using Cons [of "10 * v + d"] by simp
qed simp

lemma param_acc_digits:
  "foldl (\<lambda>v d. 10 * v + d) v ds < 2 ^ 31 \<Longrightarrow>
   param_acc (word_of_nat v) ds = word_of_nat (foldl (\<lambda>v d. 10 * v + d) v ds)"
proof (induction ds arbitrary: v)
  case (Cons d ds)
  have "v \<le> 10 * v + d" by simp
  also have "\<dots> \<le> foldl (\<lambda>v d. 10 * v + d) (10 * v + d) ds" by (rule foldl_digits_mono)
  finally have "v < 2 ^ 31" using Cons.prems by simp
  then have "\<not> sint (word_of_nat v :: u32) < 0" by (simp add: sint_of_nat_u32)
  then show ?case using Cons.IH [of "10 * v + d"] Cons.prems
    by (simp add: param_acc_def mult.commute)
qed (simp add: param_acc_def)

lemma param_acc_value:
  assumes "foldl (\<lambda>v d. 10 * v + d) 0 ds < 2 ^ 31"
  shows "param_acc (-1) ds = param_value ds"
proof (cases ds)
  case (Cons d rest)
  have "param_acc (-1) ds = param_acc (word_of_nat 0) ds"
    by (simp add: Cons param_acc_def)
  then show ?thesis using param_acc_digits [OF assms] Cons by (simp add: param_value_def)
qed (simp add: param_acc_def param_value_def)

lemma ansiesc_run_digits:
  assumes "ac_count ctx \<noteq> 0" and "i = unat (ac_count ctx - 1)" and "i < length (ac_params ctx)"
    and "list_all (\<lambda>d. d < 10) ds"
  shows "ansiesc_run ctx (map digit_char ds) =
    (ctx\<lparr>ac_params := (ac_params ctx)[i := param_acc (ac_params ctx ! i) ds]\<rparr>, [], [])"
  using assms
proof (induction ds arbitrary: ctx)
  case Nil
  then show ?case by (simp add: param_acc_def)
next
  case (Cons d ds)
  let ?p = "(if sint (ac_params ctx ! i) < 0 then 0 else ac_params ctx ! i) * 10 + word_of_nat d"
  let ?ctx = "ctx\<lparr>ac_params := (ac_params ctx)[i := ?p]\<rparr>"
  have step: "ansiesc_process ctx (digit_char d) = (?ctx, -1, None)"
    using Cons.prems by (simp add: ansiesc_process_def digit_char_def Let_def)
  show ?case
    using Cons.IH [of ?ctx] Cons.prems by (simp add: step param_acc_def)
qed

lemma ansiesc_run_inters:
  "ac_count ctx \<noteq> 0 \<Longrightarrow> list_all inter_char cs0 \<Longrightarrow>
   ansiesc_run ctx cs0 =
     (ctx\<lparr>ac_function := foldl (\<lambda>f c. push_bit 8 f OR word_of_int c) (ac_function ctx) cs0\<rparr>, [], [])"
proof (induction cs0 arbitrary: ctx)
  case (Cons c cs0)
  then show ?case by (auto simp: ansiesc_process_def inter_char_def)
qed simp

lemma ansiesc_semicolon:
  assumes "unat (ac_count ctx) < ANSIESC_MAX_PARAMS" and "ac_count ctx \<noteq> 0"
  shows "ansiesc_process ctx 0x3b = (ctx\<lparr>ac_count := ac_count ctx + 1\<rparr>, -1, None)"
proof -
  have "unat (ac_count ctx + 1) = Suc (unat (ac_count ctx))"
    using assms(1) by (simp add: ANSIESC_MAX_PARAMS_def unat_word_ariths)
  then show ?thesis using assms by (simp add: ansiesc_process_def Let_def)
qed

lemma ansiesc_run_param:
  assumes "digits_ok ds" and "n < ANSIESC_MAX_PARAMS"
    and "ac_count ctx = word_of_nat (Suc n)"
    and "ac_params ctx = pre @ (-1) # post" and "length pre = n"
  shows "ansiesc_run ctx (map digit_char ds) =
    (ctx\<lparr>ac_params := pre @ param_value ds # post\<rparr>, [], [])"
proof -
  have "unat (word_of_nat (Suc n) :: u32) = Suc n"
    using assms(2) by (simp add: ANSIESC_MAX_PARAMS_def unat_of_nat_u32 del: of_nat_Suc)
  then have c: "unat (ac_count ctx) = Suc n" using assms(3) by simp
  then have "ac_count ctx \<noteq> 0" by auto
  with c have "n = unat (ac_count ctx - 1)" "ac_count ctx \<noteq> 0"
    by (simp_all add: unat_minus_one)
  note run = ansiesc_run_digits [OF this(2) this(1), of ds]
  have "n < length (ac_params ctx)" "ac_params ctx ! n = -1"
    "(ac_params ctx)[n := x] = pre @ x # post" for x
    using assms(4) by (simp_all add: nth_append list_update_append flip: assms(5))
  then show ?thesis
    using run assms(1) by (simp add: digits_ok_def param_acc_value)
qed

lemma ansiesc_run_params:
  assumes "ps \<noteq> []" and "list_all digits_ok ps" and "length pre + length ps \<le> ANSIESC_MAX_PARAMS"
    and "ac_count ctx = word_of_nat (Suc (length pre))"
    and "ac_params ctx = pre @ replicate (ANSIESC_MAX_PARAMS - length pre) (-1)"
  shows "ansiesc_run ctx (semicolons (map (map digit_char) ps)) =
    (ctx\<lparr>ac_count := word_of_nat (length pre + length ps),
         ac_params := pre @ map param_value ps @
                      replicate (ANSIESC_MAX_PARAMS - length pre - length ps) (-1)\<rparr>, [], [])"
  using assms
proof (induction ps arbitrary: pre ctx)
  case (Cons ds ps)
  define n where "n = length pre"
  define k where "k = ANSIESC_MAX_PARAMS - n - 1"
  let ?ctx = "ctx\<lparr>ac_params := pre @ param_value ds # replicate k (-1)\<rparr>"
  have n: "n < ANSIESC_MAX_PARAMS" using Cons.prems(3) by (simp add: n_def)
  then have r: "replicate (ANSIESC_MAX_PARAMS - length pre) (-1 :: u32) = (-1) # replicate k (-1)"
    by (simp add: k_def n_def flip: replicate_Suc)
  have one: "ansiesc_run ctx (map digit_char ds) = (?ctx, [], [])"
    using Cons.prems n by (intro ansiesc_run_param [of _ n]) (simp_all add: r n_def)
  show ?case
  proof (cases ps)
    case Nil
    have "ctx\<lparr>ac_count := 1 + word_of_nat (length pre)\<rparr> = ctx"
      using Cons.prems(4) by simp
    then show ?thesis using one Cons.prems(4) by (simp add: Nil k_def n_def)
  next
    case (Cons ds' ps')
    let ?ctx2 = "?ctx\<lparr>ac_count := ac_count ctx + 1\<rparr>"
    have lt: "Suc n < ANSIESC_MAX_PARAMS"
      using Cons.prems(3) by (simp add: Cons n_def)
    have "unat (ac_count ctx) = Suc n"
      using lt Cons.prems(4) by (simp add: n_def ANSIESC_MAX_PARAMS_def unat_of_nat_u32 del: of_nat_Suc)
    then have semi: "ansiesc_process ?ctx 0x3b = (?ctx2, -1, None)"
      using lt by (subst ansiesc_semicolon) auto
    have k: "replicate (ANSIESC_MAX_PARAMS - length (pre @ [param_value ds])) (-1 :: u32) = replicate k (-1)"
      by (simp add: k_def n_def)
    note rest = Cons.IH [of "pre @ [param_value ds]" ?ctx2]
    show ?thesis
      using one semi rest Cons.prems k
      by (simp add: Cons ansiesc_run_append)
  qed
qed simp

lemma ansiesc_run_final:
  assumes "ac_count ctx \<noteq> 0" and "final_char f"
  shows "ansiesc_run ctx [f] =
    (let g = push_bit 8 (ac_function ctx) OR word_of_int f
     in (ctx\<lparr>ac_count := 0, ac_function := g\<rparr>, [],
         case ansiesc_call_handler (ac_handlers ctx) g (ac_count ctx) (ac_params ctx) of
           None \<Rightarrow> [] | Some call \<Rightarrow> [call]))"
  using assms by (auto simp: ansiesc_process_def final_char_def Let_def split: option.splits)

lemma ansiesc_run_item:
  assumes "item_ok item" and "ac_count ctx = 0"
  obtains ctx' where "ansiesc_run ctx (item_chars item) =
      (ctx', item_output item, item_call (ac_handlers ctx) item)"
    and "ac_count ctx' = 0" and "ac_handlers ctx' = ac_handlers ctx"
proof (cases item)
  case (Plain c)
  then show ?thesis using assms by (intro that [of ctx]) (simp_all add: ansiesc_process_def)
next
  case (Seq ps inters f)
  define ctx1 where
    "ctx1 = ctx\<lparr>ac_count := 1, ac_params := replicate ANSIESC_MAX_PARAMS (-1), ac_function := 0\<rparr>"
  define params where
    "params = map param_value ps @ replicate (ANSIESC_MAX_PARAMS - length ps) (-1 :: u32)"
  define ctx2 where "ctx2 = ctx1\<lparr>ac_count := word_of_nat (length ps), ac_params := params\<rparr>"
  have ok: "ps \<noteq> []" "list_all digits_ok ps" "length ps \<le> ANSIESC_MAX_PARAMS"
    "list_all inter_char inters" "final_char f"
    using assms(1) by (simp_all add: Seq)
  have intro: "ansiesc_run ctx [ESC, 0x5b] = (ctx1, [], [])"
    using assms(2) by (simp add: ansiesc_process_def ctx1_def ESC_def)
  have par: "ansiesc_run ctx1 (semicolons (map (map digit_char) ps)) = (ctx2, [], [])"
    using ansiesc_run_params [of ps "[]" ctx1] ok by (simp add: ctx1_def ctx2_def params_def)
  have "unat (word_of_nat (length ps) :: u32) \<noteq> 0"
    using ok(1,3) by (simp add: unat_of_nat_u32 ANSIESC_MAX_PARAMS_def)
  then have c2: "ac_count ctx2 \<noteq> 0" by (auto simp: ctx2_def)
  note rest = ansiesc_run_inters [OF c2 ok(4)] ansiesc_run_final [OF _ ok(5)]
  show ?thesis
    using c2 assms(2)
    by (intro that [of "ctx2\<lparr>ac_count := 0, ac_function := function_id (inters @ [f])\<rparr>"])
      (simp_all only: Seq item_chars.simps item_output.simps item_call.simps ansiesc_run_append
         intro par prod.case rest,
       simp_all add: rest Let_def function_id_def ctx2_def ctx1_def params_def del: ansiesc_run.simps)
qed

text \<open>
  C27: A stream of plain characters and well-formed control sequences is taken apart exactly: the
  characters that pass are the plain ones, in order, and the handlers called are those registered
  for the sequences, in order, each with the number of its parameters and their decimal values (-1
  for an absent one); afterwards the filter is outside any sequence.
\<close>
theorem ansiesc_stream:
  assumes "list_all item_ok items" and "ac_count ctx = 0"
  shows "\<exists>ctx'. ansiesc_run ctx (concat (map item_chars items)) =
      (ctx', concat (map item_output items), concat (map (item_call (ac_handlers ctx)) items)) \<and>
    ac_count ctx' = 0"
  using assms
proof (induction items arbitrary: ctx)
  case (Cons item items)
  obtain ctx1 where one: "ansiesc_run ctx (item_chars item) =
      (ctx1, item_output item, item_call (ac_handlers ctx) item)"
    and c1: "ac_count ctx1 = 0" and h1: "ac_handlers ctx1 = ac_handlers ctx"
    using ansiesc_run_item [of item ctx] Cons.prems by auto
  obtain ctx2 where "ansiesc_run ctx1 (concat (map item_chars items)) =
      (ctx2, concat (map item_output items), concat (map (item_call (ac_handlers ctx)) items))"
    and "ac_count ctx2 = 0"
    using Cons.IH [of ctx1] Cons.prems c1 h1 by auto
  with one show ?case by (simp add: ansiesc_run_append)
qed simp

theorem ansiesc_stream_witness:
  "\<exists>ctx'. ansiesc_run
      \<lparr>ac_handlers = [\<lparr>ah_function = 0x48, ah_handle = ''cup''\<rparr>, \<lparr>ah_function = 0, ah_handle = []\<rparr>],
       ac_count = 0, ac_params = [], ac_function = 0\<rparr>
      [0x41, 0x1b, 0x5b, 0x31, 0x32, 0x3b, 0x37, 0x48, 0x42] =
    (ctx', [0x41, 0x42], [(''cup'', 2, [12, 7, -1, -1, -1])]) \<and> ac_count ctx' = 0"
  using ansiesc_stream [of "[Plain 0x41, Seq [[1, 2], [7]] [] 0x48, Plain 0x42]"
    "\<lparr>ac_handlers = [\<lparr>ah_function = 0x48, ah_handle = ''cup''\<rparr>, \<lparr>ah_function = 0, ah_handle = []\<rparr>],
      ac_count = 0, ac_params = [], ac_function = 0\<rparr>"]
  by (simp del: ansiesc_run.simps add: ESC_def ANSIESC_MAX_PARAMS_def digits_ok_def final_char_def
    digit_char_def function_id_def param_value_def numeral_3_eq_3)



end
