(* ===== verification/DhcpOpts.thy ===== *)
theory DhcpOpts
  imports CString
begin

text \<open>
  DHCP option blocks (net/dhcpopts.c, include/ipxe/dhcpopts.h): the tag-length-value blocks of DHCP
  packets and of the non-volatile options, searched and edited in place.

  The raw data of a block is the memory at \<open>options->data\<close>, addressed from zero: offsets below
  \<open>alloc_len\<close> belong to the block, what lies beyond it is other memory.  \<open>struct dhcp_options\<close> is
  embedded in larger objects which its reallocator reaches with \<open>container_of\<close>; here those objects
  are extensions of the record, and the reallocator is an argument of the operations that call it.
  Tags are natural numbers (below \<open>2 ^ 32\<close> in the code), error returns are \<^typ>\<open>'a result\<close>.  Where
  the code computes lengths in \<open>size_t\<close> the wrap-around is written out with \<open>size_t\<close>.
\<close>

section \<open>Constants and data\<close>

definition DHCP_PAD :: nat where "DHCP_PAD = 0"
definition DHCP_END :: nat where "DHCP_END = 255"
definition DHCP_MAX_OPTION :: nat where "DHCP_MAX_OPTION = 254"
definition DHCP_OPTION_HEADER_LEN :: nat where "DHCP_OPTION_HEADER_LEN = 2"
definition DHCP_MAX_LEN :: nat where "DHCP_MAX_LEN = 0xff"

definition DHCP_ENCAP_OPT :: "nat \<Rightarrow> nat \<Rightarrow> nat" where
  "DHCP_ENCAP_OPT encapsulator encapsulated = encapsulator * 256 + encapsulated"

definition DHCP_ENCAPSULATOR :: "nat \<Rightarrow> nat" where
  "DHCP_ENCAPSULATOR encap_opt = encap_opt div 256"

definition DHCP_ENCAPSULATED :: "nat \<Rightarrow> nat" where
  "DHCP_ENCAPSULATED encap_opt = encap_opt mod 256"

definition DHCP_IS_ENCAP_OPT :: "nat \<Rightarrow> bool" where
  "DHCP_IS_ENCAP_OPT opt \<longleftrightarrow> DHCP_ENCAPSULATOR opt \<noteq> 0"

lemmas dhcp_consts = DHCP_PAD_def DHCP_END_def DHCP_MAX_OPTION_def DHCP_OPTION_HEADER_LEN_def
  DHCP_MAX_LEN_def DHCP_ENCAP_OPT_def DHCP_ENCAPSULATOR_def DHCP_ENCAPSULATED_def
  DHCP_IS_ENCAP_OPT_def

definition size_t :: "int \<Rightarrow> nat" where
  "size_t x = nat (x mod 2 ^ 64)"

record dhcp_options =
  do_data :: mem
  do_used_len :: nat
  do_alloc_len :: nat

type_synonym 'a dhcpopt_realloc =
  "'a dhcp_options_scheme \<Rightarrow> nat \<Rightarrow> 'a dhcp_options_scheme \<times> unit result"

section \<open>Searching\<close>

text \<open>An option is its tag byte, its length byte and its data.\<close>

definition dhcp_option_len :: "mem \<Rightarrow> nat \<Rightarrow> nat" where
  "dhcp_option_len d offset =
     (if unat (d offset) = DHCP_END \<or> unat (d offset) = DHCP_PAD then 1
      else unat (d (offset + 1)) + DHCP_OPTION_HEADER_LEN)"

lemma dhcp_option_len_pos [simp]: "0 < dhcp_option_len d offset"
  by (simp add: dhcp_option_len_def DHCP_OPTION_HEADER_LEN_def)

text \<open>
  The search loop.  \<open>remaining\<close> is the code's \<open>ssize_t\<close>, which is never negative at the loop test;
  the result is the offset, or the error, and the offset of the encapsulator if one was entered.
\<close>

function find_dhcp_option_loop ::
  "mem \<Rightarrow> nat \<Rightarrow> nat \<Rightarrow> nat \<Rightarrow> nat option \<Rightarrow> nat result \<times> nat option" where
  "find_dhcp_option_loop d tag offset remaining encap =
     (if remaining = 0 then (Inl ENOENT, encap)
      else
        let option_len = dhcp_option_len d offset
        in if remaining < option_len then (Inl ENOENT, encap)
           else if unat (d offset) = DHCP_END then
             (if tag = DHCP_END then (Inr offset, encap) else (Inl ENOENT, encap))
           else if unat (d offset) = tag then (Inr offset, encap)
           else if DHCP_IS_ENCAP_OPT tag \<and> unat (d offset) = DHCP_ENCAPSULATOR tag then
             find_dhcp_option_loop d (DHCP_ENCAPSULATED tag) (offset + DHCP_OPTION_HEADER_LEN)
               option_len (Some offset)
           else find_dhcp_option_loop d tag (offset + option_len) (remaining - option_len) encap)"
  by pat_completeness auto
termination
proof (relation "measures [\<lambda>(d, tag, offset, remaining, encap). tag div 256,
    \<lambda>(d, tag, offset, remaining, encap). remaining]", goal_cases)
  case 1
  show ?case by simp
next
  case (2 d tag offset remaining encap option_len)
  then have "tag div 256 \<noteq> 0" by (auto simp: dhcp_consts)
  moreover have "tag mod 256 div 256 = 0" by simp
  ultimately show ?case by (simp add: DHCP_ENCAPSULATED_def)
next
  case (3 d tag offset remaining encap option_len)
  then have "dhcp_option_len d offset \<le> remaining" by simp
  then have "remaining - dhcp_option_len d offset < remaining"
    using dhcp_option_len_pos [of d offset] by linarith
  then show ?case using 3 by simp
qed

declare find_dhcp_option_loop.simps [simp del]

definition find_dhcp_option_with_encap ::
  "'a dhcp_options_scheme \<Rightarrow> nat \<Rightarrow> nat result \<times> nat option" where
  "find_dhcp_option_with_encap options tag =
     (if tag = DHCP_PAD then (Inl ENOENT, None)
      else find_dhcp_option_loop (do_data options) tag 0 (do_used_len options) None)"

section \<open>Editing\<close>

definition dhcpopt_no_realloc :: "'a dhcpopt_realloc" where
  "dhcpopt_no_realloc options len =
     (options, if len \<le> do_alloc_len options then Inr () else Inl ENOSPC)"

text \<open>Growing the block: newly allocated space is cleared.\<close>

definition resize_expand :: "'a dhcpopt_realloc \<Rightarrow> 'a dhcpopt_realloc" where
  "resize_expand realloc options new_used_len =
     (if new_used_len > do_alloc_len options then
        let old_alloc_len = do_alloc_len options
        in case realloc options new_used_len of
             (options, Inl rc) \<Rightarrow> (options, Inl rc)
           | (options, Inr _) \<Rightarrow>
               (options\<lparr>do_data := generic_memset (do_data options) old_alloc_len 0
                                    (do_alloc_len options - old_alloc_len)\<rparr>, Inr ())
      else (options, Inr ()))"

definition resize_encapsulator ::
  "'a dhcp_options_scheme \<Rightarrow> nat option \<Rightarrow> int \<Rightarrow> 'a dhcp_options_scheme \<times> unit result" where
  "resize_encapsulator options encap_offset delta =
     (case encap_offset of
        None \<Rightarrow> (options, Inr ())
      | Some e \<Rightarrow>
          let new_encapsulator_len = size_t (uint (do_data options (e + 1)) + delta)
          in if new_encapsulator_len > DHCP_MAX_LEN then (options, Inl ENOSPC)
             else (options\<lparr>do_data := (do_data options)(e + 1 := word_of_nat new_encapsulator_len)\<rparr>,
                   Inr ()))"

definition resize_dhcp_option ::
  "'a dhcpopt_realloc \<Rightarrow> 'a dhcp_options_scheme \<Rightarrow> nat \<Rightarrow> nat option \<Rightarrow> nat \<Rightarrow> nat \<Rightarrow>
   'a dhcp_options_scheme \<times> unit result" where
  "resize_dhcp_option realloc options offset encap_offset old_len new_len =
     (let delta = int new_len - int old_len
      in if new_len > DHCP_MAX_LEN then (options, Inl ENOSPC)
         else
           let new_used_len = size_t (int (do_used_len options) + delta)
           in case resize_expand realloc options new_used_len of
                (options, Inl rc) \<Rightarrow> (options, Inl rc)
              | (options, Inr _) \<Rightarrow>
                  (case resize_encapsulator options encap_offset delta of
                     (options, Inl rc) \<Rightarrow> (options, Inl rc)
                   | (options, Inr _) \<Rightarrow>
                       let options = options\<lparr>do_used_len := new_used_len\<rparr>;
                           options = options\<lparr>do_data :=
                             generic_memmove (do_data options) (offset + new_len) (offset + old_len)
                               (size_t (int new_used_len - int offset - int new_len))\<rparr>
                       in if new_used_len < do_alloc_len options then realloc options new_used_len
                          else (options, Inr ())))"

text \<open>
  Setting an option.  An encapsulated option is stored inside its encapsulator, which is created
  first if need be and deleted when nothing but its end marker is left; both are recursive calls on
  the encapsulator's tag.
\<close>

function set_dhcp_option ::
  "'a dhcpopt_realloc \<Rightarrow> 'a dhcp_options_scheme \<Rightarrow> nat \<Rightarrow> u8 list \<Rightarrow>
   'a dhcp_options_scheme \<times> nat result" where
  "set_dhcp_option realloc options tag data =
     (let encap_tag = DHCP_ENCAPSULATOR tag;
          len = length data;
          new_len = (if len \<noteq> 0 then len + DHCP_OPTION_HEADER_LEN else 0)
      in if tag = DHCP_PAD then (options, Inl ENOTTY)
         else
           let creation_offset = (case fst (find_dhcp_option_with_encap options DHCP_END) of
                 Inl _ \<Rightarrow> do_used_len options | Inr offset \<Rightarrow> offset);
               (found, encap_offset) = find_dhcp_option_with_encap options tag;
               old_len = (case found of Inl _ \<Rightarrow> 0
                          | Inr offset \<Rightarrow> dhcp_option_len (do_data options) offset);
               (options, encap) =
                 (if encap_tag \<noteq> 0 then
                    (case encap_offset of
                       None \<Rightarrow> (case set_dhcp_option realloc options encap_tag [word_of_nat DHCP_END] of
                                  (options, Inl rc) \<Rightarrow> (options, Inl rc)
                                | (options, Inr e) \<Rightarrow> (options, Inr (Some e)))
                     | Some e \<Rightarrow> (options, Inr (Some e)))
                  else (options, Inr encap_offset))
           in case encap of
                Inl rc \<Rightarrow> (options, Inl rc)
              | Inr encap_offset \<Rightarrow>
                  let creation_offset = (if encap_tag \<noteq> 0
                        then (case encap_offset of Some e \<Rightarrow> e + DHCP_OPTION_HEADER_LEN
                              | None \<Rightarrow> creation_offset)
                        else creation_offset);
                      offset = (case found of Inl _ \<Rightarrow> creation_offset | Inr offset \<Rightarrow> offset)
                  in case resize_dhcp_option realloc options offset encap_offset old_len new_len of
                       (options, Inl rc) \<Rightarrow> (options, Inl rc)
                     | (options, Inr _) \<Rightarrow>
                         let options = (if len \<noteq> 0
                               then options\<lparr>do_data := mem_write (do_data options) offset
                                      ([word_of_nat tag, word_of_nat len] @ data)\<rparr>
                               else options);
                             options = (case encap_offset of
                               Some e \<Rightarrow>
                                 (if unat (do_data options (e + 1)) \<le> 1
                                  then fst (set_dhcp_option realloc options encap_tag [])
                                  else options)
                             | None \<Rightarrow> options)
                         in (options, Inr offset))"
  by pat_completeness auto
termination
  by (relation "measure (\<lambda>(realloc, options, tag, data). tag)") (auto simp: dhcp_consts)

declare set_dhcp_option.simps [simp del]

definition dhcpopt_applies :: "nat \<Rightarrow> bool" where
  "dhcpopt_applies tag \<longleftrightarrow> tag \<noteq> 0 \<and> tag \<le> DHCP_ENCAP_OPT DHCP_MAX_OPTION DHCP_MAX_OPTION"

definition dhcpopt_store ::
  "'a dhcpopt_realloc \<Rightarrow> 'a dhcp_options_scheme \<Rightarrow> nat \<Rightarrow> u8 list \<Rightarrow>
   'a dhcp_options_scheme \<times> unit result" where
  "dhcpopt_store realloc options tag data =
     (case set_dhcp_option realloc options tag data of
        (options, Inl rc) \<Rightarrow> (options, Inl rc)
      | (options, Inr _) \<Rightarrow> (options, Inr ()))"

text \<open>The result is the length of the option and the bytes put into a buffer of length \<open>len\<close>.\<close>

definition dhcpopt_fetch :: "'a dhcp_options_scheme \<Rightarrow> nat \<Rightarrow> nat \<Rightarrow> (nat \<times> u8 list) result" where
  "dhcpopt_fetch options tag len =
     (case fst (find_dhcp_option_with_encap options tag) of
        Inl rc \<Rightarrow> Inl rc
      | Inr offset \<Rightarrow>
          let option_len = unat (do_data options (offset + 1));
              len = (if len > option_len then option_len else len)
          in Inr (option_len, mem_bytes (do_data options) (offset + DHCP_OPTION_HEADER_LEN) len))"

function update_used_len_loop :: "mem \<Rightarrow> nat \<Rightarrow> nat \<Rightarrow> nat \<Rightarrow> nat" where
  "update_used_len_loop d offset remaining used_len =
     (if remaining = 0 then used_len
      else
        let option_len = dhcp_option_len d offset
        in if remaining < option_len then used_len
           else update_used_len_loop d (offset + option_len) (remaining - option_len)
                  (if unat (d offset) \<noteq> DHCP_PAD then offset + option_len else used_len))"
  by pat_completeness auto
termination
  by (relation "measure (\<lambda>(d, offset, remaining, used_len). remaining)")
    (use dhcp_option_len_pos in \<open>auto intro: diff_less\<close>)

declare update_used_len_loop.simps [simp del]

definition dhcpopt_update_used_len :: "'a dhcp_options_scheme \<Rightarrow> 'a dhcp_options_scheme" where
  "dhcpopt_update_used_len options =
     options\<lparr>do_used_len := update_used_len_loop (do_data options) 0 (do_alloc_len options) 0\<rparr>"

definition dhcpopt_init :: "'a dhcp_options_scheme \<Rightarrow> mem \<Rightarrow> nat \<Rightarrow> 'a dhcp_options_scheme" where
  "dhcpopt_init options data alloc_len =
     dhcpopt_update_used_len (options\<lparr>do_data := data, do_alloc_len := alloc_len\<rparr>)"

section \<open>Specification: a block is a list of options\<close>

text \<open>
  The bytes of a block are those of its options, and then nothing or an end marker and whatever
  follows it.
\<close>

datatype dhcp_item = Pad | Opt nat "u8 list"

fun enc_item :: "dhcp_item \<Rightarrow> u8 list" where
  "enc_item Pad = [0]"
| "enc_item (Opt t v) = word_of_nat t # word_of_nat (length v) # v"

definition enc_items :: "dhcp_item list \<Rightarrow> u8 list" where
  "enc_items items = concat (map enc_item items)"

fun opt_ok :: "dhcp_item \<Rightarrow> bool" where
  "opt_ok Pad \<longleftrightarrow> True"
| "opt_ok (Opt t v) \<longleftrightarrow> 0 < t \<and> t < 255 \<and> length v < 256"

definition is_tail :: "u8 list \<Rightarrow> bool" where
  "is_tail rest \<longleftrightarrow> rest = [] \<or> hd rest = 255"

fun opt_lookup :: "nat \<Rightarrow> dhcp_item list \<Rightarrow> u8 list option" where
  "opt_lookup t [] = None"
| "opt_lookup t (Pad # items) = opt_lookup t items"
| "opt_lookup t (Opt t' v # items) = (if t' = t then Some v else opt_lookup t items)"

text \<open>Storing replaces the first instance or appends; storing no data deletes the first instance.\<close>

definition new_items :: "nat \<Rightarrow> u8 list \<Rightarrow> dhcp_item list" where
  "new_items t v = (if v = [] then [] else [Opt t v])"

fun opt_store :: "nat \<Rightarrow> u8 list \<Rightarrow> dhcp_item list \<Rightarrow> dhcp_item list" where
  "opt_store t v [] = new_items t v"
| "opt_store t v (Pad # items) = Pad # opt_store t v items"
| "opt_store t v (Opt t' v' # items) =
     (if t' = t then new_items t v @ items else Opt t' v' # opt_store t v items)"

definition opts_rep :: "'a dhcp_options_scheme \<Rightarrow> dhcp_item list \<Rightarrow> u8 list \<Rightarrow> bool" where
  "opts_rep options items rest \<longleftrightarrow>
     list_all opt_ok items \<and> is_tail rest \<and>
     do_used_len options = length (enc_items items @ rest) \<and>
     mem_at (do_data options) 0 (enc_items items @ rest) \<and>
     do_used_len options \<le> do_alloc_len options"

lemma enc_items_simps [simp]:
  "enc_items [] = []"
  "enc_items (item # items) = enc_item item @ enc_items items"
  "enc_items (items @ items') = enc_items items @ enc_items items'"
  by (simp_all add: enc_items_def)

lemma opt_lookup_append: "opt_lookup t (xs @ ys) = (case opt_lookup t xs of None \<Rightarrow> opt_lookup t ys | Some v \<Rightarrow> Some v)"
  by (induction t xs rule: opt_lookup.induct) simp_all

lemma opt_lookup_split:
  assumes "opt_lookup t items = Some v"
  obtains pre post where "items = pre @ Opt t v # post" and "opt_lookup t pre = None"
  using assms
proof (induction t items arbitrary: thesis rule: opt_lookup.induct)
  case (2 t items)
  from 2(3) have "opt_lookup t items = Some v" by simp
  with 2(1) obtain pre post where "items = pre @ Opt t v # post" "opt_lookup t pre = None" by blast
  then show ?case by (intro 2(2) [of "Pad # pre" post]) simp_all
next
  case (3 t t' v' items)
  show ?case
  proof (cases "t' = t")
    case True
    then show ?thesis using 3(3) by (intro 3(2) [of "[]" items]) simp_all
  next
    case False
    then have "opt_lookup t items = Some v" using 3(3) by simp
    with 3(1) False obtain pre post where "items = pre @ Opt t v # post" "opt_lookup t pre = None" by blast
    then show ?thesis using False by (intro 3(2) [of "Opt t' v' # pre" post]) simp_all
  qed
qed simp

lemma opt_store_split: "opt_lookup t pre = None \<Longrightarrow> opt_store t v (pre @ Opt t w # post) = pre @ new_items t v @ post"
  by (induction t pre rule: opt_lookup.induct) (simp_all split: if_splits)

lemma opt_store_absent: "opt_lookup t items = None \<Longrightarrow> opt_store t v items = items @ new_items t v"
  by (induction t items rule: opt_lookup.induct) (simp_all split: if_splits)

lemma opt_lookup_store_other: "t' \<noteq> t \<Longrightarrow> opt_lookup t' (opt_store t v items) = opt_lookup t' items"
  by (induction t v items rule: opt_store.induct) (simp_all add: new_items_def opt_lookup_append)

lemma opt_lookup_store_same: "v \<noteq> [] \<Longrightarrow> opt_lookup t (opt_store t v items) = Some v"
  by (induction t v items rule: opt_store.induct) (simp_all add: new_items_def)

lemma opt_ok_new: "0 < t \<Longrightarrow> t < 255 \<Longrightarrow> length v < 256 \<Longrightarrow> list_all opt_ok (new_items t v)"
  by (simp add: new_items_def)

lemma opt_ok_store:
  assumes "list_all opt_ok items" "0 < t" "t < 255" "length v < 256"
  shows "list_all opt_ok (opt_store t v items)"
  using assms by (induction t v items rule: opt_store.induct) (simp_all add: new_items_def)

section \<open>Searching a well-formed block\<close>

lemma unat_small_u8: "n < 256 \<Longrightarrow> unat (word_of_nat n :: u8) = n"
  by (simp add: unat_of_nat take_bit_nat_eq_self)

lemma dhcp_option_len_item:
  assumes "mem_at d off (enc_item item)" and "opt_ok item"
  shows "dhcp_option_len d off = length (enc_item item)"
  using assms by (cases item) (auto simp: dhcp_option_len_def dhcp_consts unat_small_u8)

text \<open>Whether the search passes over an item: neither the tag nor its encapsulator.\<close>

definition passes :: "nat \<Rightarrow> dhcp_item list \<Rightarrow> bool" where
  "passes tag items \<longleftrightarrow> opt_lookup tag items = None \<and> (256 \<le> tag \<longrightarrow> opt_lookup (tag div 256) items = None)"

lemma find_loop_skip:
  assumes "mem_at d off (enc_items items)" and "list_all opt_ok items" and "passes tag items"
    and "tag \<noteq> 0"
  shows "find_dhcp_option_loop d tag off (length (enc_items items) + r) encap =
    find_dhcp_option_loop d tag (off + length (enc_items items)) r encap"
  using assms
proof (induction items arbitrary: off)
  case (Cons item items)
  have it: "mem_at d off (enc_item item)" "opt_ok item" using Cons.prems by simp_all
  note len = dhcp_option_len_item [OF it]
  have tag: "unat (d off) \<noteq> 255 \<and> unat (d off) \<noteq> tag \<and> (256 \<le> tag \<longrightarrow> unat (d off) \<noteq> tag div 256)"
  proof (cases item)
    case Pad
    then show ?thesis using it Cons.prems(4) by (auto simp: div_eq_0_iff)
  next
    case (Opt t v)
    then show ?thesis using it Cons.prems(3) by (auto simp: passes_def unat_small_u8 split: if_splits)
  qed
  have "find_dhcp_option_loop d tag off (length (enc_items (item # items)) + r) encap =
      find_dhcp_option_loop d tag (off + length (enc_item item)) (length (enc_items items) + r) encap"
    using tag len dhcp_option_len_pos [of d off]
    by (subst find_dhcp_option_loop.simps) (auto simp: Let_def dhcp_consts div_eq_0_iff not_le)
  also have "\<dots> = find_dhcp_option_loop d tag (off + length (enc_items (item # items))) r encap"
    using Cons.prems Cons.IH [of "off + length (enc_item item)"]
    by (cases item) (auto simp: passes_def add.assoc split: if_splits)
  finally show ?case .
qed simp

lemma find_loop_hit:
  assumes "mem_at d off (enc_item (Opt tag v))" and "opt_ok (Opt tag v)" and "length v + 2 \<le> r"
  shows "find_dhcp_option_loop d tag off r encap = (Inr off, encap)"
  using assms dhcp_option_len_item [OF assms(1,2)]
  by (subst find_dhcp_option_loop.simps) (auto simp: Let_def dhcp_consts unat_small_u8)

lemma find_loop_end:
  assumes "d off = 255" and "0 < r"
  shows "find_dhcp_option_loop d tag off r encap = (if tag = 255 then Inr off else Inl ENOENT, encap)"
  using assms by (subst find_dhcp_option_loop.simps) (simp add: Let_def dhcp_consts dhcp_option_len_def)

lemma find_loop_stop: "find_dhcp_option_loop d tag off 0 encap = (Inl ENOENT, encap)"
  by (simp add: find_dhcp_option_loop.simps)

lemma find_loop_enter:
  assumes "mem_at d off (enc_item (Opt t1 v))" and "opt_ok (Opt t1 v)" and "length v + 2 \<le> r"
    and "t2 < 256"
  shows "find_dhcp_option_loop d (t1 * 256 + t2) off r encap =
    find_dhcp_option_loop d t2 (off + 2) (length v + 2) (Some off)"
  using assms dhcp_option_len_item [OF assms(1,2)]
  by (subst find_dhcp_option_loop.simps) (auto simp: Let_def dhcp_consts unat_small_u8)

lemma passes_plain: "tag < 256 \<Longrightarrow> passes tag items \<longleftrightarrow> opt_lookup tag items = None"
  by (simp add: passes_def)

lemma find_present:
  assumes "opts_rep options (pre @ Opt t v # post) rest" and "opt_lookup t pre = None"
  shows "find_dhcp_option_with_encap options t = (Inr (length (enc_items pre)), None)"
proof -
  define r where "r = length v + 2 + length (enc_items post @ rest)"
  have rep: "mem_at (do_data options) 0 (enc_items pre)" "list_all opt_ok pre" "opt_ok (Opt t v)"
    "mem_at (do_data options) (length (enc_items pre)) (enc_item (Opt t v))"
    "do_used_len options = length (enc_items pre) + r"
    using assms(1) by (simp_all add: opts_rep_def r_def)
  have "find_dhcp_option_loop (do_data options) t 0 (length (enc_items pre) + r) None =
      find_dhcp_option_loop (do_data options) t (length (enc_items pre)) r None"
    using find_loop_skip [of "do_data options" 0 pre t r] rep assms(2) by (simp add: passes_plain)
  also have "\<dots> = (Inr (length (enc_items pre)), None)"
    by (rule find_loop_hit [OF rep(4,3)]) (simp add: r_def)
  finally show ?thesis using rep by (simp add: find_dhcp_option_with_encap_def dhcp_consts)
qed

lemma find_absent:
  assumes "opts_rep options items rest" and "passes t items" and "0 < t" and "t \<noteq> 255"
  shows "find_dhcp_option_with_encap options t = (Inl ENOENT, None)"
proof -
  have "mem_at (do_data options) 0 (enc_items items)" "list_all opt_ok items"
    "do_used_len options = length (enc_items items) + length rest"
    "mem_at (do_data options) (length (enc_items items)) rest" "is_tail rest"
    using assms(1) by (simp_all add: opts_rep_def)
  then show ?thesis
    using find_loop_skip [of "do_data options" 0 items t "length rest" None] assms
    by (cases rest) (simp_all add: find_dhcp_option_with_encap_def is_tail_def find_loop_stop
      find_loop_end dhcp_consts)
qed

lemma find_end:
  assumes "opts_rep options items rest"
  shows "find_dhcp_option_with_encap options 255 =
    (if rest = [] then Inl ENOENT else Inr (length (enc_items items)), None)"
proof -
  have rep: "mem_at (do_data options) 0 (enc_items items)" "list_all opt_ok items"
    "do_used_len options = length (enc_items items) + length rest"
    "mem_at (do_data options) (length (enc_items items)) rest" "is_tail rest"
    using assms(1) by (simp_all add: opts_rep_def)
  have "opt_lookup 255 items = None" if "list_all opt_ok items" for items
    using that by (induction "255 :: nat" items rule: opt_lookup.induct) simp_all
  with rep show ?thesis
    using find_loop_skip [of "do_data options" 0 items 255 "length rest" None]
    by (cases rest) (simp_all add: find_dhcp_option_with_encap_def is_tail_def find_loop_stop
      find_loop_end passes_plain dhcp_consts)
qed

lemma fetch_rep:
  assumes "opts_rep options items rest" and "0 < t" and "t < 255"
  shows "dhcpopt_fetch options t len =
    (case opt_lookup t items of None \<Rightarrow> Inl ENOENT | Some v \<Rightarrow> Inr (length v, take len v))"
proof (cases "opt_lookup t items")
  case None
  then show ?thesis using find_absent [OF assms(1)] assms(2,3)
    by (simp add: dhcpopt_fetch_def passes_plain)
next
  case (Some v)
  then obtain pre post where sp: "items = pre @ Opt t v # post" "opt_lookup t pre = None"
    by (rule opt_lookup_split)
  define off where "off = length (enc_items pre)"
  have m: "mem_at (do_data options) off (enc_item (Opt t v))" "length v < 256"
    using assms(1) by (simp_all add: opts_rep_def sp off_def)
  then have "unat (do_data options (off + 1)) = length v" "mem_at (do_data options) (off + 2) v"
    by (simp_all add: unat_small_u8)
  then show ?thesis
    using find_present [OF assms(1) [unfolded sp] sp(2)] Some
    by (simp add: dhcpopt_fetch_def off_def Let_def DHCP_OPTION_HEADER_LEN_def mem_bytes_mem_at_take)
qed

section \<open>Setting an option, step by step\<close>

text \<open>Writing an option at an offset, and what a plain tag makes of \<open>set_dhcp_option\<close>.\<close>

definition put_option :: "'a dhcp_options_scheme \<Rightarrow> nat \<Rightarrow> nat \<Rightarrow> u8 list \<Rightarrow> 'a dhcp_options_scheme" where
  "put_option options offset tag data =
     (if data \<noteq> [] then options\<lparr>do_data := mem_write (do_data options) offset
                            ([word_of_nat tag, word_of_nat (length data)] @ data)\<rparr>
      else options)"

definition option_size :: "u8 list \<Rightarrow> nat" where
  "option_size data = (if data \<noteq> [] then length data + 2 else 0)"

definition edit_at ::
  "'a dhcpopt_realloc \<Rightarrow> 'a dhcp_options_scheme \<Rightarrow> nat \<Rightarrow> nat option \<Rightarrow> nat \<Rightarrow> nat \<Rightarrow> u8 list \<Rightarrow>
   'a dhcp_options_scheme \<times> nat result" where
  "edit_at realloc options offset encap old_len t data =
     (case resize_dhcp_option realloc options offset encap old_len (option_size data) of
        (options, Inl rc) \<Rightarrow> (options, Inl rc)
      | (options, Inr _) \<Rightarrow> (put_option options offset t data, Inr offset))"

lemma option_size_new [simp]: "length (enc_items (new_items t data)) = option_size data"
  by (simp add: option_size_def new_items_def)

lemma set_dhcp_option_plain:
  assumes "find_dhcp_option_with_encap options t = (found, None)" and "0 < t" and "t < 256"
    and "offset = (case found of Inr offset \<Rightarrow> offset
       | Inl _ \<Rightarrow> (case fst (find_dhcp_option_with_encap options DHCP_END) of
                     Inl _ \<Rightarrow> do_used_len options | Inr e \<Rightarrow> e))"
    and "old_len = (case found of Inr offset \<Rightarrow> dhcp_option_len (do_data options) offset | Inl _ \<Rightarrow> 0)"
  shows "set_dhcp_option realloc options t data = edit_at realloc options offset None old_len t data"
proof -
  have "DHCP_ENCAPSULATOR t = 0" "t \<noteq> DHCP_PAD" using assms(2,3) by (simp_all add: dhcp_consts)
  then show ?thesis
    unfolding set_dhcp_option.simps [of realloc options t data] option_size_def put_option_def edit_at_def
    by (cases "data = []")
      (simp_all add: Let_def assms(1) DHCP_OPTION_HEADER_LEN_def flip: assms(4,5) split: prod.split sum.split)
qed

lemma put_option_simps [simp]:
  "do_used_len (put_option options offset tag data) = do_used_len options"
  "do_alloc_len (put_option options offset tag data) = do_alloc_len options"
  by (simp_all add: put_option_def)

lemma put_option_bytes:
  assumes "mem_at (do_data options) 0 (A @ X @ C)" and "length X = option_size data"
  shows "mem_at (do_data (put_option options (length A) tag data)) 0
    (A @ enc_items (new_items tag data) @ C)"
proof (cases "data = []")
  case True
  then show ?thesis using assms by (simp add: put_option_def new_items_def option_size_def)
next
  case False
  define N where "N = [word_of_nat tag, word_of_nat (length data)] @ data"
  have N: "length N = length X" "enc_items (new_items tag data) = N"
    using assms(2) False by (simp_all add: N_def option_size_def new_items_def)
  have "mem_at (do_data options) 0 A" "mem_at (do_data options) (length A + length X) C"
    using assms(1) by simp_all
  then have "mem_at (mem_write (do_data options) (length A) N) 0 A"
    "mem_at (mem_write (do_data options) (length A) N) (length A + length X) C"
    by (auto simp: mem_at_def mem_write_outside N)
  moreover have "do_data (put_option options (length A) tag data) = mem_write (do_data options) (length A) N"
    using False by (simp add: put_option_def N_def)
  ultimately show ?thesis using N mem_at_mem_write [of "do_data options" "length A" N] by simp
qed

lemma plain_absent:
  assumes "opts_rep options items rest" and "0 < t" and "t < 255" and "opt_lookup t items = None"
  shows "set_dhcp_option realloc options t data =
    edit_at realloc options (length (enc_items items)) None 0 t data"
proof -
  have "find_dhcp_option_with_encap options t = (Inl ENOENT, None)"
    using find_absent [OF assms(1)] assms by (simp add: passes_plain)
  note plain = set_dhcp_option_plain [OF this, of "length (enc_items items)" 0]
  have "do_used_len options = length (enc_items items)" if "rest = []"
    using assms(1) that by (simp add: opts_rep_def)
  then show ?thesis
    using plain assms find_end [OF assms(1)] by (auto simp: DHCP_END_def)
qed

text \<open>A plain tag edits the block at the first instance of the option, or at its end.\<close>

lemma plain_place:
  assumes "opts_rep options items rest" and "0 < t" and "t < 255"
  obtains pre old post where "items = pre @ old @ post" and "\<And>v. opt_store t v items = pre @ new_items t v @ post"
    and "\<And>realloc data. set_dhcp_option realloc options t data =
      edit_at realloc options (length (enc_items pre)) None (length (enc_items old)) t data"
proof (cases "opt_lookup t items")
  case None
  then show ?thesis
    using plain_absent [OF assms None]
    by (intro that [of items "[]" "[]"]) (auto simp: opt_store_absent)
next
  case (Some v)
  then obtain pre post where sp: "items = pre @ Opt t v # post" "opt_lookup t pre = None"
    by (rule opt_lookup_split)
  have "mem_at (do_data options) (length (enc_items pre)) (enc_item (Opt t v))" "opt_ok (Opt t v)"
    using assms(1) by (simp_all add: opts_rep_def sp)
  note len = dhcp_option_len_item [OF this]
  note plain = set_dhcp_option_plain [OF find_present [OF assms(1) [unfolded sp(1)] sp(2)],
    of "length (enc_items pre)" "length v + 2"]
  show ?thesis
    using plain len assms by (intro that [of pre "[Opt t v]" post]) (simp_all add: sp opt_store_split)
qed

section \<open>Encapsulated options\<close>

text \<open>
  The data of a well-formed encapsulator is a list of options and an end marker.  A new option is
  put in front of the others.
\<close>

definition encap_data :: "dhcp_item list \<Rightarrow> u8 list \<Rightarrow> u8 list" where
  "encap_data inner er = enc_items inner @ 255 # er"

definition encap_store :: "nat \<Rightarrow> u8 list \<Rightarrow> dhcp_item list \<Rightarrow> dhcp_item list" where
  "encap_store t v inner =
     (if opt_lookup t inner = None then new_items t v @ inner else opt_store t v inner)"

lemma encap_data_short: "length (encap_data inner er) \<le> 1 \<longleftrightarrow> encap_data inner er = [255]"
  by (cases "enc_items inner"; cases er) (auto simp: encap_data_def)

lemma opt_lookup_large: "list_all opt_ok items \<Longrightarrow> 255 \<le> t \<Longrightarrow> opt_lookup t items = None"
  by (induction t items rule: opt_lookup.induct) auto

lemma encap_tag_simps [simp]:
  assumes "t2 < 256"
  shows "(t1 * 256 + t2) div 256 = t1" and "(t1 * 256 + t2) mod 256 = t2"
    and "(word_of_nat (t1 * 256 + t2) :: u8) = word_of_nat t2"
proof -
  show "(t1 * 256 + t2) div 256 = t1" "(t1 * 256 + t2) mod 256 = t2" using assms by simp_all
  then show "(word_of_nat (t1 * 256 + t2) :: u8) = word_of_nat t2"
    using assms by (simp add: word_of_nat_eq_iff take_bit_eq_mod del: of_nat_add of_nat_mult)
qed

lemma find_encap_enter:
  assumes "opts_rep options (pre @ Opt t1 v # post) rest" and "opt_lookup t1 pre = None" and "t2 < 256"
  shows "find_dhcp_option_with_encap options (t1 * 256 + t2) =
    find_dhcp_option_loop (do_data options) t2 (length (enc_items pre) + 2) (length v + 2)
      (Some (length (enc_items pre)))"
proof -
  define r where "r = length v + 2 + length (enc_items post @ rest)"
  let ?tag = "t1 * 256 + t2"
  have rep: "mem_at (do_data options) 0 (enc_items pre)" "list_all opt_ok pre" "opt_ok (Opt t1 v)"
    "mem_at (do_data options) (length (enc_items pre)) (enc_item (Opt t1 v))"
    "do_used_len options = length (enc_items pre) + r"
    using assms(1) by (simp_all add: opts_rep_def r_def)
  have "255 \<le> ?tag" using rep(3) by (cases t1) auto
  then have "passes ?tag pre"
    using assms(2,3) opt_lookup_large [OF rep(2)] by (simp add: passes_def)
  then have "find_dhcp_option_loop (do_data options) ?tag 0 (length (enc_items pre) + r) None =
      find_dhcp_option_loop (do_data options) ?tag (length (enc_items pre)) r None"
    using find_loop_skip [of "do_data options" 0 pre ?tag r] rep \<open>255 \<le> ?tag\<close> by simp
  also have "\<dots> = find_dhcp_option_loop (do_data options) t2 (length (enc_items pre) + 2) (length v + 2)
      (Some (length (enc_items pre)))"
    by (rule find_loop_enter [OF rep(4,3) _ assms(3)]) (simp add: r_def)
  finally show ?thesis
    using rep \<open>255 \<le> ?tag\<close> by (simp add: find_dhcp_option_with_encap_def dhcp_consts)
qed

text \<open>Inside the encapsulator the search stops at the end marker.\<close>

lemma find_encap_inner:
  assumes "opts_rep options (pre @ Opt t1 (encap_data inner er) # post) rest"
    and "opt_lookup t1 pre = None" and "list_all opt_ok inner" and "0 < t2" and "t2 < 255"
  shows "opt_lookup t2 inner = None \<Longrightarrow>
      find_dhcp_option_with_encap options (t1 * 256 + t2) = (Inl ENOENT, Some (length (enc_items pre)))"
    and "inner = ip @ Opt t2 w # ipost \<Longrightarrow> opt_lookup t2 ip = None \<Longrightarrow>
      find_dhcp_option_with_encap options (t1 * 256 + t2) =
        (Inr (length (enc_items pre) + 2 + length (enc_items ip)), Some (length (enc_items pre)))"
proof -
  define off where "off = length (enc_items pre) + 2"
  let ?v = "encap_data inner er" and ?d = "do_data options"
  have enter: "find_dhcp_option_with_encap options (t1 * 256 + t2) =
      find_dhcp_option_loop ?d t2 off (length ?v + 2) (Some (length (enc_items pre)))"
    using find_encap_enter [OF assms(1,2)] assms(5) by (simp add: off_def)
  have v: "mem_at ?d off (enc_items inner)" "?d (off + length (enc_items inner)) = 255"
    using assms(1) by (simp_all add: opts_rep_def off_def encap_data_def)
  show "find_dhcp_option_with_encap options (t1 * 256 + t2) = (Inl ENOENT, Some (length (enc_items pre)))"
    if "opt_lookup t2 inner = None"
  proof -
    define r where "r = length er + 3"
    have r: "length ?v + 2 = length (enc_items inner) + r" "0 < r"
      by (simp_all add: encap_data_def r_def)
    show ?thesis
      unfolding enter r(1)
      using find_loop_skip [OF v(1) assms(3), of t2 r] v(2) that assms(4,5) r(2)
      by (simp add: passes_plain find_loop_end)
  qed
  show "find_dhcp_option_with_encap options (t1 * 256 + t2) =
      (Inr (length (enc_items pre) + 2 + length (enc_items ip)), Some (length (enc_items pre)))"
    if inner: "inner = ip @ Opt t2 w # ipost" and "opt_lookup t2 ip = None"
  proof -
    define r where "r = length w + 2 + length (enc_items ipost) + length er + 3"
    have r: "length ?v + 2 = length (enc_items ip) + r" by (simp add: encap_data_def inner r_def)
    have "mem_at ?d off (enc_items ip)" "mem_at ?d (off + length (enc_items ip)) (enc_item (Opt t2 w))"
      "list_all opt_ok ip" "opt_ok (Opt t2 w)"
      using v(1) assms(3) by (simp_all add: inner)
    moreover have "length w + 2 \<le> r" by (simp add: r_def)
    ultimately show ?thesis
      unfolding enter r
      using find_loop_skip [of ?d off ip t2 r "Some (length (enc_items pre))"]
        find_loop_hit [of ?d "off + length (enc_items ip)" t2 w r] that(2) assms(4,5)
      by (simp add: passes_plain off_def del: enc_item.simps)
  qed
qed

lemma fetch_encap:
  assumes rep: "opts_rep options items rest" and t: "0 < t1" "t1 < 255" "0 < t2" "t2 < 255"
  shows "opt_lookup t1 items = None \<Longrightarrow> dhcpopt_fetch options (t1 * 256 + t2) len = Inl ENOENT"
    and "opt_lookup t1 items = Some (encap_data inner er) \<Longrightarrow> list_all opt_ok inner \<Longrightarrow>
      dhcpopt_fetch options (t1 * 256 + t2) len =
        (case opt_lookup t2 inner of None \<Rightarrow> Inl ENOENT | Some w \<Rightarrow> Inr (length w, take len w))"
proof -
  have ok: "list_all opt_ok items" using rep by (simp add: opts_rep_def)
  show "dhcpopt_fetch options (t1 * 256 + t2) len = Inl ENOENT" if "opt_lookup t1 items = None"
    using find_absent [OF rep, of "t1 * 256 + t2"] opt_lookup_large [OF ok] that t
    by (simp add: dhcpopt_fetch_def passes_def)
  assume "opt_lookup t1 items = Some (encap_data inner er)" and inner: "list_all opt_ok inner"
  then obtain pre post where sp: "items = pre @ Opt t1 (encap_data inner er) # post"
    "opt_lookup t1 pre = None" by (auto elim: opt_lookup_split)
  note find = find_encap_inner [OF rep [unfolded sp] sp(2) inner t(3,4)]
  show "dhcpopt_fetch options (t1 * 256 + t2) len =
      (case opt_lookup t2 inner of None \<Rightarrow> Inl ENOENT | Some w \<Rightarrow> Inr (length w, take len w))"
  proof (cases "opt_lookup t2 inner")
    case None
    then show ?thesis using find(1) by (simp add: dhcpopt_fetch_def)
  next
    case (Some w)
    then obtain ip ipost where isp: "inner = ip @ Opt t2 w # ipost" "opt_lookup t2 ip = None"
      by (rule opt_lookup_split)
    define off where "off = length (enc_items pre) + 2 + length (enc_items ip)"
    have m: "mem_at (do_data options) off (enc_item (Opt t2 w))" "length w < 256"
      using rep inner by (simp_all add: opts_rep_def sp encap_data_def isp off_def)
    then have "unat (do_data options (off + 1)) = length w" "mem_at (do_data options) (off + 2) w"
      by (simp_all add: unat_small_u8)
    then show ?thesis
      using find(2) [OF isp, folded off_def] Some
      by (simp add: dhcpopt_fetch_def Let_def DHCP_OPTION_HEADER_LEN_def mem_bytes_mem_at_take)
  qed
qed

text \<open>The last step: an encapsulator with nothing left but its end marker is deleted.\<close>

definition finish_encap ::
  "'a dhcpopt_realloc \<Rightarrow> nat \<Rightarrow> nat \<Rightarrow> 'a dhcp_options_scheme \<times> nat result \<Rightarrow>
   'a dhcp_options_scheme \<times> nat result" where
  "finish_encap realloc t1 e res =
     (case res of
        (options, Inl rc) \<Rightarrow> (options, Inl rc)
      | (options, Inr off) \<Rightarrow>
          (if unat (do_data options (e + 1)) \<le> 1 then fst (set_dhcp_option realloc options t1 [])
           else options, Inr off))"

lemma set_dhcp_option_encap:
  assumes "find_dhcp_option_with_encap options (t1 * 256 + t2) = (found, Some e)"
    and "0 < t1" and "t2 < 256"
    and "offset = (case found of Inr offset \<Rightarrow> offset | Inl _ \<Rightarrow> e + 2)"
    and "old_len = (case found of Inr offset \<Rightarrow> dhcp_option_len (do_data options) offset | Inl _ \<Rightarrow> 0)"
  shows "set_dhcp_option realloc options (t1 * 256 + t2) data =
    finish_encap realloc t1 e (edit_at realloc options offset (Some e) old_len (t1 * 256 + t2) data)"
proof -
  have "DHCP_ENCAPSULATOR (t1 * 256 + t2) = t1" "t1 * 256 + t2 \<noteq> DHCP_PAD"
    using assms(2,3) by (simp_all add: dhcp_consts)
  then show ?thesis
    using assms(2,4,5)
    unfolding set_dhcp_option.simps [of realloc options "t1 * 256 + t2" data] option_size_def
      put_option_def edit_at_def finish_encap_def
    by (cases found; cases "data = []")
      (simp_all add: Let_def assms(1) DHCP_OPTION_HEADER_LEN_def del: of_nat_add of_nat_mult
         split: prod.split sum.split)
qed

lemma set_dhcp_option_new_encap:
  assumes "find_dhcp_option_with_encap options (t1 * 256 + t2) = (Inl rc, None)"
    and "0 < t1" and "t2 < 256"
  shows "set_dhcp_option realloc options (t1 * 256 + t2) data =
    (case set_dhcp_option realloc options t1 [255] of
       (options, Inl rc) \<Rightarrow> (options, Inl rc)
     | (options, Inr e) \<Rightarrow>
         finish_encap realloc t1 e (edit_at realloc options (e + 2) (Some e) 0 (t1 * 256 + t2) data))"
proof -
  have "DHCP_ENCAPSULATOR (t1 * 256 + t2) = t1" "t1 * 256 + t2 \<noteq> DHCP_PAD"
    using assms(2,3) by (simp_all add: dhcp_consts)
  then show ?thesis
    using assms(2)
    unfolding set_dhcp_option.simps [of realloc options "t1 * 256 + t2" data] option_size_def
      put_option_def edit_at_def finish_encap_def
    by (cases "data = []")
      (simp_all add: Let_def assms(1) DHCP_OPTION_HEADER_LEN_def DHCP_END_def del: of_nat_add of_nat_mult
         split: prod.split sum.split)
qed

section \<open>The contract of a reallocator\<close>

text \<open>
  What editing relies on: a successful reallocation provides the requested space and keeps the
  block's contents and used length; a failed one leaves the block as it was.
\<close>

locale dhcpopt_reallocator =
  fixes realloc :: "'a dhcpopt_realloc"
  assumes realloc_ok: "realloc options len = (options', Inr u) \<Longrightarrow>
      len \<le> do_alloc_len options' \<and>
      (len \<noteq> 0 \<or> do_used_len options = 0 \<longrightarrow> do_used_len options' = do_used_len options) \<and>
      (\<forall>i. i < do_alloc_len options \<longrightarrow> i < do_alloc_len options' \<longrightarrow>
         do_data options' i = do_data options i)"
    and realloc_fail: "realloc options len = (options', Inl rc) \<Longrightarrow>
      do_alloc_len options' = do_alloc_len options \<and>
      do_used_len options' = do_used_len options \<and>
      (\<forall>i. i < do_alloc_len options \<longrightarrow> do_data options' i = do_data options i)"
begin

lemma resize_expand_ok:
  assumes "resize_expand realloc options n = (options', Inr u)"
    and "do_used_len options \<le> do_alloc_len options"
  shows "do_used_len options' = do_used_len options" and "n \<le> do_alloc_len options'"
    and "do_used_len options \<le> do_alloc_len options'"
    and "i < do_used_len options \<Longrightarrow> do_data options' i = do_data options i"
proof -
  consider (same) "n \<le> do_alloc_len options" "options' = options"
    | (more) o1 where "do_alloc_len options < n" "realloc options n = (o1, Inr ())"
      "options' = o1\<lparr>do_data := generic_memset (do_data o1) (do_alloc_len options) 0
                       (do_alloc_len o1 - do_alloc_len options)\<rparr>"
    using assms(1) by (auto simp: resize_expand_def Let_def split: if_splits prod.splits sum.splits)
  then have "do_used_len options' = do_used_len options \<and> n \<le> do_alloc_len options' \<and>
      do_used_len options \<le> do_alloc_len options' \<and>
      (i < do_used_len options \<longrightarrow> do_data options' i = do_data options i)"
  proof cases
    case same
    then show ?thesis using assms(2) by simp
  next
    case more
    with realloc_ok [OF more(2)] assms(2) show ?thesis by (auto simp: generic_memset_apply)
  qed
  then show "do_used_len options' = do_used_len options" "n \<le> do_alloc_len options'"
    "do_used_len options \<le> do_alloc_len options'"
    "i < do_used_len options \<Longrightarrow> do_data options' i = do_data options i" by auto
qed

lemma resize_encapsulator_ok:
  assumes "resize_encapsulator options encap delta = (options', Inr u)"
  shows "do_used_len options' = do_used_len options" and "do_alloc_len options' = do_alloc_len options"
    and "do_data options' = (case encap of None \<Rightarrow> do_data options
      | Some e \<Rightarrow> (do_data options)(e + 1 := word_of_nat (size_t (uint (do_data options (e + 1)) + delta))))"
  using assms by (auto simp: resize_encapsulator_def Let_def split: option.splits if_splits)

text \<open>
  Resizing replaces the bytes \<open>B\<close> of the option by \<open>new_len\<close> bytes to be filled in and keeps what
  stands before and after, but for the length byte of the encapsulator.
\<close>

lemma resize_ok:
  assumes ok: "resize_dhcp_option realloc options (length A) encap (length B) new_len = (options', Inr u)"
    and data: "mem_at (do_data options) 0 (A @ B @ C)"
    and used: "do_used_len options = length (A @ B @ C)" "do_used_len options \<le> do_alloc_len options"
    and small: "do_used_len options + new_len < 2 ^ 64"
    and encap: "\<And>e. encap = Some e \<Longrightarrow> e + 1 < length A"
  defines "A' \<equiv> (case encap of None \<Rightarrow> A
      | Some e \<Rightarrow> A[e + 1 := word_of_nat (size_t (uint (A ! (e + 1)) + (int new_len - int (length B))))])"
  shows "do_used_len options' = length A + new_len + length C"
    and "do_used_len options' \<le> do_alloc_len options'" and "new_len \<le> DHCP_MAX_LEN"
    and "\<exists>X. length X = new_len \<and> mem_at (do_data options') 0 (A' @ X @ C)"
proof -
  define n where "n = length A + new_len + length C"
  define delta where "delta = int new_len - int (length B)"
  have n: "size_t (int (do_used_len options) + delta) = n"
    using used small by (simp add: size_t_def n_def delta_def)
  have n': "size_t (int n - int (length A) - int new_len) = length C"
    using used small by (simp add: size_t_def n_def)
  obtain o1 u1 o2 u2 where max: "new_len \<le> DHCP_MAX_LEN"
    and o1: "resize_expand realloc options n = (o1, Inr u1)"
    and o2: "resize_encapsulator o1 encap delta = (o2, Inr u2)"
    and fin: "(let o3 = o2\<lparr>do_used_len := n, do_data := generic_memmove (do_data o2)
          (length A + new_len) (length A + length B) (length C)\<rparr>
        in if n < do_alloc_len o3 then realloc o3 n else (o3, Inr ())) = (options', Inr u)"
    using ok unfolding resize_dhcp_option_def delta_def [symmetric] Let_def n n'
    by (auto split: if_splits prod.splits sum.splits simp: n')
  note e1 = resize_expand_ok [OF o1 used(2)] and e2 = resize_encapsulator_ok [OF o2]
  define d3 where "d3 = generic_memmove (do_data o2) (length A + new_len) (length A + length B) (length C)"
  have d1: "mem_at (do_data o1) 0 (A @ B @ C)"
    using data used e1(4) by (auto simp: mem_at_def)
  have d2: "mem_at (do_data o2) 0 (A' @ B @ C)"
  proof (cases encap)
    case None
    then show ?thesis using d1 e2(3) by (simp add: A'_def)
  next
    case (Some e)
    have "do_data o1 (e + 1) = A ! (e + 1)"
      using d1 encap [OF Some] by (auto simp: mem_at_def nth_append)
    then show ?thesis
      using d1 e2(3) encap [OF Some] Some
      by (auto simp: A'_def mem_at_def nth_append nth_list_update delta_def)
  qed
  have lenA: "length A' = length A" by (simp add: A'_def split: option.split)
  have "mem_at d3 0 (A' @ mem_bytes d3 (length A) new_len @ C)"
  proof -
    have "mem_at (do_data o2) 0 A'" "mem_at (do_data o2) (length A + length B) C"
      using d2 lenA by simp_all
    then have "mem_at d3 0 A'" "mem_at d3 (length A + new_len) C"
      using lenA by (simp_all add: mem_at_def d3_def generic_memmove_apply add.assoc)
    then show ?thesis by (simp add: lenA)
  qed
  moreover have "do_used_len options' = n \<and> n \<le> do_alloc_len options' \<and>
      (\<forall>i<n. do_data options' i = d3 i)"
  proof (cases "n < do_alloc_len o2")
    case True
    then have "realloc (o2\<lparr>do_used_len := n, do_data := d3\<rparr>) n = (options', Inr u)"
      using fin by (simp add: Let_def d3_def)
    from realloc_ok [OF this] True show ?thesis by auto
  next
    case False
    then have "options' = o2\<lparr>do_used_len := n, do_data := d3\<rparr>"
      using fin by (simp add: Let_def d3_def)
    then show ?thesis using e1(2) e2(2) by simp
  qed
  ultimately have fin': "do_used_len options' = n" "n \<le> do_alloc_len options'"
      "mem_at (do_data options') 0 (A' @ mem_bytes d3 (length A) new_len @ C)"
    using lenA by (auto simp: mem_at_def n_def)
  show "do_used_len options' = length A + new_len + length C"
    "do_used_len options' \<le> do_alloc_len options'" "new_len \<le> DHCP_MAX_LEN"
    using fin' max by (simp_all add: n_def)
  show "\<exists>X. length X = new_len \<and> mem_at (do_data options') 0 (A' @ X @ C)"
    using fin'(3) by (intro exI [of _ "mem_bytes d3 (length A) new_len"]) simp
qed

lemma set_plain:
  assumes set: "set_dhcp_option realloc options t data = (options', Inr off)"
    and rep: "opts_rep options items rest" and t: "0 < t" "t < 255"
    and small: "do_used_len options + 256 < 2 ^ 64"
  shows "opts_rep options' (opt_store t data items) rest" and "option_size data \<le> 255"
proof -
  obtain pre old post where sp: "items = pre @ old @ post"
      "\<And>v. opt_store t v items = pre @ new_items t v @ post"
    and run: "\<And>realloc data. set_dhcp_option realloc options t data =
      edit_at realloc options (length (enc_items pre)) None (length (enc_items old)) t data"
    by (rule plain_place [OF rep t]) blast
  obtain o1 u where res: "resize_dhcp_option realloc options (length (enc_items pre)) None
        (length (enc_items old)) (option_size data) = (o1, Inr u)"
    and put: "options' = put_option o1 (length (enc_items pre)) t data"
    using set run by (auto simp: edit_at_def split: prod.splits sum.splits)
  have max: "option_size data \<le> 255"
    using res by (auto simp: resize_dhcp_option_def Let_def DHCP_MAX_LEN_def split: if_splits)
  have data: "mem_at (do_data options) 0 (enc_items pre @ enc_items old @ (enc_items post @ rest))"
    "do_used_len options = length (enc_items pre @ enc_items old @ (enc_items post @ rest))"
    "do_used_len options \<le> do_alloc_len options" "list_all opt_ok items" "is_tail rest"
    using rep by (simp_all add: opts_rep_def sp)
  have "do_used_len options + option_size data < 2 ^ 64" using small max by simp
  note r = resize_ok [OF res data(1-3) this]
  obtain X where "length X = option_size data"
    "mem_at (do_data o1) 0 (enc_items pre @ X @ (enc_items post @ rest))"
    using r(4) by auto
  from put_option_bytes [OF this(2,1), of t] have
    "mem_at (do_data options') 0 (enc_items (opt_store t data items) @ rest)"
    by (simp add: put sp(2))
  moreover have "list_all opt_ok (opt_store t data items)"
    using data(4) t max by (intro opt_ok_store) (auto simp: option_size_def split: if_splits)
  ultimately show "opts_rep options' (opt_store t data items) rest"
    using r(1,2) data(5) by (simp add: opts_rep_def put sp(2))
  show "option_size data \<le> 255" by (fact max)
qed

lemma edit_encap:
  assumes edit: "edit_at realloc options (length (enc_items pre) + 2 + length (enc_items ip))
      (Some (length (enc_items pre))) (length (enc_items old)) (t1 * 256 + t2) data = (options', Inr off)"
    and rep: "opts_rep options (pre @ Opt t1 (encap_data (ip @ old @ ipost) er) # post) rest"
    and t2: "t2 < 256" and small: "do_used_len options + 256 < 2 ^ 64"
  defines "v \<equiv> encap_data (ip @ new_items t2 data @ ipost) er"
  shows "opts_rep options' (pre @ Opt t1 v # post) rest"
    and "unat (do_data options' (length (enc_items pre) + 1)) = length v"
proof -
  define e where "e = length (enc_items pre)"
  define v0 where "v0 = encap_data (ip @ old @ ipost) er"
  define A where "A = enc_items pre @ word_of_nat t1 # word_of_nat (length v0) # enc_items ip"
  define C where "C = enc_items ipost @ 255 # er @ enc_items post @ rest"
  define delta where "delta = int (option_size data) - int (length (enc_items old))"
  have rep': "mem_at (do_data options) 0 (A @ enc_items old @ C)"
    "do_used_len options = length (A @ enc_items old @ C)"
    "do_used_len options \<le> do_alloc_len options"
    "list_all opt_ok (pre @ Opt t1 v0 # post)" "is_tail rest"
    using rep by (simp_all add: opts_rep_def A_def C_def v0_def encap_data_def)
  have lenA: "length A = e + 2 + length (enc_items ip)" by (simp add: A_def e_def)
  obtain o1 u where res: "resize_dhcp_option realloc options (length A) (Some e)
        (length (enc_items old)) (option_size data) = (o1, Inr u)"
    and put: "options' = put_option o1 (length A) (t1 * 256 + t2) data"
    using edit unfolding edit_at_def e_def [symmetric] lenA [symmetric]
    by (auto split: prod.splits sum.splits)
  have max: "option_size data \<le> 255"
    using res by (auto simp: resize_dhcp_option_def Let_def DHCP_MAX_LEN_def split: if_splits)
  have v0: "length v0 < 256" and Ae: "A ! (e + 1) = word_of_nat (length v0)"
    using rep'(4) by (simp_all add: A_def e_def nth_append)
  have len: "int (length v0) + delta = int (length v)"
    by (simp add: v0_def v_def delta_def encap_data_def)
  have "uint (word_of_nat (length v0) :: u8) = int (length v0)"
    using v0 by (simp add: unsigned_of_nat take_bit_nat_eq_self)
  moreover have "length v < 2 ^ 64" using len v0 max by (simp add: delta_def)
  ultimately have size: "size_t (uint (A ! (e + 1)) + delta) = length v"
    unfolding Ae using len by (simp add: size_t_def)
  have "length v \<le> 255"
  proof -
    have "do_data o2 (e + 1) = A ! (e + 1)" if "resize_expand realloc options n = (o2, Inr u2)" for n o2 u2
      using resize_expand_ok(4) [OF that rep'(3), of "e + 1"] rep'(1,2)
      by (auto simp: mem_at_def nth_append lenA)
    with res size show ?thesis
      by (auto simp: resize_dhcp_option_def resize_encapsulator_def Let_def DHCP_MAX_LEN_def delta_def
        split: if_splits prod.splits sum.splits)
  qed
  then have v: "length v < 256" by simp
  note r = resize_ok [OF res rep'(1-3)]
  have A': "A[e + 1 := word_of_nat (size_t (uint (A ! (e + 1)) + delta))] =
      enc_items pre @ word_of_nat t1 # word_of_nat (length v) # enc_items ip"
    unfolding size by (simp add: A_def e_def list_update_append)
  have small': "do_used_len options + option_size data < 2 ^ 64" using small max by simp
  obtain X where X: "length X = option_size data"
    "mem_at (do_data o1) 0
       ((enc_items pre @ word_of_nat t1 # word_of_nat (length v) # enc_items ip) @ X @ C)"
    using r(4) [OF small'] lenA unfolding delta_def [symmetric] option.case A' by auto
  have "put_option o1 (length A) (t1 * 256 + t2) data = put_option o1 (length A) t2 data"
    using t2 by (simp add: put_option_def del: of_nat_add of_nat_mult)
  then have fin: "mem_at (do_data options') 0
      (enc_items (pre @ Opt t1 v # post) @ rest)"
    using put_option_bytes [OF X(2,1), of t2] put lenA
    by (simp add: v_def encap_data_def C_def e_def)
  moreover have "list_all opt_ok (pre @ Opt t1 v # post)" using rep'(4) v by simp
  ultimately show "opts_rep options' (pre @ Opt t1 v # post) rest"
    using r(1,2) [OF small'] lenA put rep'(5)
    by (simp add: opts_rep_def e_def C_def v_def encap_data_def)
  show "unat (do_data options' (length (enc_items pre) + 1)) = length v"
    using fin v by (simp add: unat_small_u8)
qed

end

text \<open>A reallocator that never refuses to shrink, such as one that leaves a fixed block alone.\<close>

locale dhcpopt_shrinker = dhcpopt_reallocator +
  assumes realloc_shrink: "len \<le> do_alloc_len options \<Longrightarrow> \<exists>options'. realloc options len = (options', Inr ())"
begin

lemma set_plain_fits:
  assumes rep: "opts_rep options items rest" and t: "0 < t" "t < 255"
    and small: "do_used_len options + 256 < 2 ^ 64"
    and size: "option_size data \<le> 255"
      "length (enc_items (opt_store t data items) @ rest) \<le> do_alloc_len options"
  shows "\<exists>options' off. set_dhcp_option realloc options t data = (options', Inr off)"
proof -
  obtain pre old post where sp: "items = pre @ old @ post"
      "\<And>v. opt_store t v items = pre @ new_items t v @ post"
    and run: "\<And>realloc data. set_dhcp_option realloc options t data =
      edit_at realloc options (length (enc_items pre)) None (length (enc_items old)) t data"
    by (rule plain_place [OF rep t]) blast
  define n where "n = length (enc_items (opt_store t data items) @ rest)"
  have "do_used_len options = length (enc_items pre @ enc_items old @ enc_items post @ rest)"
    using rep sp(1) by (simp add: opts_rep_def)
  then have "int (do_used_len options) + (int (option_size data) - int (length (enc_items old))) = int n"
    by (simp add: n_def sp(2))
  moreover have "n < 2 ^ 64"
    using calculation small size(1) by simp
  ultimately have n: "size_t (int (do_used_len options) +
      (int (option_size data) - int (length (enc_items old)))) = n" by (simp add: size_t_def)
  have "resize_expand realloc options n = (options, Inr ())"
    using size(2) by (simp add: resize_expand_def n_def)
  then have "\<exists>o1. resize_dhcp_option realloc options (length (enc_items pre)) None
      (length (enc_items old)) (option_size data) = (o1, Inr ())"
    using size realloc_shrink n
    by (simp add: resize_dhcp_option_def Let_def DHCP_MAX_LEN_def resize_encapsulator_def)
  then show ?thesis using run [of realloc data] by (auto simp: edit_at_def)
qed

lemma set_delete:
  assumes "opts_rep options items rest" and "0 < t" "t < 255" and "do_used_len options + 256 < 2 ^ 64"
  shows "opts_rep (fst (set_dhcp_option realloc options t [])) (opt_store t [] items) rest"
proof -
  have "length (enc_items (opt_store t [] items)) \<le> length (enc_items items)"
    by (induction t "[] :: u8 list" items rule: opt_store.induct) (simp_all add: new_items_def)
  then obtain options' off where "set_dhcp_option realloc options t [] = (options', Inr off)"
    using set_plain_fits [OF assms, of "[]"] assms(1) by (auto simp: opts_rep_def option_size_def)
  with set_plain(1) [OF this assms] show ?thesis by simp
qed

lemma finish_encap_ok:
  assumes fin: "finish_encap realloc t1 (length (enc_items pre)) (edit_at realloc options
      (length (enc_items pre) + 2 + length (enc_items ip)) (Some (length (enc_items pre)))
      (length (enc_items old)) (t1 * 256 + t2) data) = (options', Inr off)"
    and rep: "opts_rep options (pre @ Opt t1 (encap_data (ip @ old @ ipost) er) # post) rest"
    and pre: "opt_lookup t1 pre = None" and t: "t2 < 256"
    and small: "do_used_len options + 256 < 2 ^ 64"
  defines "v \<equiv> encap_data (ip @ new_items t2 data @ ipost) er"
  shows "opts_rep options' (pre @ new_items t1 (if v = [255] then [] else v) @ post) rest"
proof -
  obtain o1 where edit: "edit_at realloc options (length (enc_items pre) + 2 + length (enc_items ip))
      (Some (length (enc_items pre))) (length (enc_items old)) (t1 * 256 + t2) data = (o1, Inr off)"
    and o': "options' = (if unat (do_data o1 (length (enc_items pre) + 1)) \<le> 1
      then fst (set_dhcp_option realloc o1 t1 []) else o1)"
    using fin by (auto simp: finish_encap_def split: prod.splits sum.splits)
  note e = edit_encap [OF edit rep t small, folded v_def]
  have v: "v \<noteq> []" "length v \<le> 1 \<longleftrightarrow> v = [255]"
    unfolding v_def encap_data_short by (simp_all add: encap_data_def)
  have t1: "0 < t1" "t1 < 255" "length v < 256" using e(1) by (simp_all add: opts_rep_def)
  have "do_used_len o1 + 256 < 2 ^ 64" if "v = [255]"
  proof -
    have "do_used_len o1 = length (enc_items pre) + 3 + length (enc_items post) + length rest"
      using e(1) that by (simp add: opts_rep_def)
    moreover have "do_used_len options \<ge> length (enc_items pre) + 3 + length (enc_items post) + length rest"
      using rep by (simp add: opts_rep_def encap_data_def)
    ultimately show ?thesis using small by simp
  qed
  then show ?thesis
    unfolding o' e(2) v(2)
    using e(1) set_delete [OF e(1) t1(1,2)] v(1) opt_store_split [OF pre, of "[]" v post]
    by (auto simp: new_items_def)
qed

lemma set_encap:
  assumes set: "set_dhcp_option realloc options (t1 * 256 + t2) data = (options', Inr off)"
    and rep: "opts_rep options items rest" and t: "0 < t1" "t1 < 255" "0 < t2" "t2 < 255"
    and inner: "opt_lookup t1 items = None \<and> inner = [] \<and> er = [] \<or>
      opt_lookup t1 items = Some (encap_data inner er)" "list_all opt_ok inner"
    and small: "do_used_len options + 512 < 2 ^ 64"
  defines "v \<equiv> encap_data (encap_store t2 data inner) er"
  shows "opts_rep options' (opt_store t1 (if v = [255] then [] else v) items) rest"
  using inner(1)
proof
  assume new: "opt_lookup t1 items = None \<and> inner = [] \<and> er = []"
  have ok: "list_all opt_ok items" using rep by (simp add: opts_rep_def)
  have "find_dhcp_option_with_encap options (t1 * 256 + t2) = (Inl ENOENT, None)"
    using find_absent [OF rep, of "t1 * 256 + t2"] opt_lookup_large [OF ok] new t by (simp add: passes_def)
  then obtain o1 e where o1: "set_dhcp_option realloc options t1 [255] = (o1, Inr e)"
    and fin: "finish_encap realloc t1 e
        (edit_at realloc o1 (e + 2) (Some e) 0 (t1 * 256 + t2) data) = (options', Inr off)"
    using set t by (auto simp: set_dhcp_option_new_encap split: prod.splits sum.splits)
  have "do_used_len options + 256 < 2 ^ 64" using small by simp
  note rep1 = set_plain(1) [OF o1 rep t(1,2) this]
  have st: "opt_store t1 [255] items = items @ [Opt t1 (encap_data ([] @ [] @ []) [])]"
    using new by (simp add: opt_store_absent new_items_def encap_data_def)
  have "e = length (enc_items items)"
    using o1 plain_absent [OF rep t(1,2)] new by (auto simp: edit_at_def split: prod.splits sum.splits)
  moreover have "do_used_len o1 + 256 < 2 ^ 64"
    using rep1 rep small unfolding st by (simp add: opts_rep_def encap_data_def)
  ultimately show ?thesis
    using finish_encap_ok [of t1 items o1 "[]" "[]" t2 data options' off "[]" "[]" "[]" rest]
      fin rep1 t new unfolding st v_def
    by (auto simp: encap_store_def opt_store_absent split: if_splits)
next
  assume old: "opt_lookup t1 items = Some (encap_data inner er)"
  then obtain pre post where sp: "items = pre @ Opt t1 (encap_data inner er) # post"
    "opt_lookup t1 pre = None" by (rule opt_lookup_split)
  note rep' = rep [unfolded sp(1)]
  note find = find_encap_inner [OF rep' sp(2) inner(2) t(3,4)]
  have st: "opt_store t1 w items = pre @ new_items t1 w @ post" for w
    using sp by (simp add: opt_store_split)
  have sm: "do_used_len options + 256 < 2 ^ 64" and t2: "t2 < 256" using small t by simp_all
  show ?thesis
  proof (cases "opt_lookup t2 inner")
    case None
    have "set_dhcp_option realloc options (t1 * 256 + t2) data = finish_encap realloc t1
        (length (enc_items pre)) (edit_at realloc options (length (enc_items pre) + 2)
        (Some (length (enc_items pre))) 0 (t1 * 256 + t2) data)"
      using set_dhcp_option_encap [OF find(1) [OF None] t(1) t2] by simp
    then show ?thesis
      using finish_encap_ok [of t1 pre options "[]" "[]" t2 data options' off inner er post rest]
        set rep' sp(2) sm t2 None by (auto simp: st v_def encap_store_def split: if_splits)
  next
    case (Some w)
    then obtain ip ipost where isp: "inner = ip @ Opt t2 w # ipost" "opt_lookup t2 ip = None"
      by (rule opt_lookup_split)
    have "mem_at (do_data options) (length (enc_items pre) + 2 + length (enc_items ip)) (enc_item (Opt t2 w))"
      "opt_ok (Opt t2 w)"
      using rep' inner(2) by (simp_all add: opts_rep_def encap_data_def isp)
    note len = dhcp_option_len_item [OF this]
    have "set_dhcp_option realloc options (t1 * 256 + t2) data = finish_encap realloc t1
        (length (enc_items pre)) (edit_at realloc options (length (enc_items pre) + 2 + length (enc_items ip))
        (Some (length (enc_items pre))) (length (enc_items [Opt t2 w])) (t1 * 256 + t2) data)"
      using set_dhcp_option_encap [OF find(2) [OF isp] t(1) t2] len by simp
    then show ?thesis
      using finish_encap_ok [of t1 pre options ip "[Opt t2 w]" t2 data options' off ipost er post rest]
        set rep' sp(2) sm t2 Some by (auto simp: st v_def encap_store_def isp opt_store_split split: if_splits)
  qed
qed

end

text \<open>A block of fixed size satisfies both contracts.\<close>

interpretation fixed: dhcpopt_shrinker dhcpopt_no_realloc
  by unfold_locales (auto simp: dhcpopt_no_realloc_def split: if_splits)

section \<open>Initialisation: every buffer is a well-formed block\<close>

definition well_formed :: "mem \<Rightarrow> nat \<Rightarrow> bool" where
  "well_formed d n \<longleftrightarrow> (\<exists>items rest. list_all opt_ok items \<and> is_tail rest \<and>
     n = length (enc_items items @ rest) \<and> mem_at d 0 (enc_items items @ rest))"

lemma well_formed_step:
  assumes "well_formed d n"
  shows "well_formed d (n + dhcp_option_len d n)"
proof -
  obtain items rest where wf: "list_all opt_ok items" "is_tail rest"
    "n = length (enc_items items) + length rest" "mem_at d 0 (enc_items items)"
    "mem_at d (length (enc_items items)) rest"
    using assms by (auto simp: well_formed_def)
  let ?k = "dhcp_option_len d n"
  consider (later) "rest \<noteq> []" | (pad) "rest = []" "d n = 0" | (stop) "rest = []" "d n = 255"
    | (opt) "rest = []" "d n \<noteq> 0" "d n \<noteq> 255" by blast
  then show ?thesis
  proof cases
    case later
    then show ?thesis unfolding well_formed_def
      using wf mem_at_mem_bytes [of d n ?k]
      by (intro exI [of _ items] exI [of _ "rest @ mem_bytes d n ?k"]) (simp add: is_tail_def)
  next
    case pad
    then show ?thesis unfolding well_formed_def
      using wf by (intro exI [of _ "items @ [Pad]"] exI [of _ "[]"])
        (simp add: is_tail_def dhcp_option_len_def dhcp_consts)
  next
    case stop
    then show ?thesis unfolding well_formed_def
      using wf by (intro exI [of _ items] exI [of _ "[255]"])
        (simp add: is_tail_def dhcp_option_len_def dhcp_consts)
  next
    case opt
    let ?v = "mem_bytes d (n + 2) (unat (d (n + 1)))"
    have tag: "0 < unat (d n)" "unat (d n) \<noteq> 255"
      using opt unat_eq_zero [of "d n"] unsigned_word_eqI [of "d n" 255] by auto
    have b: "unat (d n) < 256" "unat (d (n + 1)) < 256"
      using unsigned_less [of "d n"] unsigned_less [of "d (n + 1)"] by simp_all
    have "unat (d n) < 255" using b(1) tag(2) by linarith
    with tag b(2) have "opt_ok (Opt (unat (d n)) ?v)" by simp
    moreover have "mem_at d n (enc_item (Opt (unat (d n)) ?v))"
      using mem_at_mem_bytes [of d "n + 2" "unat (d (n + 1))"] by simp
    moreover have "?k = length (enc_item (Opt (unat (d n)) ?v))"
      using tag by (simp add: dhcp_option_len_def dhcp_consts)
    ultimately show ?thesis unfolding well_formed_def
      using wf opt(1) by (intro exI [of _ "items @ [Opt (unat (d n)) ?v]"] exI [of _ "[]"])
        (simp add: is_tail_def del: enc_item.simps opt_ok.simps)
  qed
qed

lemma update_used_len_well_formed:
  "well_formed d offset \<Longrightarrow> well_formed d used \<Longrightarrow> used \<le> offset \<Longrightarrow>
   well_formed d (update_used_len_loop d offset remaining used) \<and>
   update_used_len_loop d offset remaining used \<le> offset + remaining"
proof (induction d offset remaining used rule: update_used_len_loop.induct)
  case (1 d offset remaining used)
  let ?k = "dhcp_option_len d offset"
  show ?case
  proof (cases "remaining = 0 \<or> remaining < ?k")
    case True
    then have "update_used_len_loop d offset remaining used = used"
      by (subst update_used_len_loop.simps) (auto simp: Let_def)
    then show ?thesis using "1.prems" by simp
  next
    case False
    then have "update_used_len_loop d offset remaining used =
        update_used_len_loop d (offset + ?k) (remaining - ?k)
          (if unat (d offset) \<noteq> DHCP_PAD then offset + ?k else used)"
      by (subst update_used_len_loop.simps) (simp add: Let_def)
    then show ?thesis
      using "1.IH" [of ?k] "1.prems" well_formed_step [OF "1.prems"(1)] False by auto
  qed
qed

lemma dhcpopt_init_rep:
  "\<exists>items rest. opts_rep (dhcpopt_init options data alloc_len) items rest"
proof -
  have "well_formed data 0" unfolding well_formed_def
    by (intro exI [of _ "[]"]) (simp add: is_tail_def)
  from update_used_len_well_formed [OF this this, of alloc_len] show ?thesis
    by (auto simp: well_formed_def opts_rep_def dhcpopt_init_def dhcpopt_update_used_len_def)
qed

text \<open>The blocks that a packet can hold: a received buffer, edited by any sequence of stores.\<close>

inductive dhcpopt_reachable :: "dhcp_options \<Rightarrow> bool" where
  reach_init: "alloc_len < 2 ^ 63 \<Longrightarrow> dhcpopt_reachable (dhcpopt_init options data alloc_len)"
| reach_store: "dhcpopt_reachable options \<Longrightarrow> 0 < tag \<Longrightarrow> tag < 255 \<Longrightarrow>
    dhcpopt_reachable (fst (dhcpopt_store dhcpopt_no_realloc options tag data))"

text \<open>With a block of fixed size a store that fails changes nothing.\<close>

lemma fixed_resize:
  "resize_dhcp_option dhcpopt_no_realloc options offset None old_len new_len =
    (let n = size_t (int (do_used_len options) + (int new_len - int old_len))
     in if new_len > 255 \<or> n > do_alloc_len options then (options, Inl ENOSPC)
        else (options\<lparr>do_used_len := n, do_data := generic_memmove (do_data options) (offset + new_len)
                (offset + old_len) (size_t (int n - int offset - int new_len))\<rparr>, Inr ()))"
  by (simp add: resize_dhcp_option_def resize_expand_def resize_encapsulator_def dhcpopt_no_realloc_def
    DHCP_MAX_LEN_def Let_def)

lemma fixed_store:
  assumes "opts_rep options items rest" and "0 < t" and "t < 255" and "do_used_len options < 2 ^ 63"
  shows "dhcpopt_store dhcpopt_no_realloc options t data = (options, Inl ENOSPC) \<and>
      (option_size data > 255 \<or> length (enc_items (opt_store t data items) @ rest) > do_alloc_len options) \<or>
    (\<exists>options'. dhcpopt_store dhcpopt_no_realloc options t data = (options', Inr ()) \<and>
      option_size data \<le> 255 \<and> length (enc_items (opt_store t data items) @ rest) \<le> do_alloc_len options \<and>
      do_alloc_len options' = do_alloc_len options \<and> opts_rep options' (opt_store t data items) rest)"
proof -
  obtain pre old post where sp: "items = pre @ old @ post"
      "\<And>v. opt_store t v items = pre @ new_items t v @ post"
    and run: "\<And>realloc data. set_dhcp_option realloc options t data =
      edit_at realloc options (length (enc_items pre)) None (length (enc_items old)) t data"
    by (rule plain_place [OF assms(1-3)]) blast
  have small: "do_used_len options + 256 < 2 ^ 64" using assms(4) by simp
  define n where "n = size_t (int (do_used_len options) +
    (int (option_size data) - int (length (enc_items old))))"
  have used: "do_used_len options = length (enc_items pre @ enc_items old @ enc_items post @ rest)"
    using assms(1) sp(1) by (simp add: opts_rep_def)
  have n: "n = length (enc_items (opt_store t data items) @ rest)" if "option_size data \<le> 255"
    using used assms(4) that by (simp add: n_def sp(2) size_t_def)
  show ?thesis
  proof (cases "option_size data > 255 \<or> n > do_alloc_len options")
    case True
    then have "dhcpopt_store dhcpopt_no_realloc options t data = (options, Inl ENOSPC)"
      by (auto simp: dhcpopt_store_def run edit_at_def fixed_resize Let_def n_def)
    then show ?thesis using True n by (cases "option_size data \<le> 255") auto
  next
    case False
    then obtain options' off where set: "set_dhcp_option dhcpopt_no_realloc options t data = (options', Inr off)"
      "do_alloc_len options' = do_alloc_len options"
      by (auto simp: run edit_at_def fixed_resize Let_def n_def)
    from fixed.set_plain [OF set(1) assms(1-3) small] show ?thesis
      using False n set by (auto simp: dhcpopt_store_def)
  qed
qed

lemma reachable_rep:
  assumes "dhcpopt_reachable options"
  shows "(\<exists>items rest. opts_rep options items rest) \<and> do_alloc_len options < 2 ^ 63"
  using assms
proof induction
  case (reach_init alloc_len options data)
  then show ?case using dhcpopt_init_rep [of options data alloc_len]
    by (simp add: dhcpopt_init_def dhcpopt_update_used_len_def)
next
  case (reach_store options tag data)
  then obtain items rest where rep: "opts_rep options items rest" and "do_alloc_len options < 2 ^ 63" by auto
  then have "do_used_len options < 2 ^ 63" by (auto simp: opts_rep_def)
  note st = fixed_store [OF rep reach_store(2,3) this, of data]
  show ?case
  proof (cases "snd (dhcpopt_store dhcpopt_no_realloc options tag data)")
    case (Inl rc)
    with st have "fst (dhcpopt_store dhcpopt_no_realloc options tag data) = options" by auto
    then show ?thesis using reach_store.IH by simp
  next
    case (Inr u)
    with st have "opts_rep (fst (dhcpopt_store dhcpopt_no_realloc options tag data)) (opt_store tag data items) rest"
      "do_alloc_len (fst (dhcpopt_store dhcpopt_no_realloc options tag data)) = do_alloc_len options"
      by auto
    then show ?thesis using reach_store.IH by auto
  qed
qed

lemma reachable_cases:
  assumes "dhcpopt_reachable options"
  obtains items rest where "opts_rep options items rest" and "do_used_len options < 2 ^ 63"
  using reachable_rep [OF assms] by (auto simp: opts_rep_def)

lemma length_opt_store:
  "length (enc_items (opt_store t v items)) + (case opt_lookup t items of None \<Rightarrow> 0 | Some w \<Rightarrow> length w + 2) =
   length (enc_items items) + option_size v"
  by (induction t v items rule: opt_store.induct) (auto split: option.splits)

text \<open>The space the first instance of an option takes in a block.\<close>

definition stored_size :: "'a dhcp_options_scheme \<Rightarrow> nat \<Rightarrow> nat" where
  "stored_size options tag = (case dhcpopt_fetch options tag 0 of Inl _ \<Rightarrow> 0 | Inr (n, _) \<Rightarrow> n + 2)"


text \<open>A buffer with a host name and a router option, and room for a few more bytes.\<close>

definition sample_block :: dhcp_options where
  "sample_block = dhcpopt_init \<lparr>do_data = \<lambda>_. 0, do_used_len = 0, do_alloc_len = 0\<rparr>
     (mem_write (\<lambda>_. 0) 0 [12, 2, 65, 66, 3, 4, 10, 0, 0, 1, 255]) 24"

lemma sample_block_reachable: "dhcpopt_reachable sample_block"
  unfolding sample_block_def by (rule reach_init) simp

lemma sample_block_len: "do_used_len sample_block = 11" "do_alloc_len sample_block = 24"
  by (simp_all add: sample_block_def dhcpopt_init_def dhcpopt_update_used_len_def
    update_used_len_loop.simps dhcp_option_len_def dhcp_consts mem_write_def)


lemma lookup_encap_store:
  "data \<noteq> [] \<Longrightarrow> opt_lookup t (encap_store t2 data inner) = (if t = t2 then Some data else opt_lookup t inner)"
  by (auto simp: encap_store_def new_items_def opt_lookup_store_same opt_lookup_store_other)

lemma encap_data_inj_end:
  "data \<noteq> [] \<Longrightarrow> encap_data (encap_store t2 data inner) er \<noteq> [255]"
proof -
  assume "data \<noteq> []"
  then have "encap_store t2 data inner \<noteq> []"
    using lookup_encap_store [of data t2 t2 inner] by auto
  then obtain item items where "encap_store t2 data inner = item # items" by (cases "encap_store t2 data inner") auto
  then show ?thesis by (cases item) (auto simp: encap_data_def)
qed

lemma opt_ok_encap_store:
  assumes "list_all opt_ok inner" "0 < t" "t < 255" "length v < 256"
  shows "list_all opt_ok (encap_store t v inner)"
  using opt_ok_store [OF assms] opt_ok_new [of t v] assms by (simp add: encap_store_def)


text \<open>An empty block of 16 bytes.\<close>

definition empty_block :: dhcp_options where
  "empty_block = \<lparr>do_data = \<lambda>_. 0, do_used_len = 0, do_alloc_len = 16\<rparr>"

lemma empty_block_reachable: "dhcpopt_reachable empty_block"
proof -
  have "empty_block = dhcpopt_init empty_block (\<lambda>_. 0) 16"
    by (simp add: empty_block_def dhcpopt_init_def dhcpopt_update_used_len_def update_used_len_loop.simps
      dhcp_option_len_def dhcp_consts)
  then show ?thesis using reach_init [of 16 empty_block "\<lambda>_. 0"] by simp
qed

lemma find_empty_block: "tag \<noteq> 0 \<Longrightarrow> find_dhcp_option_with_encap empty_block tag = (Inl ENOENT, None)"
  by (simp add: find_dhcp_option_with_encap_def empty_block_def find_loop_stop DHCP_PAD_def)

lemma empty_block_store_encap:
  "snd (dhcpopt_store dhcpopt_no_realloc empty_block (DHCP_ENCAP_OPT 43 6) [1]) = Inr ()"
proof -
  define o1 where "o1 = empty_block\<lparr>do_used_len := 3, do_data := mem_write (\<lambda>_. 0) 0 [43, 1, 255]\<rparr>"
  have "generic_memmove m a b 0 = m" for m a b by (auto simp: fun_eq_iff generic_memmove_apply)
  then have "edit_at dhcpopt_no_realloc empty_block 0 None 0 43 [255] = (o1, Inr 0)"
    by (simp add: edit_at_def fixed_resize option_size_def size_t_def put_option_def o1_def empty_block_def)
  moreover have "do_used_len empty_block = 0" by (simp add: empty_block_def)
  ultimately have o1: "set_dhcp_option dhcpopt_no_realloc empty_block 43 [255] = (o1, Inr 0)"
    using set_dhcp_option_plain [OF find_empty_block [of 43], of 0 0 dhcpopt_no_realloc "[255]"]
    by (simp add: find_empty_block DHCP_END_def)
  have "snd (finish_encap dhcpopt_no_realloc 43 0
      (edit_at dhcpopt_no_realloc o1 (0 + 2) (Some 0) 0 (43 * 256 + 6) [1])) = Inr 2"
    by (simp add: finish_encap_def edit_at_def resize_dhcp_option_def resize_expand_def resize_encapsulator_def
      o1_def empty_block_def option_size_def size_t_def dhcpopt_no_realloc_def DHCP_MAX_LEN_def mem_write_def)
  then show ?thesis
    using set_dhcp_option_new_encap [OF find_empty_block [of "43 * 256 + 6"], of dhcpopt_no_realloc "[1]"] o1
    by (auto simp: dhcpopt_store_def DHCP_ENCAP_OPT_def split: prod.splits sum.splits)
qed




section \<open>Malformed blocks\<close>

text \<open>
  Inside an encapsulator the search continues for the length of the option including its header,
  two bytes more than its data: an option that follows an encapsulator without an end marker is
  found as if it were encapsulated.  Here option 43 is empty and option 6 follows it.
\<close>
lemma find_beyond_encapsulator:
  "dhcpopt_fetch \<lparr>do_data = mem_write (\<lambda>_. 0) 0 [43, 0, 6, 0], do_used_len = 4, do_alloc_len = 4\<rparr>
     (DHCP_ENCAP_OPT 43 6) 8 = Inr (0, [])"
  by (simp add: dhcpopt_fetch_def find_dhcp_option_with_encap_def find_dhcp_option_loop.simps
    dhcp_option_len_def dhcp_consts mem_write_def mem_bytes_def)

text \<open>
  At the end of a block this search passes the used length, and storing under the tag it finds moves
  \<open>size_t ( -1 )\<close> bytes: memory far beyond the block is overwritten.  Here the block is three bytes
  long, and the byte at \<open>a\<close> ends up one address later.
\<close>
lemma store_beyond_block:
  fixes m :: mem
  assumes "m 3 = 0" and "16 < a" and "a < 2 ^ 63"
  shows "do_data (fst (dhcpopt_store dhcpopt_no_realloc
      \<lparr>do_data = mem_write m 0 [43, 1, 6], do_used_len = 3, do_alloc_len = 16\<rparr>
      (DHCP_ENCAP_OPT 43 6) [1])) (a + 1) = m a"
proof -
  let ?o = "\<lparr>do_data = mem_write m 0 [43, 1, 6], do_used_len = 3, do_alloc_len = 16\<rparr>"
  have find: "find_dhcp_option_with_encap ?o (43 * 256 + 6) = (Inr 2, Some 0)"
    using assms(1) by (simp add: find_dhcp_option_with_encap_def find_dhcp_option_loop.simps
      dhcp_option_len_def dhcp_consts mem_write_def numeral_3_eq_3)
  have len: "dhcp_option_len (do_data ?o) 2 = 2"
    using assms(1) by (simp add: dhcp_option_len_def dhcp_consts mem_write_def numeral_3_eq_3)
  have "set_dhcp_option dhcpopt_no_realloc ?o (43 * 256 + 6) [1] =
      finish_encap dhcpopt_no_realloc 43 0
        (edit_at dhcpopt_no_realloc ?o 2 (Some 0) 2 (43 * 256 + 6) [1])"
    using set_dhcp_option_encap [OF find, of 2 2] len by simp
  then show ?thesis
    using assms(2,3)
    by (simp add: dhcpopt_store_def DHCP_ENCAP_OPT_def finish_encap_def edit_at_def resize_dhcp_option_def
      resize_expand_def resize_encapsulator_def option_size_def size_t_def dhcpopt_no_realloc_def
      DHCP_MAX_LEN_def put_option_def generic_memmove_apply mem_write_def Let_def)
qed

end
