(* ===== verification/DhcpPkt.thy ===== *)
theory DhcpPkt
  imports DhcpOpts
begin

text \<open>
  DHCP packets (net/dhcppkt.c, include/ipxe/dhcppkt.h): a fixed header, four of whose fields double
  as settings, followed by an option block of fixed size.  The header is the memory at \<open>dhcphdr\<close>, of
  which the first 240 bytes belong to it; the options are the block modelled in \<open>DhcpOpts\<close>.  The
  settings interface only forwards to the functions here, with the tag of the setting.
\<close>

section \<open>State and operations\<close>

record dhcp_packet =
  pkt_hdr :: mem
  pkt_options :: dhcp_options

text \<open>
  The fields of \<open>struct dhcphdr\<close> and their sizes; the alignment of its members leaves no padding.
\<close>

definition dhcphdr :: "(string \<times> nat) list" where
  "dhcphdr = [(''op'', 1), (''htype'', 1), (''hlen'', 1), (''hops'', 1), (''xid'', 4), (''secs'', 2),
     (''flags'', 2), (''ciaddr'', 4), (''yiaddr'', 4), (''siaddr'', 4), (''giaddr'', 4),
     (''chaddr'', 16), (''sname'', 64), (''file'', 128), (''magic'', 4), (''options'', 0)]"

fun struct_offsetof :: "(string \<times> nat) list \<Rightarrow> string \<Rightarrow> nat" where
  "struct_offsetof [] f = 0"
| "struct_offsetof ((g, n) # rest) f = (if g = f then 0 else n + struct_offsetof rest f)"

fun struct_sizeof :: "(string \<times> nat) list \<Rightarrow> string \<Rightarrow> nat" where
  "struct_sizeof [] f = 0"
| "struct_sizeof ((g, n) # rest) f = (if g = f then n else struct_sizeof rest f)"

definition DHCPHDR_OPTIONS :: nat where "DHCPHDR_OPTIONS = struct_offsetof dhcphdr ''options''"

definition DHCP_EB_ENCAP :: nat where "DHCP_EB_ENCAP = 175"
definition DHCP_EB_YIADDR :: nat where "DHCP_EB_YIADDR = DHCP_ENCAP_OPT DHCP_EB_ENCAP 0x02"
definition DHCP_EB_SIADDR :: nat where "DHCP_EB_SIADDR = DHCP_ENCAP_OPT DHCP_EB_ENCAP 0x03"
definition DHCP_TFTP_SERVER_NAME :: nat where "DHCP_TFTP_SERVER_NAME = 66"
definition DHCP_BOOTFILE_NAME :: nat where "DHCP_BOOTFILE_NAME = 67"

lemmas field_consts = DHCP_EB_ENCAP_def DHCP_EB_YIADDR_def DHCP_EB_SIADDR_def
  DHCP_TFTP_SERVER_NAME_def DHCP_BOOTFILE_NAME_def DHCP_ENCAP_OPT_def

definition used_len_ipv4 :: "u8 list \<Rightarrow> nat" where
  "used_len_ipv4 field_data = (if field_data \<noteq> [0, 0, 0, 0] then 4 else 0)"

definition used_len_string :: "u8 list \<Rightarrow> nat" where
  "used_len_string field_data = strnlen field_data (length field_data)"

record dhcp_packet_field =
  pf_tag :: nat
  pf_offset :: nat
  pf_len :: nat
  pf_used_len :: "u8 list \<Rightarrow> nat"

definition DHCP_PACKET_FIELD :: "nat \<Rightarrow> string \<Rightarrow> (u8 list \<Rightarrow> nat) \<Rightarrow> dhcp_packet_field" where
  "DHCP_PACKET_FIELD tag field used_len =
     \<lparr>pf_tag = tag, pf_offset = struct_offsetof dhcphdr field, pf_len = struct_sizeof dhcphdr field,
      pf_used_len = used_len\<rparr>"

definition dhcp_packet_fields :: "dhcp_packet_field list" where
  "dhcp_packet_fields =
    [DHCP_PACKET_FIELD DHCP_EB_YIADDR ''yiaddr'' used_len_ipv4,
     DHCP_PACKET_FIELD DHCP_EB_SIADDR ''siaddr'' used_len_ipv4,
     DHCP_PACKET_FIELD DHCP_TFTP_SERVER_NAME ''sname'' used_len_string,
     DHCP_PACKET_FIELD DHCP_BOOTFILE_NAME ''file'' used_len_string]"

fun find_field :: "dhcp_packet_field list \<Rightarrow> nat \<Rightarrow> dhcp_packet_field option" where
  "find_field [] tag = None"
| "find_field (field # rest) tag = (if pf_tag field = tag then Some field else find_field rest tag)"

definition find_dhcp_packet_field :: "nat \<Rightarrow> dhcp_packet_field option" where
  "find_dhcp_packet_field tag = find_field dhcp_packet_fields tag"

definition dhcppkt_applies :: "nat \<Rightarrow> bool" where
  "dhcppkt_applies tag \<longleftrightarrow> dhcpopt_applies tag"

definition dhcppkt_store :: "dhcp_packet \<Rightarrow> nat \<Rightarrow> u8 list \<Rightarrow> dhcp_packet \<times> unit result" where
  "dhcppkt_store pkt tag data =
     (case find_dhcp_packet_field tag of
        Some field \<Rightarrow>
          if length data > pf_len field then (pkt, Inl ENOSPC)
          else
            let hdr = generic_memset (pkt_hdr pkt) (pf_offset field) 0 (pf_len field);
                hdr = mem_write hdr (pf_offset field) data;
                options = fst (dhcpopt_store dhcpopt_no_realloc (pkt_options pkt) tag [])
            in (pkt\<lparr>pkt_hdr := hdr, pkt_options := options\<rparr>, Inr ())
      | None \<Rightarrow>
          (case dhcpopt_store dhcpopt_no_realloc (pkt_options pkt) tag data of
             (options, rc) \<Rightarrow> (pkt\<lparr>pkt_options := options\<rparr>, rc)))"

definition dhcppkt_fetch :: "dhcp_packet \<Rightarrow> nat \<Rightarrow> nat \<Rightarrow> (nat \<times> u8 list) result" where
  "dhcppkt_fetch pkt tag len =
     (let (field_data, field_len) =
            (case find_dhcp_packet_field tag of
               Some field \<Rightarrow>
                 let field_data = mem_bytes (pkt_hdr pkt) (pf_offset field) (pf_len field)
                 in (field_data, pf_used_len field field_data)
             | None \<Rightarrow> ([], 0))
      in if field_len \<noteq> 0 then
           let len = (if len > field_len then field_len else len)
           in Inr (field_len, take len field_data)
         else dhcpopt_fetch (pkt_options pkt) tag len)"

definition dhcppkt_init :: "mem \<Rightarrow> nat \<Rightarrow> dhcp_packet" where
  "dhcppkt_init data len =
     \<lparr>pkt_hdr = data,
      pkt_options = dhcpopt_init \<lparr>do_data = data, do_used_len = 0, do_alloc_len = 0\<rparr>
        (\<lambda>i. data (DHCPHDR_OPTIONS + i)) (size_t (int len - int DHCPHDR_OPTIONS))\<rparr>"

definition dhcppkt_len :: "dhcp_packet \<Rightarrow> nat" where
  "dhcppkt_len pkt = DHCPHDR_OPTIONS + do_used_len (pkt_options pkt)"

section \<open>Lemmas\<close>

lemma find_field_plain:
  assumes "0 < tag" and "tag < 255"
  shows "find_dhcp_packet_field tag =
    (if tag = 66 then Some \<lparr>pf_tag = 66, pf_offset = 44, pf_len = 64, pf_used_len = used_len_string\<rparr>
     else if tag = 67 then Some \<lparr>pf_tag = 67, pf_offset = 108, pf_len = 128, pf_used_len = used_len_string\<rparr>
     else None)"
  using assms by (simp add: find_dhcp_packet_field_def dhcp_packet_fields_def DHCP_PACKET_FIELD_def
    dhcphdr_def field_consts)

lemma dhcppkt_fetch_field:
  "find_dhcp_packet_field tag = Some field \<Longrightarrow>
   dhcppkt_fetch pkt tag len =
     (let d = mem_bytes (pkt_hdr pkt) (pf_offset field) (pf_len field); n = pf_used_len field d
      in if n \<noteq> 0 then Inr (n, take (min len n) d) else dhcpopt_fetch (pkt_options pkt) tag len)"
  by (simp add: dhcppkt_fetch_def Let_def min_def)

lemma dhcppkt_fetch_option:
  "find_dhcp_packet_field tag = None \<Longrightarrow> dhcppkt_fetch pkt tag len = dhcpopt_fetch (pkt_options pkt) tag len"
  by (simp add: dhcppkt_fetch_def)

lemma used_len_string_padded:
  "0 \<notin> set data \<Longrightarrow> used_len_string (data @ replicate n 0) = length data"
proof -
  assume "0 \<notin> set data"
  then have "strnlen (data @ replicate n 0) (length data + k) = length data" for k
    by (induction data) (cases k; cases n; auto simp: deref_def)+
  then show ?thesis by (simp add: used_len_string_def)
qed

lemma field_bytes:
  assumes "length data \<le> n"
  shows "mem_bytes (mem_write (generic_memset m a 0 n) a data) a n = data @ replicate (n - length data) 0"
  using assms by (intro nth_equalityI)
    (auto simp: mem_bytes_def mem_write_def generic_memset_apply nth_append)

text \<open>A packet as received, edited by any sequence of stores.\<close>

inductive dhcppkt_reachable :: "dhcp_packet \<Rightarrow> bool" where
  pkt_reach_init: "DHCPHDR_OPTIONS \<le> len \<Longrightarrow> len < 2 ^ 63 \<Longrightarrow> dhcppkt_reachable (dhcppkt_init data len)"
| pkt_reach_store: "dhcppkt_reachable pkt \<Longrightarrow> 0 < tag \<Longrightarrow> tag < 255 \<Longrightarrow>
    dhcppkt_reachable (fst (dhcppkt_store pkt tag data))"

lemma dhcppkt_reachable_options: "dhcppkt_reachable pkt \<Longrightarrow> dhcpopt_reachable (pkt_options pkt)"
proof (induction rule: dhcppkt_reachable.induct)
  case (pkt_reach_init len data)
  then have "size_t (int len - int DHCPHDR_OPTIONS) < 2 ^ 63"
    by (simp add: size_t_def DHCPHDR_OPTIONS_def dhcphdr_def)
  then show ?case by (simp add: dhcppkt_init_def reach_init)
next
  case (pkt_reach_store pkt tag data)
  then have "dhcpopt_reachable (fst (dhcpopt_store dhcpopt_no_realloc (pkt_options pkt) tag d))" for d
    by (intro reach_store)
  with pkt_reach_store show ?case
    by (auto simp: dhcppkt_store_def Let_def split: option.split prod.split) (metis fst_conv)
qed

lemma fetch_after_delete:
  assumes "dhcpopt_reachable options" and "0 < tag" "tag < 255" and "0 < t" "t < 255" "t \<noteq> tag"
  shows "dhcpopt_fetch (fst (dhcpopt_store dhcpopt_no_realloc options tag data)) t len = dhcpopt_fetch options t len"
proof -
  obtain items rest where rep: "opts_rep options items rest" and small: "do_used_len options < 2 ^ 63"
    using reachable_cases [OF assms(1)] .
  from fixed_store [OF rep assms(2,3) small, of data] show ?thesis
  proof (elim disjE exE conjE)
    fix options'
    assume st: "dhcpopt_store dhcpopt_no_realloc options tag data = (options', Inr ())"
      and rep': "opts_rep options' (opt_store tag data items) rest"
    show ?thesis
      using st fetch_rep [OF rep' assms(4,5)] fetch_rep [OF rep assms(4,5)] assms(6)
      by (simp add: opt_lookup_store_other)
  qed simp_all
qed

lemma fetch_after_store:
  assumes "dhcpopt_reachable options" and "0 < tag" "tag < 255" and "data \<noteq> []"
    and "snd (dhcpopt_store dhcpopt_no_realloc options tag data) = Inr u"
  shows "dhcpopt_fetch (fst (dhcpopt_store dhcpopt_no_realloc options tag data)) tag len =
    Inr (length data, take len data)"
proof -
  obtain items rest where rep: "opts_rep options items rest" and small: "do_used_len options < 2 ^ 63"
    using reachable_cases [OF assms(1)] .
  from fixed_store [OF rep assms(2,3) small, of data] show ?thesis
  proof (elim disjE exE conjE)
    fix options'
    assume st: "dhcpopt_store dhcpopt_no_realloc options tag data = (options', Inr ())"
      and rep': "opts_rep options' (opt_store tag data items) rest"
    show ?thesis
      using st fetch_rep [OF rep' assms(2,3)] assms(4) by (simp add: opt_lookup_store_same)
  qed (use assms(5) in simp_all)
qed

text \<open>The header fields do not overlap.\<close>

lemma other_field_bytes:
  assumes "a + n \<le> b \<or> b + k \<le> a" and "length data \<le> k"
  shows "mem_bytes (mem_write (generic_memset m b 0 k) b data) a n = mem_bytes m a n"
  using assms by (auto simp: mem_bytes_def mem_write_def generic_memset_apply)



end
