(* ===== verification/Nvs.thy ===== *)
theory Nvs
  imports CString
begin

text \<open>
  Non-volatile storage devices (drivers/nvs/nvs.c, include/ipxe/nvs.h): transfers of any length are
  cut at the device's block boundaries, and every write is read back and compared.

  The device itself is a driver: its storage is a state of any type, and its \<open>read\<close> and \<open>write\<close>
  methods are arguments.  Addresses and the block size are 32-bit words as in the code; a transfer
  that never made progress would not return, and the loops are partial functions, so that returning
  is a theorem.
\<close>

section \<open>Operations\<close>

record nvs_device =
  nvs_word_len_log2 :: nat
  nvs_size :: u32
  nvs_block_size :: u32

type_synonym 'd nvs_reader = "'d \<Rightarrow> u32 \<Rightarrow> nat \<Rightarrow> u8 list result"
type_synonym 'd nvs_writer = "'d \<Rightarrow> u32 \<Rightarrow> u8 list \<Rightarrow> 'd \<times> unit result"

definition nvs_frag_len :: "nvs_device \<Rightarrow> u32 \<Rightarrow> nat \<Rightarrow> nat" where
  "nvs_frag_len nvs address max_len =
     (if nvs_block_size nvs = 0 then max_len
      else
        let frag_len = unat (push_bit (nvs_word_len_log2 nvs)
              (nvs_block_size nvs - (address AND (nvs_block_size nvs - 1))))
        in if max_len < frag_len then max_len else frag_len)"

definition nvs_next :: "nvs_device \<Rightarrow> u32 \<Rightarrow> nat \<Rightarrow> u32" where
  "nvs_next nvs address frag_len = address + word_of_nat (drop_bit (nvs_word_len_log2 nvs) frag_len)"

partial_function (option) nvs_read ::
  "'d nvs_reader \<Rightarrow> nvs_device \<Rightarrow> 'd \<Rightarrow> u32 \<Rightarrow> nat \<Rightarrow> u8 list result option" where
  "nvs_read rd nvs dev address len =
     (if len = 0 then Some (Inr [])
      else
        let frag_len = nvs_frag_len nvs address len
        in case rd dev address frag_len of
             Inl rc \<Rightarrow> Some (Inl rc)
           | Inr bytes \<Rightarrow>
               Option.bind (nvs_read rd nvs dev (nvs_next nvs address frag_len) (len - frag_len))
                 (\<lambda>r. Some (map_sum id ((@) bytes) r)))"

definition nvs_verify ::
  "'d nvs_reader \<Rightarrow> nvs_device \<Rightarrow> 'd \<Rightarrow> u32 \<Rightarrow> u8 list \<Rightarrow> unit result option" where
  "nvs_verify rd nvs dev address data =
     Option.bind (nvs_read rd nvs dev address (length data))
       (\<lambda>r. case r of
          Inl rc \<Rightarrow> Some (Inl rc)
        | Inr read_data \<Rightarrow> if read_data \<noteq> data then Some (Inl EIO) else Some (Inr ()))"

partial_function (option) nvs_write ::
  "'d nvs_reader \<Rightarrow> 'd nvs_writer \<Rightarrow> nvs_device \<Rightarrow> 'd \<Rightarrow> u32 \<Rightarrow> u8 list \<Rightarrow>
   ('d \<times> unit result) option" where
  "nvs_write rd wr nvs dev address data =
     (if data = [] then Some (dev, Inr ())
      else
        let frag_len = nvs_frag_len nvs address (length data)
        in case wr dev address (take frag_len data) of
             (dev, Inl rc) \<Rightarrow> Some (dev, Inl rc)
           | (dev, Inr _) \<Rightarrow>
               Option.bind (nvs_verify rd nvs dev address (take frag_len data))
                 (\<lambda>v. case v of
                    Inl rc \<Rightarrow> Some (dev, Inl rc)
                  | Inr _ \<Rightarrow> nvs_write rd wr nvs dev (nvs_next nvs address frag_len) (drop frag_len data)))"

section \<open>Fragments\<close>

text \<open>
  A usable device has blocks of a power-of-two number of words, or no block boundaries, and a block
  length in bytes that fits an \<open>unsigned int\<close>.
\<close>

definition device_ok :: "nvs_device \<Rightarrow> bool" where
  "device_ok nvs \<longleftrightarrow> nvs_block_size nvs = 0 \<or>
     (\<exists>k. nvs_block_size nvs = 2 ^ k \<and> k + nvs_word_len_log2 nvs < 32)"

text \<open>A transfer stays inside a block of the device.\<close>

definition in_block :: "nvs_device \<Rightarrow> u32 \<Rightarrow> nat \<Rightarrow> bool" where
  "in_block nvs address n \<longleftrightarrow> nvs_block_size nvs = 0 \<or>
     unat address mod unat (nvs_block_size nvs) * 2 ^ nvs_word_len_log2 nvs + n
       \<le> unat (nvs_block_size nvs) * 2 ^ nvs_word_len_log2 nvs"

lemma unat_power_of_two:
  assumes "k < 32"
  shows "unat (2 ^ k :: u32) = 2 ^ k"
proof -
  have "unat (word_of_nat (2 ^ k) :: u32) = 2 ^ k"
    using assms by (simp add: unsigned_of_nat take_bit_nat_eq_self del: of_nat_power of_nat_numeral)
  then show ?thesis by simp
qed

lemma frag_len_eq:
  assumes "nvs_block_size nvs = 2 ^ k" and "k + nvs_word_len_log2 nvs < 32"
  shows "nvs_frag_len nvs address n =
    min n ((2 ^ k - unat address mod 2 ^ k) * 2 ^ nvs_word_len_log2 nvs)"
proof -
  define w where "w = nvs_word_len_log2 nvs"
  have k: "k < 32" using assms(2) by simp
  have "address AND (2 ^ k - 1) = take_bit k address"
    by (simp add: take_bit_eq_mask mask_eq_exp_minus_1)
  then have "unat (address AND (2 ^ k - 1)) = take_bit k (unat address)"
    by (simp only: unsigned_take_bit_eq)
  then have r: "unat (address AND (2 ^ k - 1)) = unat address mod 2 ^ k"
    by (simp only: take_bit_eq_mod)
  have lt: "unat address mod 2 ^ k < 2 ^ k" by simp
  then have "unat (2 ^ k - (address AND (2 ^ k - 1))) = 2 ^ k - unat address mod 2 ^ k"
    using k r by (subst unat_sub) (simp_all add: word_le_nat_alt unat_power_of_two)
  moreover have "(2 ^ k - unat address mod 2 ^ k) * 2 ^ w < 2 ^ 32"
  proof -
    have "(2 ^ k - unat address mod 2 ^ k) * 2 ^ w \<le> 2 ^ k * (2 ^ w :: nat)" by simp
    also have "\<dots> = 2 ^ (k + w)" by (simp add: power_add)
    also have "\<dots> < 2 ^ 32" using assms(2) by (intro power_strict_increasing) (simp_all add: w_def)
    finally show ?thesis .
  qed
  ultimately have "unat (push_bit w (2 ^ k - (address AND (2 ^ k - 1)))) =
      (2 ^ k - unat address mod 2 ^ k) * 2 ^ w"
    unfolding unsigned_push_bit_eq unfolding push_bit_eq_mult by (simp add: take_bit_nat_eq_self)
  moreover have "nvs_block_size nvs \<noteq> 0" using k assms(1) unat_power_of_two [of k] by auto
  ultimately show ?thesis
    by (auto simp: nvs_frag_len_def assms(1) Let_def w_def [symmetric])
qed

lemma frag_len_bounds:
  assumes "device_ok nvs" and "0 < n"
  shows "0 < nvs_frag_len nvs address n" and "nvs_frag_len nvs address n \<le> n"
    and "in_block nvs address (nvs_frag_len nvs address n)"
proof -
  have "0 < nvs_frag_len nvs address n \<and> nvs_frag_len nvs address n \<le> n \<and>
      in_block nvs address (nvs_frag_len nvs address n)"
  proof (cases "nvs_block_size nvs = 0")
    case True
    then show ?thesis using assms(2) by (simp add: nvs_frag_len_def in_block_def)
  next
    case False
    then obtain k where k: "nvs_block_size nvs = 2 ^ k" "k + nvs_word_len_log2 nvs < 32"
      using assms(1) by (auto simp: device_ok_def)
    have lt: "unat address mod 2 ^ k < 2 ^ k" by simp
    then have "unat address mod 2 ^ k * 2 ^ nvs_word_len_log2 nvs +
        (2 ^ k - unat address mod 2 ^ k) * 2 ^ nvs_word_len_log2 nvs = 2 ^ k * 2 ^ nvs_word_len_log2 nvs"
      by (simp flip: add_mult_distrib)
    moreover have "unat (nvs_block_size nvs) = 2 ^ k" using k by (simp add: unat_power_of_two)
    ultimately show ?thesis
      using lt assms(2) by (auto simp: frag_len_eq [OF k] in_block_def)
  qed
  then show "0 < nvs_frag_len nvs address n" "nvs_frag_len nvs address n \<le> n"
    "in_block nvs address (nvs_frag_len nvs address n)" by auto
qed

text \<open>A fragment that is not the last is a whole number of words.\<close>

lemma frag_len_words:
  assumes "device_ok nvs" and "nvs_frag_len nvs address n < n"
  shows "2 ^ nvs_word_len_log2 nvs dvd nvs_frag_len nvs address n"
proof -
  have "nvs_block_size nvs \<noteq> 0" using assms(2) by (auto simp: nvs_frag_len_def)
  then obtain k where k: "nvs_block_size nvs = 2 ^ k" "k + nvs_word_len_log2 nvs < 32"
    using assms(1) by (auto simp: device_ok_def)
  show ?thesis using assms(2) by (simp add: frag_len_eq [OF k] min_def split: if_splits)
qed

text \<open>The byte address of a word address; the next fragment starts where this one ends.\<close>

definition byte_address :: "nvs_device \<Rightarrow> u32 \<Rightarrow> nat" where
  "byte_address nvs address = unat address * 2 ^ nvs_word_len_log2 nvs"

lemma byte_address_next:
  assumes "device_ok nvs" and "nvs_frag_len nvs address n < n"
    and "byte_address nvs address + n \<le> 2 ^ 32 * 2 ^ nvs_word_len_log2 nvs"
  shows "byte_address nvs (nvs_next nvs address (nvs_frag_len nvs address n)) =
    byte_address nvs address + nvs_frag_len nvs address n"
proof -
  define w where "w = nvs_word_len_log2 nvs"
  obtain q where q: "nvs_frag_len nvs address n = 2 ^ w * q"
    using frag_len_words [OF assms(1,2)] by (auto simp: w_def)
  have "(unat address + q) * 2 ^ w < 2 ^ 32 * 2 ^ w"
    using assms(2,3) q by (simp add: byte_address_def w_def [symmetric] distrib_right mult.commute)
  then have "unat address + q < 2 ^ 32" by (simp only: mult_less_cancel2)
  then have "unat (address + word_of_nat q) = unat address + q"
    by (simp add: unat_word_ariths unsigned_of_nat take_bit_nat_eq_self)
  moreover have "drop_bit w (2 ^ w * q) = q" by (simp add: drop_bit_eq_div)
  ultimately show ?thesis
    by (simp add: byte_address_def nvs_next_def q w_def [symmetric] distrib_right mult.commute)
qed

section \<open>Reading and writing\<close>

text \<open>
  What is expected of a driver: a read inside a block returns the contents of the device, and a
  write inside a block changes nothing else.  Nothing is assumed of what a write leaves at the
  addresses it was given.
\<close>

definition driver_ok :: "('d \<Rightarrow> mem) \<Rightarrow> 'd nvs_reader \<Rightarrow> 'd nvs_writer \<Rightarrow> nvs_device \<Rightarrow> bool" where
  "driver_ok content rd wr nvs \<longleftrightarrow>
     (\<forall>dev address n bytes. in_block nvs address n \<and> rd dev address n = Inr bytes \<longrightarrow>
        bytes = mem_bytes (content dev) (byte_address nvs address) n) \<and>
     (\<forall>dev address data dev' r i. in_block nvs address (length data) \<and>
        wr dev address data = (dev', r) \<and>
        (i < byte_address nvs address \<or> byte_address nvs address + length data \<le> i) \<longrightarrow>
        content dev' i = content dev i)"

lemma map_sum_eq_Inr_iff: "map_sum f g r = Inr z \<longleftrightarrow> (\<exists>y. r = Inr y \<and> g y = z)"
  by (cases r) auto

lemma nvs_read_0 [simp]: "nvs_read rd nvs dev address 0 = Some (Inr [])"
  by (subst nvs_read.simps) simp

lemma nvs_read_pos:
  assumes "0 < len" and "f = nvs_frag_len nvs address len"
  shows "nvs_read rd nvs dev address len =
    (case rd dev address f of
       Inl rc \<Rightarrow> Some (Inl rc)
     | Inr bytes \<Rightarrow> Option.bind (nvs_read rd nvs dev (nvs_next nvs address f) (len - f))
         (\<lambda>r. Some (map_sum id ((@) bytes) r)))"
  unfolding assms(2) by (subst nvs_read.simps) (use assms(1) in \<open>simp add: Let_def\<close>)

lemma nvs_read_ends:
  assumes "device_ok nvs"
  shows "nvs_read rd nvs dev address len \<noteq> None"
proof (induction len arbitrary: address rule: less_induct)
  case (less len)
  show ?case
  proof (cases "len = 0")
    case True
    then show ?thesis by simp
  next
    case False
    define f where "f = nvs_frag_len nvs address len"
    have "len - f < len"
      using frag_len_bounds(1) [OF assms, of len address] False by (simp add: f_def)
    from less [OF this, of "nvs_next nvs address f"] show ?thesis
      using False by (auto simp: nvs_read_pos [OF _ f_def] split: sum.split)
  qed
qed

lemma nvs_read_content:
  assumes "device_ok nvs" and "driver_ok content rd wr nvs"
    and "byte_address nvs address + len \<le> 2 ^ 32 * 2 ^ nvs_word_len_log2 nvs"
    and "nvs_read rd nvs dev address len = Some (Inr bytes)"
  shows "bytes = mem_bytes (content dev) (byte_address nvs address) len"
  using assms(3,4)
proof (induction len arbitrary: address bytes rule: less_induct)
  case (less len)
  show ?case
  proof (cases "len = 0")
    case True
    then show ?thesis using less.prems by (simp add: mem_bytes_def)
  next
    case False
    define f where "f = nvs_frag_len nvs address len"
    have f: "0 < f" "f \<le> len" "in_block nvs address f"
      using frag_len_bounds [OF assms(1)] False by (simp_all add: f_def)
    obtain b1 b2 where rd: "rd dev address f = Inr b1" and bytes: "bytes = b1 @ b2"
      and next': "nvs_read rd nvs dev (nvs_next nvs address f) (len - f) = Some (Inr b2)"
      using less.prems(2) False
      by (auto simp: nvs_read_pos [OF _ f_def] bind_eq_Some_conv map_sum_eq_Inr_iff case_sum_eq_iff)
    have b1: "b1 = mem_bytes (content dev) (byte_address nvs address) f"
      using assms(2) f(3) rd by (auto simp: driver_ok_def)
    have "b2 = mem_bytes (content dev) (byte_address nvs address + f) (len - f)"
    proof (cases "f < len")
      case True
      then have "byte_address nvs (nvs_next nvs address f) = byte_address nvs address + f"
        using byte_address_next [OF assms(1)] less.prems(1) by (simp add: f_def)
      then show ?thesis
        using less.IH [of "len - f" "nvs_next nvs address f" b2] next' less.prems(1) f by simp
    next
      case False
      then show ?thesis using next' f by (simp add: mem_bytes_def)
    qed
    then show ?thesis using b1 bytes mem_bytes_add [of "content dev" _ f "len - f"] f by simp
  qed
qed

lemma nvs_write_Nil [simp]: "nvs_write rd wr nvs dev address [] = Some (dev, Inr ())"
  by (subst nvs_write.simps) simp

lemma nvs_write_pos:
  assumes "data \<noteq> []" and "f = nvs_frag_len nvs address (length data)"
  shows "nvs_write rd wr nvs dev address data =
    (case wr dev address (take f data) of
       (dev, Inl rc) \<Rightarrow> Some (dev, Inl rc)
     | (dev, Inr _) \<Rightarrow>
         Option.bind (nvs_verify rd nvs dev address (take f data))
           (\<lambda>v. case v of
              Inl rc \<Rightarrow> Some (dev, Inl rc)
            | Inr _ \<Rightarrow> nvs_write rd wr nvs dev (nvs_next nvs address f) (drop f data)))"
  unfolding assms(2) by (subst nvs_write.simps) (use assms(1) in \<open>simp add: Let_def\<close>)

lemma nvs_write_content:
  assumes "device_ok nvs" and "driver_ok content rd wr nvs"
    and "byte_address nvs address + length data \<le> 2 ^ 32 * 2 ^ nvs_word_len_log2 nvs"
    and "nvs_write rd wr nvs dev address data = Some (dev', Inr u)"
  shows "mem_at (content dev') (byte_address nvs address) data \<and>
    (\<forall>i. i < byte_address nvs address \<or> byte_address nvs address + length data \<le> i \<longrightarrow>
       content dev' i = content dev i)"
  using assms(3,4)
proof (induction "length data" arbitrary: address data dev rule: less_induct)
  case less
  show ?case
  proof (cases "data = []")
    case True
    then show ?thesis using less.prems by simp
  next
    case False
    define f where "f = nvs_frag_len nvs address (length data)"
    define a where "a = byte_address nvs address"
    have f: "0 < f" "f \<le> length data" "in_block nvs address f"
      using frag_len_bounds [OF assms(1)] False by (simp_all add: f_def)
    obtain dev1 where wr: "wr dev address (take f data) = (dev1, Inr ())"
      and v: "nvs_verify rd nvs dev1 address (take f data) = Some (Inr ())"
      and next': "nvs_write rd wr nvs dev1 (nvs_next nvs address f) (drop f data) = Some (dev', Inr u)"
    proof -
      obtain dev1 r where wr: "wr dev address (take f data) = (dev1, r)" by fastforce
      with less.prems(2) False have "r = Inr ()"
        by (cases r) (auto simp: nvs_write_pos [OF _ f_def])
      with less.prems(2) False wr obtain v where v: "nvs_verify rd nvs dev1 address (take f data) = Some v"
        "(case v of Inl rc \<Rightarrow> Some (dev1, Inl rc)
          | Inr _ \<Rightarrow> nvs_write rd wr nvs dev1 (nvs_next nvs address f) (drop f data)) = Some (dev', Inr u)"
        by (auto simp: nvs_write_pos [OF _ f_def] bind_eq_Some_conv)
      then show ?thesis using that wr \<open>r = Inr ()\<close> by (cases v) auto
    qed
    have "nvs_read rd nvs dev1 address f = Some (Inr (take f data))"
      using v f by (auto simp: nvs_verify_def bind_eq_Some_conv min_def case_sum_eq_iff split: if_splits)
    then have "take f data = mem_bytes (content dev1) a f"
      using nvs_read_content [OF assms(1,2), of address f dev1] less.prems(1) f by (simp add: a_def)
    then have d1: "mem_at (content dev1) a (take f data)" by simp
    have keep1: "content dev1 i = content dev i" if "i < a \<or> a + f \<le> i" for i
      using assms(2) f wr that unfolding driver_ok_def a_def by (metis length_take min.absorb2)
    have rest: "mem_at (content dev') (a + f) (drop f data) \<and>
        (\<forall>i. i < a + f \<or> a + length data \<le> i \<longrightarrow> content dev' i = content dev1 i)"
    proof (cases "f < length data")
      case True
      then have "byte_address nvs (nvs_next nvs address f) = a + f"
        using byte_address_next [OF assms(1)] less.prems(1) by (simp add: f_def a_def)
      then show ?thesis
        using less.hyps [of "drop f data" "nvs_next nvs address f" dev1] next' less.prems(1) f by (simp add: a_def)
    next
      case False
      then show ?thesis using next' f by simp
    qed
    have "mem_at (content dev') a (take f data)"
      using d1 rest f(2) by (subst mem_at_cong [where m' = "content dev1"]) auto
    then have "mem_at (content dev') a (take f data @ drop f data)"
      using rest f by (simp add: min_def del: append_take_drop_id)
    then show ?thesis using rest keep1 f by (auto simp: a_def [symmetric])
  qed
qed

text \<open>
  C25: Non-volatile storage keeps what is written to it: on a device with power-of-two blocks, if
  writing a buffer of any length succeeds, reading the same range returns (it cannot loop) either a
  driver's error or exactly the bytes written, however the transfer is cut into blocks.  The driver
  need not be trusted to write correctly: that every fragment is read back and compared is enough.
\<close>
theorem nvs_write_read:
  assumes "device_ok nvs" and "driver_ok content rd wr nvs"
    and "byte_address nvs address + length data \<le> 2 ^ 32 * 2 ^ nvs_word_len_log2 nvs"
    and "nvs_write rd wr nvs dev address data = Some (dev', Inr u)"
  shows "case nvs_read rd nvs dev' address (length data) of
    None \<Rightarrow> False | Some (Inl err) \<Rightarrow> True | Some (Inr bytes) \<Rightarrow> bytes = data"
proof -
  have "mem_at (content dev') (byte_address nvs address) data"
    using nvs_write_content [OF assms] by simp
  then have "mem_bytes (content dev') (byte_address nvs address) (length data) = data"
    by (rule mem_bytes_mem_at)
  then show ?thesis
    using nvs_read_ends [OF assms(1), of rd dev' address "length data"] nvs_read_content [OF assms(1-3)]
    by (auto split: option.splits sum.splits)
qed

text \<open>A device of bytes in blocks of four, whose storage is the memory itself.\<close>

definition ram_device :: nvs_device where
  "ram_device = \<lparr>nvs_word_len_log2 = 0, nvs_size = 64, nvs_block_size = 4\<rparr>"

definition ram_read :: "mem nvs_reader" where
  "ram_read m address n = Inr (mem_bytes m (unat address) n)"

definition ram_write :: "mem nvs_writer" where
  "ram_write m address data = (mem_write m (unat address) data, Inr ())"

lemma ram_device_ok: "device_ok ram_device" "driver_ok id ram_read ram_write ram_device"
proof -
  show "device_ok ram_device" by (auto simp: device_ok_def ram_device_def intro: exI [of _ 2])
  show "driver_ok id ram_read ram_write ram_device"
    by (auto simp: driver_ok_def ram_read_def ram_write_def byte_address_def ram_device_def mem_write_outside)
qed

theorem nvs_write_read_witness:
  "case nvs_read ram_read ram_device (mem_write (\<lambda>_. 0) 2 [1, 2, 3]) 2 3 of
     None \<Rightarrow> False | Some (Inl err) \<Rightarrow> True | Some (Inr bytes) \<Rightarrow> bytes = [1, 2, 3]"
proof -
  have "nvs_write ram_read ram_write ram_device (\<lambda>_. 0) 2 [1, 2, 3] =
      Some (mem_write (\<lambda>_. 0) 2 [1, 2, 3], Inr ())"
  proof -
    have f: "2 = nvs_frag_len ram_device 2 (length [1, 2, 3 :: u8])" "2 = nvs_frag_len ram_device 2 2"
      "1 = nvs_frag_len ram_device 4 (length [3 :: u8])" "1 = nvs_frag_len ram_device 4 1"
      and n: "nvs_next ram_device 2 2 = 4"
      by (simp_all add: nvs_frag_len_def nvs_next_def ram_device_def)
    have m: "mem_write (mem_write (\<lambda>_. 0) 2 [1, 2]) 4 [3] = mem_write (\<lambda>_. 0) 2 [1, 2, 3 :: u8]"
      by (auto simp: mem_write_def fun_eq_iff nth_Cons')
    have b: "mem_bytes (mem_write m a [x, y]) a 2 = [x, y]" "mem_bytes (mem_write m a [x]) a 1 = [x]" for m a x y
      using mem_bytes_mem_at [OF mem_at_mem_write [of m a "[x, y]"]]
        mem_bytes_mem_at [OF mem_at_mem_write [of m a "[x]"]] by (simp_all add: numeral_2_eq_2)
    have v: "nvs_verify ram_read ram_device (mem_write m 2 [1, 2]) 2 [1, 2] = Some (Inr ())"
      "nvs_verify ram_read ram_device (mem_write m 4 [3]) 4 [3] = Some (Inr ())" for m
      using nvs_read_pos [OF _ f(2), of ram_read "mem_write m 2 [1, 2]"]
        nvs_read_pos [OF _ f(4), of ram_read "mem_write m 4 [3]"] b
      by (simp_all add: nvs_verify_def ram_read_def flip: numeral_2_eq_2 One_nat_def del: One_nat_def)
    have "nvs_write ram_read ram_write ram_device (mem_write (\<lambda>_. 0) 2 [1, 2]) 4 [3] =
        Some (mem_write (\<lambda>_. 0) 2 [1, 2, 3], Inr ())"
      using nvs_write_pos [OF _ f(3), of ram_read ram_write "mem_write (\<lambda>_. 0) 2 [1, 2]"]
        v(2) [of "mem_write (\<lambda>_. 0) 2 [1, 2]", unfolded m] m
      by (simp add: ram_write_def)
    then show ?thesis
      using nvs_write_pos [OF _ f(1), of ram_read ram_write "\<lambda>_. 0"] v(1) n by (simp add: ram_write_def)
  qed
  from nvs_write_read [OF ram_device_ok _ this] show ?thesis
    by (simp add: byte_address_def ram_device_def numeral_3_eq_3)
qed

end
