(* ===== verification/Nvo.thy ===== *)
theory Nvo
  imports DhcpOpts Nvs
begin

text \<open>
  Non-volatile stored options (core/nvo.c, include/ipxe/nvo.h): a DHCP option block kept on a
  non-volatile storage device behind a checksum byte.

  \<open>struct nvo_block\<close> embeds its \<open>struct dhcp_options\<close>; here it extends that record, which is what the
  code's \<open>container_of\<close> amounts to.  The option data are the bytes after the first of \<open>nvo->data\<close>;
  the first, the checksum, is \<open>nvo_sum\<close>, which is \<open>None\<close> while there is no data.  Memory allocation
  is an argument: for each size it fails or yields the prior contents of the new memory.  The
  device's resize method is an argument too; \<open>None\<close> stands for a device that cannot be resized.  The
  settings tree is outside the model: whether registering succeeds is an argument.
\<close>

section \<open>State and operations\<close>

record nvo_block = dhcp_options +
  nvo_nvs :: nvs_device
  nvo_address :: u32
  nvo_len :: nat
  nvo_sum :: "u8 option"

type_synonym nvo_resize = "(nat \<Rightarrow> unit result) option"
type_synonym nvo_alloc = "nat \<Rightarrow> mem option"

definition nvo_data :: "nvo_block \<Rightarrow> u8 list" where
  "nvo_data nvo =
     (case nvo_sum nvo of None \<Rightarrow> []
      | Some checksum \<Rightarrow> checksum # mem_bytes (do_data nvo) 0 (nvo_len nvo - 1))"

definition nvo_checksum :: "nvo_block \<Rightarrow> u8" where
  "nvo_checksum nvo = foldl (+) 0 (nvo_data nvo)"

text \<open>Reallocation keeps the old contents up to the smaller of the two sizes.\<close>

definition nvo_realloc :: "nvo_alloc \<Rightarrow> nvo_block \<Rightarrow> nat \<Rightarrow> nvo_block \<times> unit result" where
  "nvo_realloc alloc nvo len =
     (if len \<noteq> 0 then
        (case alloc len of
           None \<Rightarrow> (nvo, Inl ENOMEM)
         | Some fresh \<Rightarrow>
             (nvo\<lparr>nvo_sum := Some (case nvo_sum nvo of Some c \<Rightarrow> c | None \<Rightarrow> fresh 0),
                  nvo_len := len,
                  do_data := \<lambda>i. if i < do_alloc_len nvo then do_data nvo i else fresh (i + 1),
                  do_alloc_len := len - 1\<rparr>, Inr ()))
      else
        (nvo\<lparr>nvo_sum := None, nvo_len := 0, do_used_len := 0, do_alloc_len := 0\<rparr>, Inr ()))"

definition nvo_realloc_dhcpopt ::
  "nvo_resize \<Rightarrow> nvo_alloc \<Rightarrow> nvo_block \<Rightarrow> nat \<Rightarrow> nvo_block \<times> unit result" where
  "nvo_realloc_dhcpopt resize alloc nvo len =
     (case resize of
        None \<Rightarrow> dhcpopt_no_realloc nvo len
      | Some resize \<Rightarrow>
          let len = (if len \<noteq> 0 then len + 1 else len)
          in case resize len of
               Inl rc \<Rightarrow> (nvo, Inl rc)
             | Inr _ \<Rightarrow> nvo_realloc alloc nvo len)"

text \<open>
  If the read fails the buffer is only partly filled; the only caller then frees it, so its contents
  are left as they were.
\<close>

definition nvo_load :: "'d nvs_reader \<Rightarrow> nvo_block \<Rightarrow> 'd \<Rightarrow> (nvo_block \<times> unit result) option" where
  "nvo_load rd nvo dev =
     (if nvo_len nvo = 0 then Some (nvo, Inr ())
      else
        Option.bind (nvs_read rd (nvo_nvs nvo) dev (nvo_address nvo) (nvo_len nvo))
          (\<lambda>r. case r of
             Inl rc \<Rightarrow> Some (nvo, Inl rc)
           | Inr bytes \<Rightarrow>
               let nvo = nvo\<lparr>nvo_sum := Some (hd bytes), do_data := mem_write (do_data nvo) 0 (tl bytes)\<rparr>;
                   nvo = (if nvo_checksum nvo \<noteq> 0 \<or> do_data nvo 0 = 0
                          then nvo\<lparr>nvo_sum := Some 0,
                                   do_data := generic_memset (do_data nvo) 0 0 (nvo_len nvo - 1)\<rparr>
                          else nvo)
               in Some (dhcpopt_update_used_len nvo, Inr ())))"

definition nvo_save ::
  "'d nvs_reader \<Rightarrow> 'd nvs_writer \<Rightarrow> nvo_block \<Rightarrow> 'd \<Rightarrow> (nvo_block \<times> 'd \<times> unit result) option" where
  "nvo_save rd wr nvo dev =
     (let nvo = (if nvo_len nvo > 0
                 then nvo\<lparr>nvo_sum := map_option (\<lambda>c. c - nvo_checksum nvo) (nvo_sum nvo)\<rparr> else nvo)
      in Option.bind (nvs_write rd wr (nvo_nvs nvo) dev (nvo_address nvo) (nvo_data nvo))
           (\<lambda>(dev, r). Some (nvo, dev, r)))"

definition nvo_applies :: "bool \<Rightarrow> nat \<Rightarrow> bool" where
  "nvo_applies scope_is_null tag \<longleftrightarrow> scope_is_null \<and> dhcpopt_applies tag"

definition nvo_store ::
  "nvo_resize \<Rightarrow> nvo_alloc \<Rightarrow> 'd nvs_reader \<Rightarrow> 'd nvs_writer \<Rightarrow> nvo_block \<Rightarrow> 'd \<Rightarrow> nat \<Rightarrow> u8 list \<Rightarrow>
   (nvo_block \<times> 'd \<times> unit result) option" where
  "nvo_store resize alloc rd wr nvo dev tag data =
     (case dhcpopt_store (nvo_realloc_dhcpopt resize alloc) nvo tag data of
        (nvo, Inl rc) \<Rightarrow> Some (nvo, dev, Inl rc)
      | (nvo, Inr _) \<Rightarrow> nvo_save rd wr nvo dev)"

definition nvo_fetch :: "nvo_block \<Rightarrow> nat \<Rightarrow> nat \<Rightarrow> (nat \<times> u8 list) result" where
  "nvo_fetch nvo tag len = dhcpopt_fetch nvo tag len"

text \<open>\<open>nvo_init\<close> leaves no data; the option block is initialised with a null pointer and no space.\<close>

definition nvo_init :: "nvo_block \<Rightarrow> nvs_device \<Rightarrow> u32 \<Rightarrow> nat \<Rightarrow> nvo_block" where
  "nvo_init nvo nvs address len =
     dhcpopt_init (nvo\<lparr>nvo_nvs := nvs, nvo_address := address, nvo_len := len, nvo_sum := None\<rparr>)
       (do_data nvo) 0"

definition register_nvo ::
  "nvo_alloc \<Rightarrow> 'd nvs_reader \<Rightarrow> unit result \<Rightarrow> nvo_block \<Rightarrow> 'd \<Rightarrow> (nvo_block \<times> unit result) option" where
  "register_nvo alloc rd registered nvo dev =
     (case nvo_realloc alloc nvo (nvo_len nvo) of
        (nvo, Inl rc) \<Rightarrow> Some (nvo, Inl rc)
      | (nvo, Inr _) \<Rightarrow>
          Option.bind (nvo_load rd nvo dev)
            (\<lambda>(nvo, r). Some (case r of
               Inl rc \<Rightarrow> (fst (nvo_realloc alloc nvo 0), Inl rc)
             | Inr _ \<Rightarrow>
                 (case registered of
                    Inl rc \<Rightarrow> (fst (nvo_realloc alloc nvo 0), Inl rc)
                  | Inr _ \<Rightarrow> (nvo, Inr ())))))"

definition unregister_nvo :: "nvo_alloc \<Rightarrow> nvo_block \<Rightarrow> nvo_block" where
  "unregister_nvo alloc nvo = fst (nvo_realloc alloc nvo 0)"

section \<open>The reallocator\<close>

interpretation nvo: dhcpopt_reallocator "nvo_realloc_dhcpopt resize alloc" for resize alloc
  by unfold_locales
    (auto simp: nvo_realloc_dhcpopt_def nvo_realloc_def dhcpopt_no_realloc_def Let_def
       split: option.splits sum.splits if_splits)

text \<open>The block is consistent: a checksum byte exactly when there is data, and the rest for options.\<close>

definition nvo_ok :: "nvo_block \<Rightarrow> bool" where
  "nvo_ok nvo \<longleftrightarrow> (nvo_sum nvo = None \<longleftrightarrow> nvo_len nvo = 0) \<and> do_alloc_len nvo = nvo_len nvo - 1"

lemma nvo_ok_update [simp]:
  "nvo_ok (nvo\<lparr>do_data := d\<rparr>) = nvo_ok nvo"
  "nvo_ok (nvo\<lparr>do_used_len := n\<rparr>) = nvo_ok nvo"
  by (simp_all add: nvo_ok_def)

lemma nvo_realloc_dhcpopt_frame:
  assumes "nvo_realloc_dhcpopt (Some resize) alloc nvo n = (nvo', r)" and "nvo_ok nvo"
  shows "nvo_ok nvo'" and "nvo_nvs nvo' = nvo_nvs nvo" and "nvo_address nvo' = nvo_address nvo"
    and "r = Inr u \<Longrightarrow> do_alloc_len nvo' = n"
  using assms
  by (auto simp: nvo_realloc_dhcpopt_def nvo_realloc_def nvo_ok_def Let_def
    split: option.splits sum.splits if_splits)

text \<open>After an edit a resizable block has exactly the length in use.\<close>

lemma nvo_edit_frame:
  assumes edit: "edit_at (nvo_realloc_dhcpopt (Some resize) alloc) nvo off None old t data = (nvo', Inr off')"
    and ok: "nvo_ok nvo" "do_used_len nvo \<le> do_alloc_len nvo"
  shows "nvo_ok nvo' \<and> nvo_nvs nvo' = nvo_nvs nvo \<and> nvo_address nvo' = nvo_address nvo \<and>
    do_alloc_len nvo' = do_used_len nvo'"
proof -
  let ?realloc = "nvo_realloc_dhcpopt (Some resize) alloc"
  define n where "n = size_t (int (do_used_len nvo) + (int (option_size data) - int old))"
  define d where "d = (\<lambda>nvo :: nvo_block. generic_memmove (do_data nvo) (off + option_size data) (off + old)
    (size_t (int n - int off - int (option_size data))))"
  obtain nvo1 nvo2 u where o1: "resize_expand ?realloc nvo n = (nvo1, Inr u)"
    and o2: "(if n < do_alloc_len nvo1 then ?realloc (nvo1\<lparr>do_used_len := n, do_data := d nvo1\<rparr>) n
      else (nvo1\<lparr>do_used_len := n, do_data := d nvo1\<rparr>, Inr ())) = (nvo2, Inr ())"
    and put: "nvo' = put_option nvo2 off t data"
    using edit unfolding edit_at_def resize_dhcp_option_def resize_encapsulator_def
    by (auto simp: Let_def n_def d_def split: prod.splits sum.splits if_splits)
  have f1: "nvo_ok nvo1" "nvo_nvs nvo1 = nvo_nvs nvo" "nvo_address nvo1 = nvo_address nvo"
    "n \<le> do_alloc_len nvo1"
  proof -
    show "n \<le> do_alloc_len nvo1" using nvo.resize_expand_ok(2) [OF o1 ok(2)] .
    show "nvo_ok nvo1" "nvo_nvs nvo1 = nvo_nvs nvo" "nvo_address nvo1 = nvo_address nvo"
      using o1 ok(1) by (auto simp: resize_expand_def Let_def dest: nvo_realloc_dhcpopt_frame
        split: if_splits prod.splits sum.splits)
  qed
  have "nvo_ok nvo2 \<and> nvo_nvs nvo2 = nvo_nvs nvo1 \<and> nvo_address nvo2 = nvo_address nvo1 \<and>
      do_alloc_len nvo2 = n \<and> do_used_len nvo2 = n"
  proof (cases "n < do_alloc_len nvo1")
    case True
    then have r: "?realloc (nvo1\<lparr>do_used_len := n, do_data := d nvo1\<rparr>) n = (nvo2, Inr ())" using o2 by simp
    show ?thesis
      using nvo_realloc_dhcpopt_frame [OF r] nvo.realloc_ok [OF r] f1 by auto
  next
    case False
    then show ?thesis using o2 f1 by auto
  qed
  then show ?thesis using f1 put by (simp add: put_option_def nvo_ok_def)
qed

section \<open>Scanning a block again\<close>

text \<open>
  The recomputed used length covers every option: a search over it finds what a search over the
  whole block finds.
\<close>

lemma update_used_len_ge: "used \<le> offset \<Longrightarrow> used \<le> update_used_len_loop d offset remaining used"
proof (induction d offset remaining used rule: update_used_len_loop.induct)
  case (1 d offset remaining used)
  then show ?case by (subst update_used_len_loop.simps) (force simp: Let_def)
qed

lemma find_loop_update:
  assumes "used \<le> offset" and "tag \<noteq> DHCP_END" and "tag \<noteq> DHCP_PAD"
  shows "find_dhcp_option_loop d tag offset (update_used_len_loop d offset remaining used - offset) encap =
    find_dhcp_option_loop d tag offset remaining encap"
  using assms(1)
proof (induction d offset remaining used rule: update_used_len_loop.induct)
  case (1 d offset remaining used)
  define k where "k = dhcp_option_len d offset"
  define U where "U = update_used_len_loop d offset remaining used"
  have k: "0 < k" by (simp add: k_def)
  show ?case
  proof (cases "remaining = 0 \<or> remaining < k")
    case True
    then have "U = used"
      unfolding U_def by (subst update_used_len_loop.simps) (auto simp: Let_def k_def)
    moreover have "find_dhcp_option_loop d tag offset remaining encap = (Inl ENOENT, encap)"
      using True by (subst find_dhcp_option_loop.simps) (auto simp: Let_def k_def)
    ultimately show ?thesis using "1.prems" by (simp add: U_def [symmetric] find_loop_stop)
  next
    case False
    define used' where "used' = (if unat (d offset) \<noteq> DHCP_PAD then offset + k else used)"
    have U: "U = update_used_len_loop d (offset + k) (remaining - k) used'"
      using False unfolding U_def used'_def
      by (subst update_used_len_loop.simps) (simp add: Let_def k_def)
    have IH: "find_dhcp_option_loop d tag (offset + k) (U - (offset + k)) encap =
        find_dhcp_option_loop d tag (offset + k) (remaining - k) encap"
      using "1.IH" [of k] "1.prems" False unfolding U used'_def by (auto simp: k_def)
    have step: "find_dhcp_option_loop d tag offset r encap =
        (if unat (d offset) = DHCP_END then (Inl ENOENT, encap)
         else if unat (d offset) = tag then (Inr offset, encap)
         else if DHCP_IS_ENCAP_OPT tag \<and> unat (d offset) = DHCP_ENCAPSULATOR tag then
           find_dhcp_option_loop d (DHCP_ENCAPSULATED tag) (offset + DHCP_OPTION_HEADER_LEN) k (Some offset)
         else find_dhcp_option_loop d tag (offset + k) (r - k) encap)" if "k \<le> r" for r
    proof -
      have "r \<noteq> 0" using that k by linarith
      then show ?thesis
        using that assms(2) by (subst find_dhcp_option_loop.simps) (simp add: Let_def k_def)
    qed
    show ?thesis
    proof (cases "offset + k \<le> U")
      case True
      then have "k \<le> U - offset" "U - offset - k = U - (offset + k)" by auto
      then show ?thesis using step False IH by (simp add: U_def [symmetric])
    next
      case short: False
      have "used' \<le> U" unfolding U using "1.prems" by (intro update_used_len_ge) (auto simp: used'_def)
      with short have pad: "unat (d offset) = DHCP_PAD" by (auto simp: used'_def split: if_splits)
      then have "k = 1" by (simp add: k_def dhcp_option_len_def)
      have "find_dhcp_option_loop d tag offset remaining encap =
          find_dhcp_option_loop d tag (offset + k) (remaining - k) encap"
        using step [of remaining] False pad assms(3) by (auto simp: dhcp_consts)
      then show ?thesis using IH short \<open>k = 1\<close> by (simp add: U_def [symmetric] find_loop_stop)
    qed
  qed
qed

section \<open>Saving and loading\<close>

lemma foldl_plus: "foldl (+) (a :: u8) xs = a + sum_list xs"
  by (induction xs arbitrary: a) (simp_all add: add.assoc)

lemma nvo_save_checksum:
  assumes "nvo_save rd wr nvo dev = Some (nvo', dev', r)" and "nvo_ok nvo"
  shows "nvo_checksum nvo' = 0" and "\<exists>c. nvo' = nvo\<lparr>nvo_sum := c\<rparr>" and "nvo_ok nvo'"
    and "nvs_write rd wr (nvo_nvs nvo) dev (nvo_address nvo) (nvo_data nvo') = Some (dev', r)"
proof -
  define c where "c = (if nvo_len nvo > 0 then map_option (\<lambda>c. c - nvo_checksum nvo) (nvo_sum nvo) else nvo_sum nvo)"
  have nvo': "nvo' = nvo\<lparr>nvo_sum := c\<rparr>"
    and w: "nvs_write rd wr (nvo_nvs nvo) dev (nvo_address nvo) (nvo_data nvo') = Some (dev', r)"
    using assms(1) by (auto simp: nvo_save_def Let_def c_def bind_eq_Some_conv split: if_splits)
  then show "\<exists>c. nvo' = nvo\<lparr>nvo_sum := c\<rparr>" by blast
  show "nvs_write rd wr (nvo_nvs nvo) dev (nvo_address nvo) (nvo_data nvo') = Some (dev', r)" by (fact w)
  show "nvo_ok nvo'" using assms(2) by (auto simp: nvo_ok_def nvo' c_def)
  show "nvo_checksum nvo' = 0"
  proof (cases "nvo_sum nvo")
    case None
    then show ?thesis using assms(2) by (simp add: nvo' c_def nvo_checksum_def nvo_data_def nvo_ok_def)
  next
    case (Some x)
    then have "nvo_len nvo > 0" using assms(2) by (auto simp: nvo_ok_def)
    then show ?thesis using Some by (simp add: nvo' c_def nvo_checksum_def nvo_data_def foldl_plus)
  qed
qed

lemma length_nvo_data: "nvo_ok nvo \<Longrightarrow> length (nvo_data nvo) = nvo_len nvo"
  by (cases "nvo_sum nvo") (auto simp: nvo_ok_def nvo_data_def)

text \<open>What is loaded is what was saved, if the first option byte is not zero.\<close>

lemma nvo_load_saved:
  assumes save: "nvo_save rd wr nvo dev = Some (nvo1, dev1, Inr u)" and ok: "nvo_ok nvo"
    and device: "device_ok (nvo_nvs nvo)" "driver_ok content rd wr (nvo_nvs nvo)"
      "byte_address (nvo_nvs nvo) (nvo_address nvo) + nvo_len nvo \<le> 2 ^ 32 * 2 ^ nvs_word_len_log2 (nvo_nvs nvo)"
    and load: "nvo_load rd nvo0 dev1 = Some (nvo2, Inr u')" and ok0: "nvo_ok nvo0"
    and same: "nvo_nvs nvo0 = nvo_nvs nvo" "nvo_address nvo0 = nvo_address nvo" "nvo_len nvo0 = nvo_len nvo"
    and len: "1 < nvo_len nvo" and first: "do_data nvo 0 \<noteq> 0"
    and rep: "opts_rep nvo items rest" and full: "do_used_len nvo = do_alloc_len nvo"
    and tag: "0 < tag" "tag < 255"
  shows "nvo_fetch nvo2 tag n = nvo_fetch nvo tag n"
proof -
  obtain c where nvo1: "nvo1 = nvo\<lparr>nvo_sum := c\<rparr>" and sum: "nvo_checksum nvo1 = 0" and ok1: "nvo_ok nvo1"
    and wr: "nvs_write rd wr (nvo_nvs nvo) dev (nvo_address nvo) (nvo_data nvo1) = Some (dev1, Inr u)"
    using nvo_save_checksum [OF save ok] by auto
  have len1: "length (nvo_data nvo1) = nvo_len nvo" using length_nvo_data [OF ok1] by (simp add: nvo1)
  obtain bytes where rd: "nvs_read rd (nvo_nvs nvo) dev1 (nvo_address nvo) (nvo_len nvo) = Some (Inr bytes)"
    and nvo2: "nvo2 = (let nvo = nvo0\<lparr>nvo_sum := Some (hd bytes), do_data := mem_write (do_data nvo0) 0 (tl bytes)\<rparr>
      in dhcpopt_update_used_len (if nvo_checksum nvo \<noteq> 0 \<or> do_data nvo 0 = 0
           then nvo\<lparr>nvo_sum := Some 0, do_data := generic_memset (do_data nvo) 0 0 (nvo_len nvo - 1)\<rparr> else nvo))"
    using load len same by (auto simp: nvo_load_def bind_eq_Some_conv Let_def case_sum_eq_iff)
  have "mem_at (content dev1) (byte_address (nvo_nvs nvo) (nvo_address nvo)) (nvo_data nvo1)"
    using nvs_write_content [OF device(1,2) _ wr] device(3) len1 by simp
  from mem_bytes_mem_at [OF this] have bytes: "bytes = nvo_data nvo1"
    using nvs_read_content [OF device rd] len1 by simp
  have alloc: "do_alloc_len nvo = nvo_len nvo - 1" "do_alloc_len nvo0 = nvo_len nvo - 1"
    using ok ok0 same by (simp_all add: nvo_ok_def)
  obtain x where x: "c = Some x" using ok1 len by (auto simp: nvo_ok_def nvo1)
  define D where "D = mem_write (do_data nvo0) 0 (mem_bytes (do_data nvo) 0 (do_alloc_len nvo))"
  have D: "D i = do_data nvo i" if "i < do_alloc_len nvo" for i
    using that by (simp add: D_def mem_write_def mem_bytes_def)
  define nvoA where "nvoA = nvo0\<lparr>nvo_sum := Some x, do_data := D\<rparr>"
  have "nvo_data nvoA = nvo_data nvo1"
    using D same alloc by (simp add: nvo_data_def nvoA_def nvo1 x mem_bytes_def)
  then have "nvo_checksum nvoA = 0" using sum by (simp add: nvo_checksum_def)
  moreover have "do_data nvoA 0 \<noteq> 0" using D [of 0] first len alloc by (simp add: nvoA_def)
  moreover have "nvo0\<lparr>nvo_sum := Some (hd bytes), do_data := mem_write (do_data nvo0) 0 (tl bytes)\<rparr> = nvoA"
    by (simp add: bytes nvo_data_def nvo1 x nvoA_def D_def alloc)
  ultimately have nvo2: "nvo2 = dhcpopt_update_used_len nvoA" using nvo2 by (simp add: Let_def)
  define nvo3 where "nvo3 = nvoA\<lparr>do_used_len := do_used_len nvo\<rparr>"
  have "mem_at D 0 (enc_items items @ rest) = mem_at (do_data nvo) 0 (enc_items items @ rest)"
    using rep full D by (intro mem_at_cong) (simp add: opts_rep_def)
  then have rep3: "opts_rep nvo3 items rest"
    using rep alloc by (simp add: opts_rep_def nvo3_def nvoA_def)
  have "dhcpopt_fetch nvo3 tag n = dhcpopt_fetch nvo tag n"
    using fetch_rep [OF rep3 tag] fetch_rep [OF rep tag] by simp
  moreover have find: "find_dhcp_option_with_encap nvo2 tag = find_dhcp_option_with_encap nvo3 tag"
    using find_loop_update [of 0 0 tag D "do_alloc_len nvo" None] tag full alloc
    by (simp add: find_dhcp_option_with_encap_def nvo2 nvo3_def nvoA_def dhcpopt_update_used_len_def dhcp_consts)
  moreover have "do_data nvo2 = do_data nvo3"
    by (simp add: nvo2 nvo3_def nvoA_def dhcpopt_update_used_len_def)
  then have "dhcpopt_fetch nvo2 tag n = dhcpopt_fetch nvo3 tag n"
    unfolding dhcpopt_fetch_def find by (simp only:)
  ultimately show ?thesis by (simp add: nvo_fetch_def)
qed


text \<open>An empty block on the device of bytes, with memory that starts out cleared.\<close>

definition sample_nvo :: "nat \<Rightarrow> u8 option \<Rightarrow> nvo_block" where
  "sample_nvo len c = \<lparr>do_data = \<lambda>_. 0, do_used_len = 0, do_alloc_len = len - 1,
     nvo_nvs = ram_device, nvo_address = 0, nvo_len = len, nvo_sum = c\<rparr>"

definition sample_saved :: "u8 list" where
  "sample_saved = [178, 12, 1, 65]"

lemma length_sample: "length sample_saved = 4" "sample_saved \<noteq> []"
  by (simp_all add: sample_saved_def)

lemma sample_frag: "4 = nvs_frag_len ram_device 0 4"
  by (simp add: nvs_frag_len_def ram_device_def)

lemma sample_read: "nvs_read ram_read ram_device (mem_write (\<lambda>_. 0) 0 sample_saved) 0 4 = Some (Inr sample_saved)"
proof -
  have "mem_bytes (mem_write (\<lambda>_. 0) 0 sample_saved) 0 4 = sample_saved"
    using mem_bytes_mem_at [OF mem_at_mem_write [of "\<lambda>_. 0" 0 sample_saved]] by (simp add: length_sample)
  then show ?thesis
    using nvs_read_pos [OF _ sample_frag, of ram_read "mem_write (\<lambda>_. 0) 0 sample_saved"]
    by (simp add: ram_read_def)
qed

lemma sample_write:
  "nvs_write ram_read ram_write ram_device (\<lambda>_. 0) 0 sample_saved =
     Some (mem_write (\<lambda>_. 0) 0 sample_saved, Inr ())"
proof -
  have f: "4 = nvs_frag_len ram_device 0 (length sample_saved)"
    using sample_frag by (simp add: length_sample)
  show ?thesis
    using nvs_write_pos [OF _ f, of ram_read ram_write "\<lambda>_. 0"] sample_read
    by (simp add: ram_write_def nvs_verify_def length_sample)
qed

lemma sample_load: "\<exists>nvo2. nvo_load ram_read (sample_nvo 4 (Some 0)) (mem_write (\<lambda>_. 0) 0 sample_saved) = Some (nvo2, Inr ())"
  using sample_read by (simp add: nvo_load_def sample_nvo_def Let_def)

lemma sample_store:
  "\<exists>nvo1. nvo_store (Some (\<lambda>_. Inr ())) (\<lambda>_. Some (\<lambda>_. 0)) ram_read ram_write (sample_nvo 0 None) (\<lambda>_. 0) 12 [65] =
     Some (nvo1, mem_write (\<lambda>_. 0) 0 sample_saved, Inr ()) \<and> nvo_len nvo1 = 4 \<and> do_data nvo1 0 = 12"
proof -
  let ?realloc = "nvo_realloc_dhcpopt (Some (\<lambda>_. Inr ())) (\<lambda>_. Some (\<lambda>_. 0))"
  define nvoS where "nvoS = (sample_nvo 4 (Some 0))\<lparr>do_used_len := 3, do_data := mem_write (\<lambda>_. 0) 0 [12, 1, 65]\<rparr>"
  have z: "generic_memset (\<lambda>_. 0) a 0 n = (\<lambda>_. 0)" "generic_memmove (\<lambda>_. 0) a b n = (\<lambda>_. 0)" for a b n
    by (auto simp: fun_eq_iff generic_memset_apply generic_memmove_apply)
  have "opts_rep (sample_nvo 0 None) [] []" by (simp add: opts_rep_def sample_nvo_def is_tail_def)
  then have "set_dhcp_option ?realloc (sample_nvo 0 None) 12 [65] =
      edit_at ?realloc (sample_nvo 0 None) 0 None 0 12 [65]"
    using plain_absent by fastforce
  also have "\<dots> = (nvoS, Inr 0)"
    by (simp add: edit_at_def resize_dhcp_option_def resize_expand_def resize_encapsulator_def option_size_def
      size_t_def nvo_realloc_dhcpopt_def nvo_realloc_def DHCP_MAX_LEN_def put_option_def sample_nvo_def nvoS_def z)
  finally have set: "set_dhcp_option ?realloc (sample_nvo 0 None) 12 [65] = (nvoS, Inr 0)" .
  have data: "nvo_data (nvoS\<lparr>nvo_sum := Some c\<rparr>) = c # [12, 1, 65]" for c
    by (simp add: nvo_data_def nvoS_def sample_nvo_def mem_bytes_def mem_write_def upt_rec numeral_3_eq_3)
  have neg: "- 78 = (178 :: u8)" by simp
  have "nvo_checksum nvoS = 78"
    using data [of 0] by (simp add: nvo_checksum_def nvoS_def sample_nvo_def)
  moreover note sample_write
  ultimately have "nvo_save ram_read ram_write nvoS (\<lambda>_. 0) =
      Some (nvoS\<lparr>nvo_sum := Some 178\<rparr>, mem_write (\<lambda>_. 0) 0 sample_saved, Inr ())"
    using data [of 178] by (simp add: neg nvo_save_def Let_def nvoS_def sample_nvo_def sample_saved_def)
  then show ?thesis
    using set by (simp add: nvo_store_def dhcpopt_store_def nvoS_def sample_nvo_def mem_write_def)
qed


section \<open>Blocks of fixed size\<close>

text \<open>
  On a device that cannot be resized a deleted option can come back.  Deleting the last option of a
  block without end marker only shortens the used length: the option's bytes stay where they are and
  are saved, checksum included, and the next load scans them again.
\<close>
lemma nvo_deleted_option_returns:
  "\<exists>nvo1 nvo2. nvo_store None alloc ram_read ram_write
       ((sample_nvo 4 (Some 178))\<lparr>do_used_len := 3, do_data := mem_write (\<lambda>_. 0) 0 [12, 1, 65]\<rparr>)
       (\<lambda>_. 0) 12 [] = Some (nvo1, mem_write (\<lambda>_. 0) 0 sample_saved, Inr ()) \<and>
     nvo_fetch nvo1 12 8 = Inl ENOENT \<and>
     nvo_load ram_read (sample_nvo 4 (Some 0)) (mem_write (\<lambda>_. 0) 0 sample_saved) = Some (nvo2, Inr ()) \<and>
     nvo_fetch nvo2 12 8 = Inr (1, [65])"
proof -
  define nvo where "nvo = (sample_nvo 4 (Some 178))\<lparr>do_used_len := 3, do_data := mem_write (\<lambda>_. 0) 0 [12, 1, 65]\<rparr>"
  define nvo1 where "nvo1 = nvo\<lparr>do_used_len := 0\<rparr>"
  have rep: "opts_rep nvo ([] @ Opt 12 [65] # []) []"
    by (simp add: opts_rep_def nvo_def sample_nvo_def is_tail_def mem_write_def)
  have find: "find_dhcp_option_with_encap nvo 12 = (Inr 0, None)"
    using find_present [OF rep] by simp
  have len: "dhcp_option_len (do_data nvo) 0 = 3"
    by (simp add: dhcp_option_len_def nvo_def mem_write_def dhcp_consts)
  have "generic_memmove m a b 0 = m" for m a b by (auto simp: fun_eq_iff generic_memmove_apply)
  then have "edit_at dhcpopt_no_realloc nvo 0 None 3 12 [] = (nvo1, Inr 0)"
    by (simp add: edit_at_def fixed_resize option_size_def size_t_def put_option_def nvo1_def nvo_def sample_nvo_def)
  moreover have "nvo_realloc_dhcpopt None alloc = dhcpopt_no_realloc"
    by (simp add: nvo_realloc_dhcpopt_def fun_eq_iff)
  ultimately have store: "dhcpopt_store (nvo_realloc_dhcpopt None alloc) nvo 12 [] = (nvo1, Inr ())"
    using set_dhcp_option_plain [OF find, of 0 3 dhcpopt_no_realloc "[]"] len by (simp add: dhcpopt_store_def)
  have data: "nvo_data nvo1 = sample_saved"
    by (simp add: nvo_data_def nvo1_def nvo_def sample_nvo_def mem_bytes_def mem_write_def upt_rec
      numeral_3_eq_3 sample_saved_def)
  then have "nvo_checksum nvo1 = 0" by (simp add: nvo_checksum_def sample_saved_def)
  moreover have "nvs_write ram_read ram_write ram_device (\<lambda>_. 0) 0 sample_saved =
      Some (mem_write (\<lambda>_. 0) 0 sample_saved, Inr ())" by (rule sample_write)
  moreover have "nvo1\<lparr>nvo_sum := Some 178\<rparr> = nvo1" by (simp add: nvo1_def nvo_def sample_nvo_def)
  ultimately have save: "nvo_save ram_read ram_write nvo1 (\<lambda>_. 0) =
      Some (nvo1, mem_write (\<lambda>_. 0) 0 sample_saved, Inr ())"
    using data by (simp add: nvo_save_def Let_def) (simp add: nvo1_def nvo_def sample_nvo_def)
  obtain nvo2 where load: "nvo_load ram_read (sample_nvo 4 (Some 0)) (mem_write (\<lambda>_. 0) 0 sample_saved) = Some (nvo2, Inr ())"
    using sample_load by blast
  have "nvo2 = dhcpopt_update_used_len (nvo\<lparr>do_used_len := 0\<rparr>)"
  proof -
    have "nvo\<lparr>do_used_len := 0\<rparr> = (sample_nvo 4 (Some 0))\<lparr>nvo_sum := Some (hd sample_saved),
        do_data := mem_write (do_data (sample_nvo 4 (Some 0))) 0 (tl sample_saved)\<rparr>"
      by (simp add: nvo_def sample_nvo_def sample_saved_def)
    moreover have "do_data (nvo\<lparr>do_used_len := 0\<rparr>) 0 \<noteq> 0" by (simp add: nvo_def mem_write_def)
    moreover have "nvo_len (sample_nvo 4 (Some 0)) = 4" "nvo_nvs (sample_nvo 4 (Some 0)) = ram_device"
      "nvo_address (sample_nvo 4 (Some 0)) = 0" by (simp_all add: sample_nvo_def)
    ultimately show ?thesis
      using load sample_read \<open>nvo_checksum nvo1 = 0\<close> by (simp add: nvo_load_def Let_def nvo1_def)
  qed
  moreover have "update_used_len_loop (do_data nvo) 0 3 0 = 3"
    using len by (simp add: update_used_len_loop.simps nvo_def mem_write_def dhcp_consts)
  ultimately have "nvo2 = nvo"
    by (simp add: dhcpopt_update_used_len_def nvo_def sample_nvo_def)
  then have "nvo_fetch nvo2 12 8 = Inr (1, [65])"
    using fetch_rep [OF rep, of 12] by (simp add: nvo_fetch_def)
  moreover have "nvo_fetch nvo1 12 8 = Inl ENOENT"
    by (simp add: nvo_fetch_def dhcpopt_fetch_def find_dhcp_option_with_encap_def nvo1_def find_loop_stop DHCP_PAD_def)
  ultimately show ?thesis
    using store save load unfolding nvo_def [symmetric] nvo_store_def by auto
qed

end
