(* ===== verification/Bits.thy ===== *)
theory Bits
  imports Prelude
begin

text \<open>
  Finding the first and the last set bit of a word (include/strings.h): the constant-expression
  versions of \<open>ffs\<close> and \<open>fls\<close>, which halve the range in which the bit can be in each step.
\<close>

unbundle bit_operations_syntax

definition constant_ffsll :: "u64 \<Rightarrow> int" where
  "constant_ffsll x =
     (let r = 0;
          (x, r) = (if x AND 0x00000000ffffffff = 0 then (drop_bit 32 x, r + 32) else (x, r));
          (x, r) = (if x AND 0x0000ffff = 0 then (drop_bit 16 x, r + 16) else (x, r));
          (x, r) = (if x AND 0x00ff = 0 then (drop_bit 8 x, r + 8) else (x, r));
          (x, r) = (if x AND 0x0f = 0 then (drop_bit 4 x, r + 4) else (x, r));
          (x, r) = (if x AND 0x3 = 0 then (drop_bit 2 x, r + 2) else (x, r));
          (x, r) = (if x AND 0x1 = 0 then (drop_bit 1 x, r + 1) else (x, r))
      in if x \<noteq> 0 then r + 1 else 0)"

definition constant_ffsl :: "u64 \<Rightarrow> int" where
  "constant_ffsl x = constant_ffsll x"

definition constant_flsll :: "u64 \<Rightarrow> int" where
  "constant_flsll x =
     (let r = 0;
          (x, r) = (if x AND 0xffffffff00000000 \<noteq> 0 then (drop_bit 32 x, r + 32) else (x, r));
          (x, r) = (if x AND 0xffff0000 \<noteq> 0 then (drop_bit 16 x, r + 16) else (x, r));
          (x, r) = (if x AND 0xff00 \<noteq> 0 then (drop_bit 8 x, r + 8) else (x, r));
          (x, r) = (if x AND 0xf0 \<noteq> 0 then (drop_bit 4 x, r + 4) else (x, r));
          (x, r) = (if x AND 0xc \<noteq> 0 then (drop_bit 2 x, r + 2) else (x, r));
          (x, r) = (if x AND 0x2 \<noteq> 0 then (drop_bit 1 x, r + 1) else (x, r))
      in if x \<noteq> 0 then r + 1 else 0)"

definition constant_flsl :: "u64 \<Rightarrow> int" where
  "constant_flsl x = constant_flsll x"

section \<open>One step\<close>

text \<open>A position is the last set bit when it is set and no later one is.\<close>

definition last_bit :: "u64 \<Rightarrow> nat \<Rightarrow> bool" where
  "last_bit x n \<longleftrightarrow> bit x n \<and> (\<forall>m>n. \<not> bit x m)"

definition first_bit :: "u64 \<Rightarrow> nat \<Rightarrow> bool" where
  "first_bit x n \<longleftrightarrow> bit x n \<and> (\<forall>m<n. \<not> bit x m)"

lemma last_bit_drop: "last_bit (drop_bit k x) n \<Longrightarrow> last_bit x (k + n)"
proof -
  assume a: "last_bit (drop_bit k x) n"
  have "\<not> bit x m" if "m > k + n" for m
  proof -
    have "m - k > n" and "k + (m - k) = m" using that by simp_all
    then show ?thesis using a unfolding last_bit_def bit_drop_bit_eq comp_def by metis
  qed
  then show ?thesis using a by (auto simp: last_bit_def bit_simps)
qed

lemma first_bit_drop:
  assumes "take_bit k x = 0" and "first_bit (drop_bit k x) n"
  shows "first_bit x (k + n)"
proof -
  have "\<not> bit x m" if "m < k + n" for m
  proof (cases "m < k")
    case True
    then have "bit (take_bit k x) m = bit x m" by (simp add: bit_take_bit_iff)
    then show ?thesis using assms(1) by simp
  next
    case False
    then show ?thesis using assms(2) that by (auto simp: first_bit_def bit_simps dest: spec [where x = "m - k"])
  qed
  then show ?thesis using assms(2) by (simp add: first_bit_def bit_simps)
qed

lemma exists_last_bit: "x \<noteq> 0 \<Longrightarrow> \<exists>n. last_bit (x :: u64) n"
proof -
  assume "x \<noteq> 0"
  then obtain k where "bit x k" by (auto simp: bit_eq_iff)
  moreover have "bit x m \<Longrightarrow> m \<le> 64" for m by (auto dest: bit_imp_le_length)
  ultimately have "bit x (GREATEST n. bit x n)" "\<And>m. bit x m \<Longrightarrow> m \<le> (GREATEST n. bit x n)"
    by (blast intro: GreatestI_nat Greatest_le_nat)+
  then show ?thesis unfolding last_bit_def by (meson leD)
qed

lemma first_bit_Least: "first_bit x n \<Longrightarrow> (LEAST n. bit x n) = n"
  unfolding first_bit_def by (rule Least_equality) (auto simp: not_less [symmetric])

lemma last_bit_Greatest: "last_bit x n \<Longrightarrow> (GREATEST n. bit x n) = n"
  unfolding last_bit_def by (rule Greatest_equality) (auto simp: not_less [symmetric])

text \<open>
  A step of \<open>fls\<close> on a word of at most \<open>2 * k\<close> bits: the mask selects the upper half.
\<close>

lemma upper_half_iff:
  assumes "drop_bit (2 * k) x = 0" and "m = push_bit k (mask k)"
  shows "x AND m \<noteq> (0 :: u64) \<longleftrightarrow> drop_bit k x \<noteq> 0"
proof -
  have "x AND push_bit k (mask k) = push_bit k (drop_bit k x)"
  proof (rule bit_word_eqI)
    fix n assume "n < LENGTH(64)"
    have "bit x n \<Longrightarrow> n < 2 * k"
    proof (rule ccontr)
      assume "bit x n" "\<not> n < 2 * k"
      then have "bit (drop_bit (2 * k) x) (n - 2 * k)" by (simp add: bit_simps)
      then show False using assms(1) by simp
    qed
    then show "bit (x AND push_bit k (mask k)) n = bit (push_bit k (drop_bit k x)) n"
      using \<open>n < _\<close> by (auto simp: bit_simps)
  qed
  moreover have "push_bit k (drop_bit k x) = 0 \<longleftrightarrow> drop_bit k x = 0"
  proof
    assume "push_bit k (drop_bit k x) = 0"
    then have "drop_bit k (push_bit k (drop_bit k x)) = 0" by simp
    moreover have "drop_bit k (push_bit k (drop_bit k x)) = drop_bit k x"
      by (rule bit_word_eqI) (auto simp: bit_simps dest: bit_imp_le_length)
    ultimately show "drop_bit k x = 0" by simp
  qed simp
  ultimately show ?thesis using assms(2) by simp
qed

text \<open>The state of the search: a word of at most \<open>k\<close> bits whose last bit is \<open>r\<close> bits too low.\<close>

definition fls_inv :: "nat \<Rightarrow> u64 \<Rightarrow> u64 \<times> int \<Rightarrow> bool" where
  "fls_inv k x0 = (\<lambda>(x, r). drop_bit k x = 0 \<and> 0 \<le> r \<and> (x0 = 0 \<longrightarrow> x = 0) \<and>
     (x0 \<noteq> 0 \<longrightarrow> x \<noteq> 0 \<and> (\<forall>n. last_bit x n \<longrightarrow> last_bit x0 (nat r + n))))"

lemma fls_step:
  assumes "fls_inv (2 * k) x0 (x, r)" and "m = push_bit k (mask k)"
  shows "fls_inv k x0 (if x AND m \<noteq> 0 then (drop_bit k x, r + int k) else (x, r))"
proof -
  have iff: "x AND m \<noteq> 0 \<longleftrightarrow> drop_bit k x \<noteq> 0"
    using assms by (intro upper_half_iff) (simp_all add: fls_inv_def)
  show ?thesis
  proof (cases "drop_bit k x = 0")
    case False
    have "drop_bit k (drop_bit k x) = 0" using assms(1) by (simp add: fls_inv_def drop_bit_drop_bit mult_2)
    moreover have "last_bit x0 (nat (r + int k) + n)" if "last_bit (drop_bit k x) n" "x0 \<noteq> 0" for n
    proof -
      have "0 \<le> r" using assms(1) by (simp add: fls_inv_def)
      then have "nat (r + int k) + n = nat r + (k + n)" by (simp add: nat_add_distrib)
      then show ?thesis using last_bit_drop [OF that(1)] assms(1) that(2) by (simp add: fls_inv_def add.assoc)
    qed
    ultimately show ?thesis using False assms(1) iff by (auto simp: fls_inv_def)
  qed (use assms(1) iff in \<open>simp add: fls_inv_def\<close>)
qed

lemma fls_done:
  assumes "fls_inv 1 x0 (x, r)"
  shows "x0 = 0 \<longleftrightarrow> x = 0" and "x0 \<noteq> 0 \<Longrightarrow> last_bit x0 (nat r)"
proof -
  show "x0 = 0 \<longleftrightarrow> x = 0" using assms by (auto simp: fls_inv_def)
  assume "x0 \<noteq> 0"
  then obtain n where n: "last_bit x n" using assms exists_last_bit by (auto simp: fls_inv_def)
  have "n = 0"
  proof (rule ccontr)
    assume "n \<noteq> 0"
    then have "bit (drop_bit 1 x) (n - 1)" using n by (simp add: last_bit_def bit_simps)
    moreover have "drop_bit 1 x = 0" using assms by (simp add: fls_inv_def)
    ultimately show False by simp
  qed
  then show "last_bit x0 (nat r)" using assms n \<open>x0 \<noteq> 0\<close> by (force simp: fls_inv_def)
qed

text \<open>The search for the first bit keeps a word with a set bit among its lowest \<open>k\<close>.\<close>

definition ffs_inv :: "nat \<Rightarrow> u64 \<Rightarrow> u64 \<times> int \<Rightarrow> bool" where
  "ffs_inv k x0 = (\<lambda>(x, r). 0 \<le> r \<and> (x0 = 0 \<longrightarrow> x = 0) \<and>
     (x0 \<noteq> 0 \<longrightarrow> take_bit k x \<noteq> 0 \<and> (\<forall>n. first_bit x n \<longrightarrow> first_bit x0 (nat r + n))))"

lemma ffs_step:
  assumes "ffs_inv (2 * k) x0 (x, r)" and "m = mask k"
  shows "ffs_inv k x0 (if x AND m = 0 then (drop_bit k x, r + int k) else (x, r))"
proof (cases "take_bit k x = 0")
  case True
  have "take_bit k (drop_bit k x) \<noteq> 0" if "x0 \<noteq> 0"
  proof
    assume "take_bit k (drop_bit k x) = 0"
    then have upper: "\<not> bit (take_bit k (drop_bit k x)) (n - k)" for n by simp
    have lower: "\<not> bit (take_bit k x) n" for n using True by simp
    have "\<not> bit (take_bit (2 * k) x) n" for n
      using lower [of n] upper [of n] by (cases "n < k") (auto simp: bit_simps)
    then have "take_bit (2 * k) x = 0" by (simp add: bit_eq_iff)
    then show False using assms(1) that by (simp add: ffs_inv_def)
  qed
  moreover have "first_bit x0 (nat (r + int k) + n)" if "first_bit (drop_bit k x) n" "x0 \<noteq> 0" for n
  proof -
    have "0 \<le> r" using assms(1) by (simp add: ffs_inv_def)
      then have "nat (r + int k) + n = nat r + (k + n)" by (simp add: nat_add_distrib)
    then show ?thesis using first_bit_drop [OF True that(1)] assms(1) that(2) by (simp add: ffs_inv_def add.assoc)
  qed
  ultimately show ?thesis
    using True assms by (auto simp: ffs_inv_def take_bit_eq_mask [symmetric])
next
  case False
  then show ?thesis using assms by (auto simp: ffs_inv_def take_bit_eq_mask [symmetric])
qed

lemma ffs_done:
  assumes "ffs_inv 1 x0 (x, r)"
  shows "x0 = 0 \<longleftrightarrow> x = 0" and "x0 \<noteq> 0 \<Longrightarrow> first_bit x0 (nat r)"
proof -
  show "x0 = 0 \<longleftrightarrow> x = 0" using assms by (auto simp: ffs_inv_def)
  assume "x0 \<noteq> 0"
  then have "take_bit 1 x \<noteq> 0" using assms by (simp add: ffs_inv_def)
  then have "bit x 0" by (simp add: take_bit_Suc bit_0 mod2_eq_if split: if_splits)
  then have "first_bit x 0" by (simp add: first_bit_def)
  then show "first_bit x0 (nat r)" using assms \<open>x0 \<noteq> 0\<close> by (force simp: ffs_inv_def)
qed

section \<open>Correctness\<close>

lemma fls_inv_start: "fls_inv 64 x (x, 0)"
proof -
  have "drop_bit 64 x = 0" by (rule bit_word_eqI) (auto simp: bit_simps dest: bit_imp_le_length)
  then show ?thesis by (simp add: fls_inv_def)
qed

lemma ffs_inv_start: "ffs_inv 64 x (x, 0)"
proof -
  have "take_bit 64 x = x" by (rule bit_word_eqI) (auto simp: bit_simps)
  then show ?thesis by (simp add: ffs_inv_def)
qed

text \<open>The steps composed, from 64 bits down to one.\<close>

definition fls_half :: "nat \<Rightarrow> u64 \<Rightarrow> u64 \<times> int \<Rightarrow> u64 \<times> int" where
  "fls_half k m = (\<lambda>(x, r). if x AND m \<noteq> 0 then (drop_bit k x, r + int k) else (x, r))"

definition ffs_half :: "nat \<Rightarrow> u64 \<Rightarrow> u64 \<times> int \<Rightarrow> u64 \<times> int" where
  "ffs_half k m = (\<lambda>(x, r). if x AND m = 0 then (drop_bit k x, r + int k) else (x, r))"

lemma fls_half_inv: "fls_inv n x0 s \<Longrightarrow> n = 2 * k \<Longrightarrow> m = push_bit k (mask k) \<Longrightarrow> fls_inv k x0 (fls_half k m s)"
  by (cases s) (simp only: fls_half_def prod.case fls_step)

lemma ffs_half_inv: "ffs_inv n x0 s \<Longrightarrow> n = 2 * k \<Longrightarrow> m = mask k \<Longrightarrow> ffs_inv k x0 (ffs_half k m s)"
  by (cases s) (simp only: ffs_half_def prod.case ffs_step)

lemma case_prod_nested:
  "(case (case p of (x, y) \<Rightarrow> f x y) of (a, b) \<Rightarrow> g a b) = (case p of (x, y) \<Rightarrow> case f x y of (a, b) \<Rightarrow> g a b)"
  by (cases p) simp

lemma constant_flsll_halves:
  "constant_flsll x = (case fls_half 1 0x2 (fls_half 2 0xc (fls_half 4 0xf0 (fls_half 8 0xff00
     (fls_half 16 0xffff0000 (fls_half 32 0xffffffff00000000 (x, 0)))))) of
       (x, r) \<Rightarrow> if x \<noteq> 0 then r + 1 else 0)"
  by (simp only: constant_flsll_def fls_half_def Let_def case_prod_nested prod.case of_nat_numeral of_nat_1)

lemma constant_ffsll_halves:
  "constant_ffsll x = (case ffs_half 1 0x1 (ffs_half 2 0x3 (ffs_half 4 0x0f (ffs_half 8 0x00ff
     (ffs_half 16 0x0000ffff (ffs_half 32 0x00000000ffffffff (x, 0)))))) of
       (x, r) \<Rightarrow> if x \<noteq> 0 then r + 1 else 0)"
  by (simp only: constant_ffsll_def ffs_half_def Let_def case_prod_nested prod.case of_nat_numeral of_nat_1)

lemma fls_result:
  assumes "fls_inv 1 x s" and "c = (case s of (y, r) \<Rightarrow> if y \<noteq> 0 then r + 1 else 0)"
  shows "if x = 0 then c = 0 else 1 \<le> c \<and> last_bit x (nat (c - 1))"
proof -
  obtain y r where s: "s = (y, r)" by (cases s)
  have "0 \<le> r" using assms(1) by (simp add: s fls_inv_def)
  then show ?thesis using fls_done [OF assms(1) [unfolded s]] assms(2) by (simp add: s)
qed

lemma ffs_result:
  assumes "ffs_inv 1 x s" and "c = (case s of (y, r) \<Rightarrow> if y \<noteq> 0 then r + 1 else 0)"
  shows "if x = 0 then c = 0 else 1 \<le> c \<and> first_bit x (nat (c - 1))"
proof -
  obtain y r where s: "s = (y, r)" by (cases s)
  have "0 \<le> r" using assms(1) by (simp add: s ffs_inv_def)
  then show ?thesis using ffs_done [OF assms(1) [unfolded s]] assms(2) by (simp add: s)
qed

lemma constant_flsl_last_bit:
  "if x = 0 then constant_flsl x = 0 else 1 \<le> constant_flsl x \<and> last_bit x (nat (constant_flsl x - 1))"
proof -
  have "fls_inv 1 x (fls_half 1 0x2 (fls_half 2 0xc (fls_half 4 0xf0 (fls_half 8 0xff00
     (fls_half 16 0xffff0000 (fls_half 32 0xffffffff00000000 (x, 0)))))))"
    by (rule fls_half_inv, rule fls_half_inv, rule fls_half_inv, rule fls_half_inv, rule fls_half_inv,
        rule fls_half_inv, rule fls_inv_start) (simp_all add: mask_eq_exp_minus_1)
  from fls_result [OF this constant_flsll_halves] show ?thesis unfolding constant_flsl_def .
qed

lemma constant_ffsl_first_bit:
  "if x = 0 then constant_ffsl x = 0 else 1 \<le> constant_ffsl x \<and> first_bit x (nat (constant_ffsl x - 1))"
proof -
  have "ffs_inv 1 x (ffs_half 1 0x1 (ffs_half 2 0x3 (ffs_half 4 0x0f (ffs_half 8 0x00ff
     (ffs_half 16 0x0000ffff (ffs_half 32 0x00000000ffffffff (x, 0)))))))"
    by (rule ffs_half_inv, rule ffs_half_inv, rule ffs_half_inv, rule ffs_half_inv, rule ffs_half_inv,
        rule ffs_half_inv, rule ffs_inv_start) (simp_all add: mask_eq_exp_minus_1)
  from ffs_result [OF this constant_ffsll_halves] show ?thesis unfolding constant_ffsl_def .
qed

text \<open>The word lies below the power of two that \<open>fls\<close> returns the exponent of.\<close>

lemma constant_flsl_bounds:
  assumes "x \<noteq> 0"
  shows "1 \<le> constant_flsl x" and "constant_flsl x \<le> 64" and "unat x < 2 ^ nat (constant_flsl x)"
proof -
  define n where "n = nat (constant_flsl x - 1)"
  have last: "1 \<le> constant_flsl x" "last_bit x n" using constant_flsl_last_bit [of x] assms by (auto simp: n_def)
  then have n: "nat (constant_flsl x) = Suc n" by (simp add: n_def)
  have "n < 64" using last(2) by (auto simp: last_bit_def dest: bit_imp_le_length)
  then show "1 \<le> constant_flsl x" "constant_flsl x \<le> 64" using last(1) by (simp_all add: n_def)
  have "take_bit (Suc n) x = x"
    using last(2) by (intro bit_word_eqI) (auto simp: bit_simps last_bit_def less_Suc_eq_le not_less [symmetric])
  then have "take_bit (Suc n) (unat x) = unat x" by (metis unsigned_take_bit_eq)
  then show "unat x < 2 ^ nat (constant_flsl x)" unfolding n by (simp only: take_bit_nat_eq_self_iff)
qed

text \<open>
  C38: \<open>ffs\<close> and \<open>fls\<close> return the one-based position of the least and of the most significant set
  bit of a word, and zero for the word that has none.
\<close>

theorem ffs_fls_correct:
  "constant_ffsl x = (if x = 0 then 0 else int (LEAST n. bit x n) + 1) \<and>
   constant_flsl x = (if x = 0 then 0 else int (GREATEST n. bit x n) + 1)"
  using constant_flsl_last_bit [of x] constant_ffsl_first_bit [of x]
  by (auto simp: first_bit_Least last_bit_Greatest)

end
