(* ===== verification/Malloc.thy ===== *)
theory Malloc
  imports CString Bits
begin

text \<open>
  Dynamic memory allocation (core/malloc.c, include/ipxe/malloc.h): a first-fit allocator over an
  address-ordered list of free blocks that are merged when they touch.

  Addresses and sizes are natural numbers below \<open>2 ^ 64\<close>; where the code's \<open>size_t\<close> arithmetic can wrap
  around it is done on 64-bit words.  The free list is the list of the free blocks in list order.
  The headers the code keeps inside the memory (the size and links of a free block, the size of an
  allocated one) are fields of the state, and \<open>hp_mem\<close> holds the contents of the memory otherwise.
  The caches are other components: their state is \<open>hp_other\<close>, and their discarders are arguments,
  functions from the state to the state and the number of items discarded.  Since they may go on forever, so may an allocation, which
  is therefore a partial function.  The sizes are those of a 64-bit build.  Pointer differences are
  exact: C leaves one that does not fit undefined.  The Valgrind annotations and the debug assertions have no effect
  on the state; the assertions of \<open>check_blocks\<close> are the predicate of that name.
\<close>

section \<open>State\<close>

record memory_block =
  mb_addr :: nat
  mb_size :: nat

text \<open>
  \<open>struct memory_block\<close> takes 32 bytes: a size, the padding over the count of a reference counter,
  and a list head.
\<close>

definition sizeof_memory_block :: nat where
  "sizeof_memory_block = 32"

definition MIN_MEMBLOCK_SIZE :: nat where
  "MIN_MEMBLOCK_SIZE = 2 ^ nat (constant_flsl (word_of_nat (sizeof_memory_block - 1)))"

definition NOWHERE :: nat where
  "NOWHERE = 2 ^ 64 - 1"

definition HEAP_SIZE :: nat where
  "HEAP_SIZE = 512 * 1024"

text \<open>The offset of the data in \<open>struct autosized_block\<close>.\<close>

definition AUTOSIZED_DATA :: nat where
  "AUTOSIZED_DATA = 8"

record 'c heap =
  hp_free :: "memory_block list"
  hp_freemem :: u64
  hp_usedmem :: u64
  hp_maxusedmem :: u64
  hp_autosize :: "nat \<Rightarrow> nat"
  hp_mem :: mem
  hp_other :: 'c

type_synonym 'c discarder = "'c heap \<Rightarrow> 'c heap \<times> nat"

section \<open>Blocks\<close>

definition block_end :: "memory_block \<Rightarrow> nat" where
  "block_end block = mb_addr block + mb_size block"

fun check_blocks_from :: "memory_block option \<Rightarrow> memory_block list \<Rightarrow> bool" where
  "check_blocks_from prev [] \<longleftrightarrow> True"
| "check_blocks_from prev (block # blocks) \<longleftrightarrow>
     mb_size block \<ge> sizeof_memory_block \<and> mb_size block \<ge> MIN_MEMBLOCK_SIZE \<and>
     block_end block < 2 ^ 64 \<and>
     (case prev of None \<Rightarrow> True | Some p \<Rightarrow> mb_addr block > mb_addr p \<and> mb_addr block > block_end p) \<and>
     check_blocks_from (Some block) blocks"

definition check_blocks :: "'c heap \<Rightarrow> bool" where
  "check_blocks h \<longleftrightarrow> check_blocks_from None (hp_free h)"

fun discard_cache :: "'c discarder list \<Rightarrow> 'c discarder" where
  "discard_cache [] h = (h, 0)"
| "discard_cache (discard # discarders) h =
     (case discard h of (h, discarded) \<Rightarrow>
        if discarded \<noteq> 0 then (h, discarded) else discard_cache discarders h)"

partial_function (option) discard_all_cache :: "'c discarder list \<Rightarrow> 'c heap \<Rightarrow> 'c heap option" where
  "discard_all_cache discarders h =
     (case discard_cache discarders h of (h, discarded) \<Rightarrow>
        if discarded \<noteq> 0 then discard_all_cache discarders h else Some h)"

text \<open>The size rounded up to a multiple of the minimum; zero when the sum wraps around.\<close>

definition actual_size :: "nat \<Rightarrow> nat" where
  "actual_size sz =
     unat ((word_of_nat sz + word_of_nat MIN_MEMBLOCK_SIZE - 1 :: u64)
           AND NOT (word_of_nat MIN_MEMBLOCK_SIZE - 1))"

text \<open>
  In a 64-bit build the low 4GB are identity-mapped; other virtual addresses differ from physical
  ones by a fixed offset.
\<close>

definition virt_to_phys :: "u64 \<Rightarrow> nat \<Rightarrow> u64" where
  "virt_to_phys virt_offset addr =
     (if addr \<le> 0xffffffff then word_of_nat addr else word_of_nat addr + virt_offset)"

definition align_mask :: "nat \<Rightarrow> u64" where
  "align_mask align = (word_of_nat align - 1) OR (word_of_nat MIN_MEMBLOCK_SIZE - 1)"

definition pre_size_of :: "u64 \<Rightarrow> nat \<Rightarrow> nat \<Rightarrow> nat \<Rightarrow> nat" where
  "pre_size_of virt_offset align offset addr =
     unat ((word_of_nat offset - virt_to_phys virt_offset addr) AND align_mask align)"

section \<open>Allocation\<close>

text \<open>
  One pass over the free list: the first block with enough space is split into what comes before
  the allocation, the allocation, and what comes after; parts too small for a block are dropped.
\<close>

fun alloc_search ::
  "u64 \<Rightarrow> nat \<Rightarrow> nat \<Rightarrow> nat \<Rightarrow> memory_block list \<Rightarrow> (memory_block list \<times> nat) option" where
  "alloc_search virt_offset actual align offset [] = None"
| "alloc_search virt_offset actual align offset (block # blocks) =
     (let pre_size = pre_size_of virt_offset align offset (mb_addr block)
      in if mb_size block < pre_size \<or> mb_size block - pre_size < actual
         then map_option (map_prod ((#) block) id)
                (alloc_search virt_offset actual align offset blocks)
         else
           let post_size = mb_size block - pre_size - actual;
               ptr = mb_addr block + pre_size;
               post = ptr + actual
           in Some ((if pre_size < MIN_MEMBLOCK_SIZE then [] else [block\<lparr>mb_size := pre_size\<rparr>]) @
                    (if post_size \<ge> MIN_MEMBLOCK_SIZE then [\<lparr>mb_addr = post, mb_size = post_size\<rparr>] else []) @
                    blocks, ptr))"

definition alloc_take :: "'c heap \<Rightarrow> nat \<Rightarrow> memory_block list \<Rightarrow> 'c heap" where
  "alloc_take h actual blocks =
     (let usedmem = hp_usedmem h + word_of_nat actual
      in h\<lparr>hp_free := blocks, hp_freemem := hp_freemem h - word_of_nat actual, hp_usedmem := usedmem,
           hp_maxusedmem := if usedmem > hp_maxusedmem h then usedmem else hp_maxusedmem h\<rparr>)"

text \<open>The pointer returned is an address, or 0 for a null pointer.\<close>

partial_function (option) alloc_loop ::
  "u64 \<Rightarrow> 'c discarder list \<Rightarrow> 'c heap \<Rightarrow> nat \<Rightarrow> nat \<Rightarrow> nat \<Rightarrow> ('c heap \<times> nat) option" where
  "alloc_loop virt_offset discarders h actual align offset =
     (case alloc_search virt_offset actual align offset (hp_free h) of
        Some (blocks, ptr) \<Rightarrow> Some (alloc_take h actual blocks, ptr)
      | None \<Rightarrow>
          (case discard_cache discarders h of (h, discarded) \<Rightarrow>
             if discarded = 0 then Some (h, 0)
             else alloc_loop virt_offset discarders h actual align offset))"

definition alloc_memblock ::
  "u64 \<Rightarrow> 'c discarder list \<Rightarrow> 'c heap \<Rightarrow> nat \<Rightarrow> nat \<Rightarrow> nat \<Rightarrow> ('c heap \<times> nat) option" where
  "alloc_memblock virt_offset discarders h sz align offset =
     (let actual = actual_size sz
      in if actual = 0 then Some (h, 0)
         else alloc_loop virt_offset discarders h actual align offset)"

section \<open>Freeing\<close>

text \<open>
  The loop over the free list with the block being freed: a block that ends where it starts is taken
  out of the list and swallows it; the loop stops at the first block that starts behind it, before
  which it is inserted, and which it swallows if they touch.
\<close>

fun free_insert :: "memory_block \<Rightarrow> nat \<Rightarrow> memory_block list \<Rightarrow> memory_block list" where
  "free_insert freeing actual [] = [freeing]"
| "free_insert freeing actual (block # blocks) =
     (let gap_before = int (mb_addr freeing) - int (block_end block);
          gap_after = int (mb_addr block) - int (block_end freeing);
          merged = gap_before = 0;
          freeing = (if merged then block\<lparr>mb_size := mb_size block + actual\<rparr> else freeing)
      in if gap_after \<ge> 0
         then (if gap_after = 0 then freeing\<lparr>mb_size := mb_size freeing + mb_size block\<rparr> # blocks
               else freeing # block # blocks)
         else (if merged then free_insert freeing actual blocks
               else block # free_insert freeing actual blocks))"

definition free_memblock :: "'c heap \<Rightarrow> nat \<Rightarrow> nat \<Rightarrow> 'c heap" where
  "free_memblock h ptr sz =
     (if ptr = 0 then h
      else
        let actual = actual_size sz
        in h\<lparr>hp_free := free_insert \<lparr>mb_addr = ptr, mb_size = actual\<rparr> actual (hp_free h),
             hp_freemem := hp_freemem h + word_of_nat actual,
             hp_usedmem := hp_usedmem h - word_of_nat actual\<rparr>)"

section \<open>The C interface\<close>

definition realloc ::
  "u64 \<Rightarrow> 'c discarder list \<Rightarrow> 'c heap \<Rightarrow> nat \<Rightarrow> nat \<Rightarrow> ('c heap \<times> nat) option" where
  "realloc virt_offset discarders h old_ptr new_size =
     Option.bind
       (if new_size \<noteq> 0 then
          let new_total_size = (new_size + AUTOSIZED_DATA) mod 2 ^ 64
          in if new_total_size < new_size then Some (h, 0)
             else
               Option.bind (alloc_memblock virt_offset discarders h new_total_size 1 0)
                 (\<lambda>(h, new_block).
                    if new_block = 0 then Some (h, 0)
                    else Some (h\<lparr>hp_autosize := (hp_autosize h)(new_block := new_total_size)\<rparr>,
                               new_block + AUTOSIZED_DATA))
        else Some (h, NOWHERE))
       (\<lambda>(h, new_ptr).
          if new_ptr = 0 then Some (h, 0)
          else if old_ptr \<noteq> 0 \<and> old_ptr \<noteq> NOWHERE then
            let old_block = old_ptr - AUTOSIZED_DATA;
                old_total_size = hp_autosize h old_block;
                old_size = old_total_size - AUTOSIZED_DATA;
                h = h\<lparr>hp_mem := generic_memcpy (hp_mem h) new_ptr old_ptr
                       (if old_size < new_size then old_size else new_size)\<rparr>
            in Some (free_memblock h old_block old_total_size, new_ptr)
          else Some (h, new_ptr))"

definition malloc :: "u64 \<Rightarrow> 'c discarder list \<Rightarrow> 'c heap \<Rightarrow> nat \<Rightarrow> ('c heap \<times> nat) option" where
  "malloc virt_offset discarders h sz = realloc virt_offset discarders h 0 sz"

definition free :: "u64 \<Rightarrow> 'c discarder list \<Rightarrow> 'c heap \<Rightarrow> nat \<Rightarrow> 'c heap option" where
  "free virt_offset discarders h ptr = map_option fst (realloc virt_offset discarders h ptr 0)"

definition zalloc :: "u64 \<Rightarrow> 'c discarder list \<Rightarrow> 'c heap \<Rightarrow> nat \<Rightarrow> ('c heap \<times> nat) option" where
  "zalloc virt_offset discarders h sz =
     map_option (\<lambda>(h, data).
       (if data \<noteq> 0 then h\<lparr>hp_mem := generic_memset (hp_mem h) data 0 sz\<rparr> else h, data))
       (malloc virt_offset discarders h sz)"

definition mpopulate :: "'c heap \<Rightarrow> nat \<Rightarrow> nat \<Rightarrow> 'c heap" where
  "mpopulate h start len =
     (let len = unat (word_of_nat len AND NOT (word_of_nat MIN_MEMBLOCK_SIZE - 1) :: u64);
          h = free_memblock h start len
      in h\<lparr>hp_usedmem := hp_usedmem h + word_of_nat len\<rparr>)"

definition empty_heap :: "mem \<Rightarrow> 'c \<Rightarrow> 'c heap" where
  "empty_heap m other = \<lparr>hp_free = [], hp_freemem = 0, hp_usedmem = 0, hp_maxusedmem = 0,
     hp_autosize = \<lambda>_. 0, hp_mem = m, hp_other = other\<rparr>"

definition init_heap :: "mem \<Rightarrow> 'c \<Rightarrow> nat \<Rightarrow> 'c heap" where
  "init_heap m other heap_addr = mpopulate (empty_heap m other) heap_addr HEAP_SIZE"

definition shutdown_cache :: "'c discarder list \<Rightarrow> 'c heap \<Rightarrow> 'c heap option" where
  "shutdown_cache discarders h = discard_all_cache discarders h"

section \<open>Rounding\<close>

lemma MIN_MEMBLOCK_SIZE_eq [simp]: "MIN_MEMBLOCK_SIZE = 32"
  by code_simp

lemma and_not_31: "unat (x AND NOT (32 - 1) :: u64) = unat x div 32 * 32"
proof -
  have "(32 - 1 :: u64) = mask 5" by (simp add: mask_eq_exp_minus_1)
  moreover have "x AND NOT (mask 5) = push_bit 5 (drop_bit 5 x)"
    by (intro bit_word_eqI) (auto simp: bit_simps)
  ultimately have "x AND NOT (32 - 1) = push_bit 5 (drop_bit 5 x)" by (simp only:)
  moreover have "unat (push_bit 5 (drop_bit 5 x)) = take_bit 64 (unat x div 32 * 32)"
    unfolding unsigned_push_bit_eq unsigned_drop_bit_eq unfolding push_bit_eq_mult drop_bit_eq_div
    using unsigned_less [of x, where ?'a = nat] by (simp add: take_bit_nat_eq_self)
  ultimately have "unat (x AND NOT (32 - 1)) = take_bit 64 (unat x div 32 * 32)"
    by (simp only:)
  moreover have "unat x div 32 * 32 < 2 ^ 64"
    using unsigned_less [of x] by (intro le_less_trans [OF div_times_less_eq_dividend]) simp
  ultimately show ?thesis by (simp add: take_bit_nat_eq_self)
qed

lemma actual_size_eq:
  assumes "sz + 32 \<le> 2 ^ 64"
  shows "actual_size sz = (sz + 31) div 32 * 32"
proof -
  have "unat (word_of_nat sz + word_of_nat MIN_MEMBLOCK_SIZE - 1 :: u64) = sz + 31"
  proof -
    have "(word_of_nat sz + word_of_nat MIN_MEMBLOCK_SIZE - 1 :: u64) = word_of_nat (sz + 31)" by simp
    then show ?thesis using assms by (simp add: unsigned_of_nat take_bit_nat_eq_self del: of_nat_add)
  qed
  then show ?thesis using and_not_31 by (simp add: actual_size_def)
qed

lemma actual_size_bounds:
  assumes "sz < 2 ^ 64" and "actual_size sz \<noteq> 0"
  shows "sz \<le> actual_size sz" and "32 \<le> actual_size sz" and "32 dvd actual_size sz" and "actual_size sz < 2 ^ 64"
proof -
  have "sz + 32 \<le> 2 ^ 64"
  proof (rule ccontr)
    assume "\<not> ?thesis"
    then obtain k where k: "sz + 31 = 2 ^ 64 + k" "k < 31"
      using assms(1) by (intro that [of "sz + 31 - 2 ^ 64"]) auto
    have "(word_of_nat sz + word_of_nat MIN_MEMBLOCK_SIZE - 1 :: u64) = word_of_nat (sz + 31)" by simp
    also have "\<dots> = word_of_nat k"
      unfolding k(1) by (simp add: word_of_nat_eq_iff take_bit_eq_mod del: of_nat_add)
    finally have "unat (word_of_nat sz + word_of_nat MIN_MEMBLOCK_SIZE - 1 :: u64) = k"
      using k(2) by (simp add: unsigned_of_nat take_bit_nat_eq_self)
    then show False using assms(2) k(2) and_not_31 by (simp add: actual_size_def)
  qed
  then have eq: "actual_size sz = (sz + 31) div 32 * 32" by (rule actual_size_eq)
  show "sz \<le> actual_size sz" unfolding eq by presburger
  show "32 \<le> actual_size sz" using assms(2) unfolding eq by presburger
  show "32 dvd actual_size sz" unfolding eq by simp
  show "actual_size sz < 2 ^ 64" unfolding actual_size_def by (rule less_le_trans [OF unsigned_less]) simp
qed

section \<open>The free list\<close>

definition block_ok :: "memory_block \<Rightarrow> bool" where
  "block_ok b \<longleftrightarrow> 32 \<le> mb_size b \<and> block_end b < 2 ^ 64"

definition before :: "memory_block \<Rightarrow> memory_block \<Rightarrow> bool" where
  "before b c \<longleftrightarrow> block_end b < mb_addr c"

definition blocks_ok :: "memory_block list \<Rightarrow> bool" where
  "blocks_ok bs \<longleftrightarrow> sorted_wrt before bs \<and> (\<forall>b\<in>set bs. block_ok b)"

definition addrs :: "memory_block \<Rightarrow> nat set" where
  "addrs b = {mb_addr b..<block_end b}"

definition free_addrs :: "memory_block list \<Rightarrow> nat set" where
  "free_addrs bs = (\<Union>b\<in>set bs. addrs b)"

lemma before_trans: "before a b \<Longrightarrow> block_ok b \<Longrightarrow> before b c \<Longrightarrow> before a c"
  by (simp add: before_def block_end_def)

lemma blocks_ok_simps [simp]:
  "blocks_ok []"
  "blocks_ok (b # bs) \<longleftrightarrow> block_ok b \<and> (\<forall>c\<in>set bs. before b c) \<and> blocks_ok bs"
  by (auto simp: blocks_ok_def)

lemma free_addrs_simps [simp]:
  "free_addrs [] = {}"
  "free_addrs (b # bs) = addrs b \<union> free_addrs bs"
  "free_addrs (bs @ bs') = free_addrs bs \<union> free_addrs bs'"
  by (auto simp: free_addrs_def)

text \<open>The code's integrity check says that the list is ordered and merged.\<close>

lemma check_blocks_from_Some:
  "block_ok p \<Longrightarrow> check_blocks_from (Some p) bs \<longleftrightarrow> (\<forall>b\<in>set bs. before p b) \<and> blocks_ok bs"
proof (induction bs arbitrary: p)
  case (Cons b bs)
  have "block_ok b \<longleftrightarrow> mb_size b \<ge> sizeof_memory_block \<and> mb_size b \<ge> MIN_MEMBLOCK_SIZE \<and> block_end b < 2 ^ 64"
    by (auto simp: block_ok_def sizeof_memory_block_def)
  moreover have "before p b \<Longrightarrow> mb_addr b > mb_addr p" by (simp add: before_def block_end_def)
  ultimately show ?case
    using Cons.IH [of b] before_trans [of p b] by (auto simp: before_def)
qed simp

lemma check_blocks_iff: "check_blocks h \<longleftrightarrow> blocks_ok (hp_free h)"
proof (cases "hp_free h")
  case (Cons b bs)
  have "block_ok b \<longleftrightarrow> mb_size b \<ge> sizeof_memory_block \<and> mb_size b \<ge> MIN_MEMBLOCK_SIZE \<and> block_end b < 2 ^ 64"
    by (auto simp: block_ok_def sizeof_memory_block_def)
  then show ?thesis using check_blocks_from_Some [of b bs] by (auto simp: check_blocks_def Cons)
qed (simp add: check_blocks_def)

section \<open>One allocation\<close>

lemma free_addrs_after:
  "\<forall>c\<in>set bs. before b c \<Longrightarrow> a \<in> free_addrs bs \<Longrightarrow> block_end b < a"
  by (auto simp: free_addrs_def addrs_def before_def)

text \<open>The block that an allocation is taken from, and what is left of it.\<close>

definition leftover :: "memory_block \<Rightarrow> nat \<Rightarrow> nat \<Rightarrow> memory_block list" where
  "leftover b pre actual =
     (if pre < 32 then [] else [b\<lparr>mb_size := pre\<rparr>]) @
     (if mb_size b - pre - actual \<ge> 32
      then [\<lparr>mb_addr = mb_addr b + pre + actual, mb_size = mb_size b - pre - actual\<rparr>] else [])"

lemma alloc_search_split:
  assumes "alloc_search virt_offset actual align offset bs = Some (bs', ptr)"
  obtains xs b ys where "bs = xs @ b # ys"
    and "pre_size_of virt_offset align offset (mb_addr b) + actual \<le> mb_size b"
    and "ptr = mb_addr b + pre_size_of virt_offset align offset (mb_addr b)"
    and "bs' = xs @ leftover b (pre_size_of virt_offset align offset (mb_addr b)) actual @ ys"
    and "\<And>x. x \<in> set xs \<Longrightarrow> mb_size x < pre_size_of virt_offset align offset (mb_addr x) + actual"
  using assms
proof (induction bs arbitrary: bs' ptr thesis)
  case (Cons b bs)
  let ?pre = "pre_size_of virt_offset align offset (mb_addr b)"
  show ?case
  proof (cases "mb_size b < ?pre \<or> mb_size b - ?pre < actual")
    case True
    then obtain bs1 where s: "alloc_search virt_offset actual align offset bs = Some (bs1, ptr)" "bs' = b # bs1"
      using Cons.prems(2) by (auto simp: Let_def)
    obtain xs c ys where "bs = xs @ c # ys"
      "pre_size_of virt_offset align offset (mb_addr c) + actual \<le> mb_size c"
      "ptr = mb_addr c + pre_size_of virt_offset align offset (mb_addr c)"
      "bs1 = xs @ leftover c (pre_size_of virt_offset align offset (mb_addr c)) actual @ ys"
      "\<And>x. x \<in> set xs \<Longrightarrow> mb_size x < pre_size_of virt_offset align offset (mb_addr x) + actual"
      using Cons.IH [OF _ s(1)] by blast
    then show ?thesis using True s(2) by (intro Cons.prems(1) [of "b # xs" c ys]) auto
  next
    case False
    then show ?thesis
      using Cons.prems(2) by (intro Cons.prems(1) [of "[]" b bs]) (auto simp: Let_def leftover_def)
  qed
qed simp

lemma blocks_ok_append:
  "blocks_ok (xs @ ys) \<longleftrightarrow> blocks_ok xs \<and> blocks_ok ys \<and> (\<forall>x\<in>set xs. \<forall>y\<in>set ys. before x y)"
  by (induction xs) auto

lemma leftover_ok:
  assumes "block_ok b" and "pre + actual \<le> mb_size b" and "0 < actual"
  shows "blocks_ok (leftover b pre actual)"
    and "c \<in> set (leftover b pre actual) \<Longrightarrow> mb_addr b \<le> mb_addr c \<and> block_end c \<le> block_end b"
    and "free_addrs (leftover b pre actual) \<subseteq> addrs b - {mb_addr b + pre..<mb_addr b + pre + actual}"
  using assms by (auto simp: leftover_def block_ok_def before_def block_end_def addrs_def split: if_splits)

lemma alloc_search_ok:
  assumes "alloc_search virt_offset actual align offset bs = Some (bs', ptr)" and "blocks_ok bs"
    and "0 < actual"
  shows "blocks_ok bs'" and "{ptr..<ptr + actual} \<subseteq> free_addrs bs"
    and "free_addrs bs' \<subseteq> free_addrs bs - {ptr..<ptr + actual}"
proof -
  obtain xs b ys where sp: "bs = xs @ b # ys"
    and fit: "pre_size_of virt_offset align offset (mb_addr b) + actual \<le> mb_size b"
    and ptr: "ptr = mb_addr b + pre_size_of virt_offset align offset (mb_addr b)"
    and bs': "bs' = xs @ leftover b (pre_size_of virt_offset align offset (mb_addr b)) actual @ ys"
    using alloc_search_split [OF assms(1)] by blast
  define pre where "pre = pre_size_of virt_offset align offset (mb_addr b)"
  have ok: "block_ok b" "\<forall>x\<in>set xs. before x b" "\<forall>y\<in>set ys. before b y" "blocks_ok xs" "blocks_ok ys"
    "\<forall>x\<in>set xs. \<forall>y\<in>set ys. before x y"
    using assms(2) by (auto simp: sp blocks_ok_append)
  note left = leftover_ok [OF ok(1) fit assms(3), folded pre_def]
  show "blocks_ok bs'"
    unfolding bs' pre_def [symmetric] blocks_ok_append
    using ok left(1,2) by (fastforce simp: before_def)
  show "{ptr..<ptr + actual} \<subseteq> free_addrs bs"
    using fit by (auto simp: sp ptr addrs_def block_end_def)
  have "a \<notin> {ptr..<ptr + actual}" if "a \<in> free_addrs xs \<union> free_addrs ys" for a
    using that ok(2) free_addrs_after [OF ok(3)] fit
    by (fastforce simp: free_addrs_def [of xs] addrs_def before_def ptr block_end_def)
  then show "free_addrs bs' \<subseteq> free_addrs bs - {ptr..<ptr + actual}"
    using left(3) by (auto simp: bs' sp ptr pre_def)
qed

section \<open>One release\<close>

lemma addrs_disjoint_iff:
  assumes "block_ok b" and "block_ok c"
  shows "addrs b \<inter> addrs c = {} \<longleftrightarrow> block_end b \<le> mb_addr c \<or> block_end c \<le> mb_addr b"
proof
  assume dis: "addrs b \<inter> addrs c = {}"
  have "mb_addr b < block_end b" "mb_addr c < block_end c"
    using assms by (simp_all add: block_ok_def block_end_def)
  then have "mb_addr b \<notin> addrs c" "mb_addr c \<notin> addrs b" using dis by (auto simp: addrs_def)
  then show "block_end b \<le> mb_addr c \<or> block_end c \<le> mb_addr b" by (auto simp: addrs_def)
qed (auto simp: addrs_def)

text \<open>A block in front of all others is linked in, merged with the first if they touch.\<close>

lemma free_insert_front:
  assumes "blocks_ok bs" and "block_ok f" and "\<forall>b\<in>set bs. block_end f \<le> mb_addr b"
  shows "blocks_ok (free_insert f actual bs)"
    and "free_addrs (free_insert f actual bs) = addrs f \<union> free_addrs bs"
    and "before p f \<Longrightarrow> \<forall>b\<in>set (free_insert f actual bs). before p b"
proof -
  have "blocks_ok (free_insert f actual bs) \<and>
      free_addrs (free_insert f actual bs) = addrs f \<union> free_addrs bs \<and>
      (before p f \<longrightarrow> (\<forall>b\<in>set (free_insert f actual bs). before p b))"
  proof (cases bs)
    case Nil
    then show ?thesis using assms(2) by simp
  next
    case (Cons b bs')
    have f: "mb_addr f < block_end f" "mb_addr b < block_end b"
      using assms by (simp_all add: Cons block_ok_def block_end_def)
    show ?thesis
    proof (cases "block_end f = mb_addr b")
      case True
      then have "free_insert f actual bs = f\<lparr>mb_size := mb_size f + mb_size b\<rparr> # bs'"
        using f by (simp add: Cons Let_def)
      moreover have "addrs (f\<lparr>mb_size := mb_size f + mb_size b\<rparr>) = addrs f \<union> addrs b"
        "block_end (f\<lparr>mb_size := mb_size f + mb_size b\<rparr>) = block_end b"
        using True f by (auto simp: addrs_def block_end_def)
      moreover have "before p c" if "before p f" "c \<in> set bs'" for c
        using that assms(1) True f by (auto simp: Cons before_def)
      ultimately show ?thesis
        using assms by (auto simp: Cons block_ok_def before_def)
    next
      case False
      then have "block_end f < mb_addr b" using assms(3) by (simp add: Cons le_neq_implies_less)
      then have "free_insert f actual bs = f # b # bs'" using f by (simp add: Cons Let_def)
      moreover have "block_end f < mb_addr c" if "c \<in> set bs'" for c
        using that assms(1) \<open>block_end f < mb_addr b\<close> f by (auto simp: Cons before_def)
      ultimately show ?thesis
        using assms(1,2) \<open>block_end f < mb_addr b\<close> f by (auto simp: Cons before_def)
    qed
  qed
  then show "blocks_ok (free_insert f actual bs)"
    "free_addrs (free_insert f actual bs) = addrs f \<union> free_addrs bs"
    "before p f \<Longrightarrow> \<forall>b\<in>set (free_insert f actual bs). before p b" by blast+
qed

text \<open>
  Inserting a block that overlaps no free block keeps the list ordered and merged and adds exactly
  its addresses.
\<close>

lemma free_insert_ok:
  assumes "blocks_ok bs" and "block_ok f" and "addrs f \<inter> free_addrs bs = {}" and "mb_size f = actual"
  shows "blocks_ok (free_insert f actual bs) \<and>
    free_addrs (free_insert f actual bs) = addrs f \<union> free_addrs bs \<and>
    (\<forall>p. before p f \<and> (\<forall>b\<in>set bs. before p b) \<longrightarrow> (\<forall>b\<in>set (free_insert f actual bs). before p b))"
  using assms(1,3)
proof (induction bs)
  case Nil
  then show ?case using assms(2) by simp
next
  case (Cons b bs)
  have ok: "block_ok b" "\<forall>c\<in>set bs. before b c" "blocks_ok bs" "addrs f \<inter> free_addrs bs = {}"
    "addrs f \<inter> addrs b = {}"
    using Cons.prems by auto
  have len: "mb_addr f < block_end f" "mb_addr b < block_end b"
    using assms(2) ok(1) by (simp_all add: block_ok_def block_end_def)
  consider (front) "block_end f \<le> mb_addr b" | (merge) "block_end b = mb_addr f" | (later) "block_end b < mb_addr f"
    using ok(5) addrs_disjoint_iff [OF assms(2) ok(1)] by linarith
  then show ?case
  proof cases
    case front
    then have "\<forall>c\<in>set (b # bs). block_end f \<le> mb_addr c" using ok(2) len by (auto simp: before_def)
    note fr = free_insert_front [OF Cons.prems(1) assms(2) this, where actual = actual]
    show ?thesis using fr(1,2) fr(3) by blast
  next
    case merge
    define f' where "f' = b\<lparr>mb_size := mb_size b + actual\<rparr>"
    have f': "block_end f' = block_end f" "addrs f' = addrs b \<union> addrs f" "mb_addr f' = mb_addr b"
      using merge assms(4) by (auto simp: f'_def block_end_def addrs_def)
    then have "block_ok f'" using assms(2) ok(1) by (simp add: block_ok_def f'_def)
    moreover have "block_end f \<le> mb_addr c" if "c \<in> set bs" for c
    proof -
      have "block_ok c" using ok(3) that by (auto simp: blocks_ok_def)
      moreover have "addrs f \<inter> addrs c = {}" using ok(4) that by (auto simp: free_addrs_def)
      ultimately have "block_end f \<le> mb_addr c \<or> block_end c \<le> mb_addr f"
        using addrs_disjoint_iff [OF assms(2)] by blast
      moreover have "mb_addr f < mb_addr c" using ok(2) that merge by (simp add: before_def)
      moreover have "mb_addr c < block_end c" using \<open>block_ok c\<close> by (simp add: block_ok_def block_end_def)
      ultimately show ?thesis by linarith
    qed
    ultimately have fr: "block_ok f'" "\<forall>c\<in>set bs. block_end f' \<le> mb_addr c" using f'(1) by simp_all
    note fr = free_insert_front [OF ok(3) fr, where actual = actual]
    have "free_insert f actual (b # bs) = free_insert f' actual bs"
      using merge len by (simp add: Let_def f'_def)
    moreover have "before p f'" if "\<forall>c\<in>set (b # bs). before p c" for p
      using that f'(3) by (simp add: before_def)
    moreover have "free_addrs (free_insert f' actual bs) = addrs f \<union> free_addrs (b # bs)"
      unfolding fr(2) f'(2) by auto
    ultimately show ?thesis using fr(1) fr(3) by metis
  next
    case later
    then have eq: "free_insert f actual (b # bs) = b # free_insert f actual bs" using len by (simp add: Let_def)
    have bf: "before b f" using later by (simp add: before_def)
    have IH: "blocks_ok (free_insert f actual bs)"
      "free_addrs (free_insert f actual bs) = addrs f \<union> free_addrs bs"
      "\<And>p. before p f \<Longrightarrow> \<forall>c\<in>set bs. before p c \<Longrightarrow> \<forall>c\<in>set (free_insert f actual bs). before p c"
      using Cons.IH [OF ok(3,4)] by blast+
    have "blocks_ok (b # free_insert f actual bs)" using IH(1) ok(1) IH(3) [OF bf ok(2)] by simp
    moreover have "free_addrs (b # free_insert f actual bs) = addrs f \<union> free_addrs (b # bs)"
      using IH(2) by auto
    moreover have "\<forall>c\<in>set (b # free_insert f actual bs). before p c"
      if "before p f" "\<forall>c\<in>set (b # bs). before p c" for p
      using IH(3) [of p] that by simp
    ultimately show ?thesis unfolding eq by blast
  qed
qed

section \<open>Live blocks\<close>

text \<open>
  A live block is the pointer and the size of an allocation; it extends over the rounded size.  The
  state is consistent when the free list is ordered and merged, the live blocks overlap neither each
  other nor the free list, everything lies in the memory given to the allocator, and the statistics
  are right.
\<close>

definition extent :: "nat \<times> nat \<Rightarrow> nat set" where
  "extent b = {fst b..<fst b + actual_size (snd b)}"

definition live_ok :: "(nat \<times> nat) set \<Rightarrow> bool" where
  "live_ok L \<longleftrightarrow> finite L \<and>
     (\<forall>b\<in>L. snd b < 2 ^ 64 \<and> actual_size (snd b) \<noteq> 0 \<and> fst b + actual_size (snd b) < 2 ^ 64) \<and>
     (\<forall>b\<in>L. \<forall>c\<in>L. b \<noteq> c \<longrightarrow> extent b \<inter> extent c = {})"

definition used_size :: "(nat \<times> nat) set \<Rightarrow> nat" where
  "used_size L = (\<Sum>b\<in>L. actual_size (snd b))"

definition heap_ok :: "nat set \<Rightarrow> (nat \<times> nat) set \<Rightarrow> 'c heap \<Rightarrow> bool" where
  "heap_ok R L h \<longleftrightarrow> check_blocks h \<and> live_ok L \<and> finite R \<and> 0 \<notin> R \<and>
     free_addrs (hp_free h) \<subseteq> R \<and> (\<Union>b\<in>L. extent b) \<subseteq> R \<and>
     (\<Union>b\<in>L. extent b) \<inter> free_addrs (hp_free h) = {} \<and>
     hp_usedmem h = word_of_nat (used_size L) \<and>
     hp_freemem h + hp_usedmem h = word_of_nat (card R)"

lemma live_block:
  assumes "live_ok L" and "b \<in> L"
  shows "fst b \<in> extent b" and "32 \<le> actual_size (snd b)" and "{fst b..<fst b + snd b} \<subseteq> extent b"
  using assms actual_size_bounds [of "snd b"] by (auto simp: live_ok_def extent_def)

lemma heap_okD:
  assumes "heap_ok R L h"
  shows "blocks_ok (hp_free h)" and "live_ok L" and "finite L" and "0 \<notin> R" and "free_addrs (hp_free h) \<subseteq> R"
    and "b \<in> L \<Longrightarrow> extent b \<subseteq> R" and "b \<in> L \<Longrightarrow> extent b \<inter> free_addrs (hp_free h) = {}"
  using assms by (auto simp: heap_ok_def check_blocks_iff live_ok_def)

lemma heap_ok_freemem: "heap_ok R L h \<Longrightarrow> hp_freemem h + word_of_nat (used_size L) = word_of_nat (card R)"
  unfolding heap_ok_def by (elim conjE) simp

lemma heap_ok_other:
  "heap_ok R L (h\<lparr>hp_autosize := a\<rparr>) = heap_ok R L h"
  "heap_ok R L (h\<lparr>hp_mem := m\<rparr>) = heap_ok R L h"
  "heap_ok R L (h\<lparr>hp_other := c\<rparr>) = heap_ok R L h"
  by (simp_all add: heap_ok_def check_blocks_def)

text \<open>Releasing a live block.\<close>

lemma free_memblock_ok:
  assumes "heap_ok R L h" and "(ptr, sz) \<in> L"
  shows "heap_ok R (L - {(ptr, sz)}) (free_memblock h ptr sz)"
proof -
  define f where "f = \<lparr>mb_addr = ptr, mb_size = actual_size sz\<rparr>"
  have ext: "extent (ptr, sz) = addrs f" by (simp add: extent_def addrs_def block_end_def f_def)
  have live: "live_ok L" and bs: "blocks_ok (hp_free h)" using heap_okD [OF assms(1)] by auto
  have b: "ptr \<in> addrs f" "32 \<le> actual_size sz" "ptr + actual_size sz < 2 ^ 64"
    using live_block [OF live assms(2)] live assms(2) by (auto simp: ext live_ok_def)
  then have "block_ok f" by (simp add: block_ok_def f_def block_end_def)
  moreover have "addrs f \<inter> free_addrs (hp_free h) = {}" using heap_okD(7) [OF assms] by (simp add: ext)
  ultimately have ins: "blocks_ok (free_insert f (actual_size sz) (hp_free h))"
    "free_addrs (free_insert f (actual_size sz) (hp_free h)) = addrs f \<union> free_addrs (hp_free h)"
    using free_insert_ok [OF bs, of f "actual_size sz"] by (auto simp: f_def)
  have R: "addrs f \<subseteq> R" using heap_okD(6) [OF assms] by (simp add: ext)
  then have "ptr \<noteq> 0" using b(1) heap_okD(4) [OF assms(1)] by (metis subsetD)
  have sum: "used_size L = actual_size sz + used_size (L - {(ptr, sz)})"
    using sum.remove [OF heap_okD(3) [OF assms(1)] assms(2), of "\<lambda>b. actual_size (snd b)"]
    by (simp add: used_size_def)
  have dis: "extent c \<inter> addrs f = {}" if "c \<in> L - {(ptr, sz)}" for c
    using live assms(2) that by (auto simp: live_ok_def simp flip: ext)
  have "live_ok (L - {(ptr, sz)})" using live by (auto simp: live_ok_def)
  moreover have "(\<Union>b\<in>L - {(ptr, sz)}. extent b) \<subseteq> R \<and>
      (\<Union>b\<in>L - {(ptr, sz)}. extent b) \<inter> (addrs f \<union> free_addrs (hp_free h)) = {}"
    using heap_okD(6,7) [OF assms(1)] dis by blast
  moreover have "free_memblock h ptr sz = h\<lparr>hp_free := free_insert f (actual_size sz) (hp_free h),
      hp_freemem := hp_freemem h + word_of_nat (actual_size sz),
      hp_usedmem := hp_usedmem h - word_of_nat (actual_size sz)\<rparr>"
    using \<open>ptr \<noteq> 0\<close> by (simp add: free_memblock_def Let_def f_def)
  ultimately show ?thesis
    using assms(1) ins R sum heap_ok_freemem [OF assms(1)] unfolding heap_ok_def check_blocks_iff
    by (simp add: add.assoc)
qed

text \<open>Taking a block from the free list.\<close>

lemma alloc_take_ok:
  assumes "heap_ok R L h" and "alloc_search vo (actual_size sz) align offset (hp_free h) = Some (bs, ptr)"
    and "sz < 2 ^ 64" and "actual_size sz \<noteq> 0"
  shows "heap_ok R (insert (ptr, sz) L) (alloc_take h (actual_size sz) bs)"
    and "(ptr, sz) \<notin> L" and "ptr \<noteq> 0" and "extent (ptr, sz) \<subseteq> free_addrs (hp_free h)"
proof -
  have pos: "0 < actual_size sz" "32 \<le> actual_size sz" using assms(4) actual_size_bounds [OF assms(3,4)] by auto
  note s = alloc_search_ok [OF assms(2) heap_okD(1) [OF assms(1)] pos(1)]
  have ext: "extent (ptr, sz) = {ptr..<ptr + actual_size sz}" by (simp add: extent_def)
  then show sub: "extent (ptr, sz) \<subseteq> free_addrs (hp_free h)" using s(2) by simp
  have "ptr \<in> extent (ptr, sz)" using pos by (simp add: ext)
  then have "ptr \<in> R" using sub heap_okD(5) [OF assms(1)] by blast
  then show "ptr \<noteq> 0" using heap_okD(4) [OF assms(1)] by metis
  show new: "(ptr, sz) \<notin> L" using sub \<open>ptr \<in> extent _\<close> heap_okD(7) [OF assms(1)] by blast
  have dis: "extent c \<inter> extent (ptr, sz) = {}" if "c \<in> L" for c
    using heap_okD(7) [OF assms(1) that] sub by blast
  have "ptr + actual_size sz < 2 ^ 64"
  proof -
    have "ptr + actual_size sz - 1 \<in> free_addrs (hp_free h)" using s(2) pos by auto
    then obtain b where "b \<in> set (hp_free h)" "ptr + actual_size sz - 1 \<in> addrs b" by (auto simp: free_addrs_def)
    moreover have "block_ok b" using heap_okD(1) [OF assms(1)] calculation(1) by (simp add: blocks_ok_def)
    ultimately show ?thesis by (auto simp: addrs_def block_ok_def)
  qed
  then have live: "live_ok (insert (ptr, sz) L)"
    using heap_okD(2) [OF assms(1)] assms(3,4) dis by (auto simp: live_ok_def Int_commute)
  have disj: "free_addrs bs \<subseteq> free_addrs (hp_free h)" "free_addrs bs \<inter> extent (ptr, sz) = {}"
    using s(3) by (auto simp: ext)
  have "used_size (insert (ptr, sz) L) = actual_size sz + used_size L"
    using new heap_okD(3) [OF assms(1)] by (simp add: used_size_def)
  then have "hp_usedmem (alloc_take h (actual_size sz) bs) = word_of_nat (used_size (insert (ptr, sz) L))"
    using assms(1) by (simp add: alloc_take_def Let_def heap_ok_def add.commute)
  moreover have "hp_freemem (alloc_take h (actual_size sz) bs) + hp_usedmem (alloc_take h (actual_size sz) bs)
      = word_of_nat (card R)"
    using assms(1) heap_ok_freemem [OF assms(1)] by (simp add: alloc_take_def Let_def heap_ok_def)
  moreover have "hp_free (alloc_take h (actual_size sz) bs) = bs" by (simp add: alloc_take_def Let_def)
  moreover have "(\<Union>b\<in>insert (ptr, sz) L. extent b) \<subseteq> R \<and> (\<Union>b\<in>insert (ptr, sz) L. extent b) \<inter> free_addrs bs = {}"
    using heap_okD(5-7) [OF assms(1)] sub disj by blast
  ultimately show "heap_ok R (insert (ptr, sz) L) (alloc_take h (actual_size sz) bs)"
    using assms(1) live s(1) disj(1) unfolding heap_ok_def check_blocks_iff by auto
qed

section \<open>Cache discarders\<close>

text \<open>
  A cache owns some of the live blocks.  Discarding releases some of the blocks that the caches own,
  and neither allocates nor touches the blocks of others.
\<close>

definition discarding ::
  "nat set \<Rightarrow> ('c \<Rightarrow> (nat \<times> nat) set) \<Rightarrow> 'c heap \<Rightarrow> (nat \<times> nat) set \<Rightarrow> 'c heap \<Rightarrow> (nat \<times> nat) set \<Rightarrow> bool" where
  "discarding R owned h L h' L' \<longleftrightarrow>
     heap_ok R L' h' \<and> L' \<subseteq> L \<and> L - L' \<subseteq> owned (hp_other h) \<and>
     owned (hp_other h') \<subseteq> owned (hp_other h) \<inter> L' \<and>
     (\<forall>b\<in>L - owned (hp_other h). \<forall>a\<in>extent b. hp_autosize h' a = hp_autosize h a \<and> hp_mem h' a = hp_mem h a)"

text \<open>
  What the allocator relies on: a discarder that says it has discarded something has done just that
  and released at least one block, and one that says it has discarded nothing has changed nothing.
\<close>

definition discarder_ok :: "nat set \<Rightarrow> ('c \<Rightarrow> (nat \<times> nat) set) \<Rightarrow> 'c discarder \<Rightarrow> bool" where
  "discarder_ok R owned d \<longleftrightarrow>
     (\<forall>h L. heap_ok R L h \<and> owned (hp_other h) \<subseteq> L \<longrightarrow>
        (if snd (d h) = 0 then fst (d h) = h
         else \<exists>L'. discarding R owned h L (fst (d h)) L' \<and> L' \<noteq> L))"

lemma discarder_okD:
  assumes "discarder_ok R owned d" and "heap_ok R L h" and "owned (hp_other h) \<subseteq> L" and "d h = (h', n)"
  shows "n = 0 \<Longrightarrow> h' = h" and "n \<noteq> 0 \<Longrightarrow> \<exists>L'. discarding R owned h L h' L' \<and> L' \<noteq> L"
  using assms unfolding discarder_ok_def by (metis fst_conv snd_conv)+

lemma discarding_refl:
  assumes "heap_ok R L h" and "owned (hp_other h) \<subseteq> L"
  shows "discarding R owned h L h L"
  using assms by (simp add: discarding_def)

lemma discarding_trans:
  assumes "discarding R owned h L h1 L1" and "discarding R owned h1 L1 h2 L2"
  shows "discarding R owned h L h2 L2"
proof -
  have "b \<in> L1 - owned (hp_other h1)" if "b \<in> L - owned (hp_other h)" for b
    using that assms by (auto simp: discarding_def)
  then have "\<forall>b\<in>L - owned (hp_other h). \<forall>a\<in>extent b. hp_autosize h2 a = hp_autosize h a \<and> hp_mem h2 a = hp_mem h a"
    using assms unfolding discarding_def by metis
  then show ?thesis using assms unfolding discarding_def by blast
qed

lemma discardingD:
  assumes "discarding R owned h L h' L'"
  shows "heap_ok R L' h'" and "owned (hp_other h') \<subseteq> L'" and "L' \<subseteq> L"
  using assms by (auto simp: discarding_def)

lemma discarding_keeps:
  assumes "discarding R owned h L h' L'" and "b \<in> L - owned (hp_other h)"
  shows "b \<in> L'" and "\<forall>a\<in>extent b. hp_autosize h' a = hp_autosize h a" and "\<forall>a\<in>extent b. hp_mem h' a = hp_mem h a"
  using assms unfolding discarding_def by blast+

text \<open>Going through all discarders is again such a discarder.\<close>

lemma discard_cache_ok:
  assumes "\<forall>d\<in>set ds. discarder_ok R owned d"
  shows "discarder_ok R owned (discard_cache ds)"
  using assms
proof (induction ds)
  case Nil
  then show ?case by (simp add: discarder_ok_def)
next
  case (Cons d ds)
  then have d: "discarder_ok R owned d" and ds: "discarder_ok R owned (discard_cache ds)" by auto
  have "if snd (discard_cache (d # ds) h) = 0 then fst (discard_cache (d # ds) h) = h
      else \<exists>L'. discarding R owned h L (fst (discard_cache (d # ds) h)) L' \<and> L' \<noteq> L"
    if ok: "heap_ok R L h" "owned (hp_other h) \<subseteq> L" for h :: "'a heap" and L
  proof -
    obtain h1 n where d1: "d h = (h1, n)" by fastforce
    show ?thesis
    proof (cases "n = 0")
      case True
      then have "discard_cache (d # ds) h = discard_cache ds h"
        using discarder_okD(1) [OF d ok d1] by (simp add: d1)
      then show ?thesis using ds ok unfolding discarder_ok_def by (metis (no_types, lifting))
    qed (use discarder_okD(2) [OF d ok d1] in \<open>simp add: d1\<close>)
  qed
  then show ?case unfolding discarder_ok_def by blast
qed

section \<open>Allocation terminates\<close>

text \<open>
  Each round that goes on has made the set of live blocks smaller.  The loop ends when a block is
  found, or when none is and nothing can be discarded any more.
\<close>

lemma alloc_loop_ends:
  assumes "\<forall>d\<in>set ds. discarder_ok R owned d" and "heap_ok R L h" and "owned (hp_other h) \<subseteq> L"
  shows "\<exists>h1 L1. discarding R owned h L h1 L1 \<and>
    alloc_loop vo ds h actual align offset =
      Some (case alloc_search vo actual align offset (hp_free h1) of
              None \<Rightarrow> (h1, 0) | Some (bs, ptr) \<Rightarrow> (alloc_take h1 actual bs, ptr)) \<and>
    (alloc_search vo actual align offset (hp_free h1) = None \<longrightarrow> snd (discard_cache ds h1) = 0)"
  using assms(2,3)
proof (induction "card L" arbitrary: h L rule: less_induct)
  case less
  show ?case
  proof (cases "alloc_search vo actual align offset (hp_free h)")
    case (Some r)
    then show ?thesis
      using discarding_refl [of R L h owned] less.prems
      by (intro exI [of _ h] exI [of _ L]) (cases r, subst alloc_loop.simps, simp)
  next
    case None
    obtain h1 n where d: "discard_cache ds h = (h1, n)" by fastforce
    note dD = discarder_okD [OF discard_cache_ok [OF assms(1)] less.prems d]
    show ?thesis
    proof (cases "n = 0")
      case True
      then have "alloc_loop vo ds h actual align offset = Some (h, 0)"
        using None d dD(1) by (subst alloc_loop.simps) simp
      then show ?thesis
        using None d True discarding_refl [of R L h owned] less.prems by (intro exI [of _ h] exI [of _ L]) simp
    next
      case False
      then obtain L1 where L1: "discarding R owned h L h1 L1" "L1 \<noteq> L" using dD(2) by blast
      have eq: "alloc_loop vo ds h actual align offset = alloc_loop vo ds h1 actual align offset"
        using None d False by (subst alloc_loop.simps) simp
      have "card L1 < card L"
        using L1 discardingD(3) [OF L1(1)] heap_okD(3) [OF less.prems(1)] by (intro psubset_card_mono) auto
      from less.hyps [OF this discardingD(1,2) [OF L1(1)]] obtain h2 L2
        where IH: "discarding R owned h1 L1 h2 L2"
          "alloc_loop vo ds h1 actual align offset =
             Some (case alloc_search vo actual align offset (hp_free h2) of
                     None \<Rightarrow> (h2, 0) | Some (bs, ptr) \<Rightarrow> (alloc_take h2 actual bs, ptr))"
          "alloc_search vo actual align offset (hp_free h2) = None \<longrightarrow> snd (discard_cache ds h2) = 0"
        by (elim exE conjE)
      show ?thesis
        unfolding eq using discarding_trans [OF L1(1) IH(1)] IH(2,3) by (intro exI [of _ h2] exI [of _ L2] conjI)
    qed
  qed
qed

section \<open>Alignment\<close>

lemma align_mask_power: "j < 64 \<Longrightarrow> align_mask (2 ^ j) = mask (max j 5)"
proof -
  assume "j < 64"
  have "align_mask (2 ^ j) = mask j OR mask 5"
    by (simp add: align_mask_def mask_eq_exp_minus_1 of_nat_power)
  also have "\<dots> = mask (max j 5)" by (rule bit_word_eqI) (auto simp: bit_simps)
  finally show ?thesis .
qed

text \<open>No allocation straddles the boundary below which the memory is identity-mapped.\<close>

definition same_mapping :: "nat set \<Rightarrow> bool" where
  "same_mapping R \<longleftrightarrow> R \<subseteq> {..0xffffffff} \<or> R \<subseteq> {0x100000000..}"

lemma pre_size_aligned:
  assumes "j < 64" and "same_mapping R" and "addr \<in> R"
    and "addr + pre_size_of vo (2 ^ j) offset addr \<in> R"
  shows "virt_to_phys vo (addr + pre_size_of vo (2 ^ j) offset addr) AND align_mask (2 ^ j)
    = word_of_nat offset AND align_mask (2 ^ j)"
proof -
  define k where "k = max j 5"
  have m: "align_mask (2 ^ j) = mask k" using align_mask_power [OF assms(1)] by (simp add: k_def)
  define a where "a = virt_to_phys vo addr"
  define pre where "pre = pre_size_of vo (2 ^ j) offset addr"
  have "word_of_nat pre = take_bit k (word_of_nat offset - a)"
    by (simp add: pre_def pre_size_of_def m take_bit_eq_mask a_def)
  moreover have "virt_to_phys vo (addr + pre) = a + word_of_nat pre"
    using assms(2-4) by (auto simp: same_mapping_def virt_to_phys_def a_def simp flip: pre_def)
  ultimately have "take_bit k (virt_to_phys vo (addr + pre)) = take_bit k (word_of_nat offset)"
    using take_bit_add_word [of k a "word_of_nat offset - a"] assms(1) by (simp add: k_def)
  then show ?thesis by (simp add: m take_bit_eq_mask pre_def)
qed

lemma alloc_search_aligned:
  assumes "alloc_search vo actual (2 ^ j) offset bs = Some (bs', ptr)" and "j < 64" and "same_mapping R"
    and "free_addrs bs \<subseteq> R" and "0 < actual"
  shows "virt_to_phys vo ptr AND align_mask (2 ^ j) = word_of_nat offset AND align_mask (2 ^ j)"
  using assms(1)
proof (cases rule: alloc_search_split)
  case (1 xs b ys)
  have "addrs b \<subseteq> R" using assms(4) by (simp add: 1(1))
  moreover have "mb_addr b \<in> addrs b" "mb_addr b + pre_size_of vo (2 ^ j) offset (mb_addr b) \<in> addrs b"
    using 1(2) assms(5) by (simp_all add: addrs_def block_end_def)
  ultimately have "mb_addr b \<in> R" "mb_addr b + pre_size_of vo (2 ^ j) offset (mb_addr b) \<in> R" by blast+
  then show ?thesis unfolding 1(3) by (rule pre_size_aligned [OF assms(2,3)])
qed

text \<open>An allocation, as a whole.\<close>

lemma alloc_memblock_cases:
  assumes "\<forall>d\<in>set ds. discarder_ok R owned d" and "heap_ok R L h" and "owned (hp_other h) \<subseteq> L"
    and "sz < 2 ^ 64"
  obtains (fails) h' L' where "alloc_memblock vo ds h sz align offset = Some (h', 0)"
      and "discarding R owned h L h' L'"
      and "actual_size sz = 0 \<or>
           alloc_search vo (actual_size sz) align offset (hp_free h') = None \<and> snd (discard_cache ds h') = 0"
  | (succeeds) h1 L' bs ptr where
      "alloc_memblock vo ds h sz align offset = Some (alloc_take h1 (actual_size sz) bs, ptr)"
      and "discarding R owned h L h1 L'"
      and "actual_size sz \<noteq> 0" and "alloc_search vo (actual_size sz) align offset (hp_free h1) = Some (bs, ptr)"
proof (cases "actual_size sz = 0")
  case True
  then have "alloc_memblock vo ds h sz align offset = Some (h, 0)" by (simp add: alloc_memblock_def)
  then show thesis using fails discarding_refl [of R L h owned] assms(2,3) True by blast
next
  case False
  obtain h1 L1 where e: "discarding R owned h L h1 L1"
    "alloc_loop vo ds h (actual_size sz) align offset =
      Some (case alloc_search vo (actual_size sz) align offset (hp_free h1) of
              None \<Rightarrow> (h1, 0) | Some (bs, ptr) \<Rightarrow> (alloc_take h1 (actual_size sz) bs, ptr))"
    "alloc_search vo (actual_size sz) align offset (hp_free h1) = None \<longrightarrow> snd (discard_cache ds h1) = 0"
    using alloc_loop_ends [OF assms(1-3), of vo "actual_size sz" align offset] by (elim exE conjE)
  show thesis
  proof (cases "alloc_search vo (actual_size sz) align offset (hp_free h1)")
    case None
    then show ?thesis using e False by (intro fails [of h1 L1]) (simp_all add: alloc_memblock_def)
  next
    case (Some r)
    then show ?thesis
      using e False by (cases r) (auto simp: alloc_memblock_def intro: succeeds)
  qed
qed


section \<open>Runs of the allocator\<close>

text \<open>
  The states that allocations and releases can lead to, with the live blocks.  Clients write to the
  memory they own in between.  An allocation for which caches are discarded is the releases of the
  cached blocks followed by an allocation without.  The offsets that clients ask for satisfy \<open>A\<close>.
\<close>

inductive heap_reachable :: "u64 \<Rightarrow> nat \<Rightarrow> (nat \<Rightarrow> bool) \<Rightarrow> 'c heap \<Rightarrow> (nat \<times> nat) set \<Rightarrow> bool"
  for vo start A where
  init: "heap_reachable vo start A (init_heap m other start) {}"
| alloc: "heap_reachable vo start A h L \<Longrightarrow> sz < 2 ^ 64 \<Longrightarrow> A offset \<Longrightarrow>
    alloc_memblock vo [] h sz align offset = Some (h', ptr) \<Longrightarrow>
    heap_reachable vo start A h' (if ptr = 0 then L else insert (ptr, sz) L)"
| release: "heap_reachable vo start A h L \<Longrightarrow> (ptr, sz) \<in> L \<Longrightarrow>
    heap_reachable vo start A (free_memblock h ptr sz) (L - {(ptr, sz)})"
| release_null: "heap_reachable vo start A h L \<Longrightarrow> heap_reachable vo start A (free_memblock h 0 sz) L"
| client: "heap_reachable vo start A h L \<Longrightarrow>
    heap_reachable vo start A (h\<lparr>hp_mem := m, hp_autosize := a, hp_other := c\<rparr>) L"

definition heap_range :: "nat \<Rightarrow> nat set" where
  "heap_range start = {start..<start + HEAP_SIZE}"

lemma actual_size_HEAP: "actual_size HEAP_SIZE = HEAP_SIZE"
  by (simp add: actual_size_eq HEAP_SIZE_def)

lemma init_heap_eq:
  assumes "0 < start"
  shows "hp_free (init_heap m other start) = [\<lparr>mb_addr = start, mb_size = HEAP_SIZE\<rparr>]"
    and "hp_usedmem (init_heap m other start) = 0" and "hp_freemem (init_heap m other start) = word_of_nat HEAP_SIZE"
proof -
  have "(word_of_nat HEAP_SIZE AND NOT (word_of_nat MIN_MEMBLOCK_SIZE - 1) :: u64) = word_of_nat HEAP_SIZE"
    by (simp add: HEAP_SIZE_def)
  then have "unat (word_of_nat HEAP_SIZE AND NOT (word_of_nat MIN_MEMBLOCK_SIZE - 1) :: u64) = HEAP_SIZE"
    by (simp add: HEAP_SIZE_def)
  then show "hp_free (init_heap m other start) = [\<lparr>mb_addr = start, mb_size = HEAP_SIZE\<rparr>]"
    "hp_usedmem (init_heap m other start) = 0" "hp_freemem (init_heap m other start) = word_of_nat HEAP_SIZE"
    using assms by (simp_all add: init_heap_def mpopulate_def free_memblock_def empty_heap_def actual_size_HEAP Let_def)
qed

lemma init_heap_ok:
  assumes "0 < start" and "start + HEAP_SIZE < 2 ^ 64"
  shows "heap_ok (heap_range start) {} (init_heap m other start)"
  using assms init_heap_eq [OF assms(1), of m other]
  by (auto simp: heap_ok_def check_blocks_iff live_ok_def block_ok_def block_end_def addrs_def heap_range_def
      used_size_def HEAP_SIZE_def)

lemma alloc_memblock_alone:
  assumes "alloc_memblock vo [] h sz align offset = Some (h', ptr)"
  shows "h' = h \<and> ptr = 0 \<or>
    (\<exists>bs. actual_size sz \<noteq> 0 \<and> alloc_search vo (actual_size sz) align offset (hp_free h) = Some (bs, ptr) \<and>
       h' = alloc_take h (actual_size sz) bs)"
  using assms
  by (subst (asm) alloc_memblock_def, subst (asm) alloc_loop.simps)
    (auto simp: Let_def split: if_splits option.splits)

lemma heap_reachable_heap_ok:
  assumes "heap_reachable vo start A h L" and "0 < start" and "start + HEAP_SIZE < 2 ^ 64"
  shows "heap_ok (heap_range start) L h"
  using assms(1)
proof induction
  case init
  show ?case by (rule init_heap_ok [OF assms(2,3)])
next
  case (alloc h L sz offset align h' ptr)
  from alloc_memblock_alone [OF alloc.hyps(4)] show ?case
  proof (elim disjE exE conjE)
    fix bs
    assume a: "actual_size sz \<noteq> 0" "alloc_search vo (actual_size sz) align offset (hp_free h) = Some (bs, ptr)"
      "h' = alloc_take h (actual_size sz) bs"
    show ?thesis using alloc_take_ok(1,3) [OF alloc.IH a(2) alloc.hyps(2) a(1)] by (simp add: a(3))
  qed (use alloc.IH in simp)
next
  case (release h L ptr sz)
  then show ?case by (intro free_memblock_ok)
next
  case (client h L m a c)
  then show ?case by (simp add: heap_ok_other)
qed (simp add: free_memblock_def)

text \<open>
  C2: However allocations and releases alternate, the integrity checks of the code hold, the live
  blocks lie in the heap and overlap neither each other nor the free list, the memory counted as used
  is that of the live blocks, and used and free memory add up to the heap.
\<close>

theorem heap_reachable_safe:
  assumes "heap_reachable vo start A h L" and "0 < start" and "start + HEAP_SIZE < 2 ^ 64"
  shows "check_blocks h \<and> free_addrs (hp_free h) \<subseteq> {start..<start + HEAP_SIZE} \<and>
    (\<forall>b\<in>L. extent b \<subseteq> {start..<start + HEAP_SIZE} - free_addrs (hp_free h) \<and>
       {fst b..<fst b + snd b} \<subseteq> extent b \<and> (\<forall>c\<in>L - {b}. extent b \<inter> extent c = {})) \<and>
    hp_usedmem h = word_of_nat (\<Sum>b\<in>L. actual_size (snd b)) \<and>
    hp_freemem h + hp_usedmem h = word_of_nat HEAP_SIZE"
proof -
  have ok: "heap_ok (heap_range start) L h" by (rule heap_reachable_heap_ok [OF assms])
  have dis: "extent b \<inter> extent c = {}" if "b \<in> L" "c \<in> L - {b}" for b c
    using heap_okD(2) [OF ok] that unfolding live_ok_def by blast
  have "extent b \<subseteq> {start..<start + HEAP_SIZE} - free_addrs (hp_free h)" if "b \<in> L" for b
    using heap_okD(6,7) [OF ok that] by (auto simp: heap_range_def)
  moreover have "{fst b..<fst b + snd b} \<subseteq> extent b" if "b \<in> L" for b
    by (rule live_block(3) [OF heap_okD(2) [OF ok] that])
  moreover have "check_blocks h \<and> free_addrs (hp_free h) \<subseteq> {start..<start + HEAP_SIZE} \<and>
      hp_usedmem h = word_of_nat (used_size L) \<and> hp_freemem h + hp_usedmem h = word_of_nat HEAP_SIZE"
    using ok unfolding heap_ok_def heap_range_def by (elim conjE) simp
  ultimately show ?thesis using dis unfolding used_size_def by blast
qed

section \<open>Nothing is leaked\<close>

lemma dvd_32_push_bit:
  assumes "32 dvd n"
  shows "\<exists>w. (word_of_nat n :: u64) = push_bit 5 w"
proof -
  obtain k where "n = 32 * k" using assms by blast
  then have "(word_of_nat n :: u64) = push_bit 5 (word_of_nat k)" by (simp add: push_bit_eq_mult mult.commute)
  then show ?thesis by blast
qed

lemma dvd_32_masked:
  assumes "x = push_bit 5 (w :: u64)"
  shows "32 dvd unat (x AND m)"
proof -
  have "take_bit 5 (x AND m) = 0" by (rule bit_word_eqI) (simp add: assms bit_simps)
  then have "take_bit 5 (unat (x AND m)) = 0" by (simp flip: unsigned_take_bit_eq)
  then have "unat (x AND m) mod 2 ^ 5 = 0" by (simp only: take_bit_eq_mod)
  then show ?thesis by (simp add: mod_0_imp_dvd)
qed

lemma pre_size_dvd:
  assumes "32 dvd addr" and "32 dvd offset" and "32 dvd unat vo"
  shows "32 dvd pre_size_of vo align offset addr"
proof -
  obtain a o' v where e: "(word_of_nat addr :: u64) = push_bit 5 a" "(word_of_nat offset :: u64) = push_bit 5 o'"
    "vo = push_bit 5 v"
    using assms [THEN dvd_32_push_bit] by auto
  have "\<exists>w. word_of_nat offset - virt_to_phys vo addr = push_bit 5 w"
  proof (cases "addr \<le> 0xffffffff")
    case True
    then have "word_of_nat offset - virt_to_phys vo addr = push_bit 5 (o' - a)"
      by (simp add: virt_to_phys_def e(1,2) push_bit_eq_mult left_diff_distrib)
    then show ?thesis by blast
  next
    case False
    then have "word_of_nat offset - virt_to_phys vo addr = push_bit 5 (o' - (a + v))"
      by (simp add: virt_to_phys_def e push_bit_eq_mult left_diff_distrib distrib_right)
    then show ?thesis by blast
  qed
  then show ?thesis unfolding pre_size_of_def using dvd_32_masked by blast
qed

lemma dvd_32_small: "32 dvd (n :: nat) \<Longrightarrow> n < 32 \<Longrightarrow> n = 0"
  by (auto dest: dvd_imp_le)

definition block_dvd :: "memory_block \<Rightarrow> bool" where
  "block_dvd b \<longleftrightarrow> 32 dvd mb_addr b \<and> 32 dvd mb_size b"

lemma leftover_exact:
  assumes "block_dvd b" and "32 dvd pre" and "32 dvd actual" and "pre + actual \<le> mb_size b"
  shows "free_addrs (leftover b pre actual) \<union> {mb_addr b + pre..<mb_addr b + pre + actual} = addrs b"
    and "c \<in> set (leftover b pre actual) \<Longrightarrow> block_dvd c"
proof -
  have pre: "pre < 32 \<Longrightarrow> pre = 0" using assms(2) by (rule dvd_32_small)
  have d: "32 dvd mb_size b - pre - actual" using assms by (simp add: block_dvd_def)
  have post: "\<not> 32 \<le> mb_size b - pre - actual \<Longrightarrow> mb_size b = pre + actual"
    using dvd_32_small [OF d] assms(4) by simp
  show "free_addrs (leftover b pre actual) \<union> {mb_addr b + pre..<mb_addr b + pre + actual} = addrs b"
    using pre post assms(4) by (auto simp: leftover_def addrs_def block_end_def)
  show "c \<in> set (leftover b pre actual) \<Longrightarrow> block_dvd c"
    using assms d by (auto simp: leftover_def block_dvd_def split: if_splits)
qed

lemma free_insert_dvd:
  assumes "block_dvd f" and "32 dvd actual" and "\<forall>b\<in>set bs. block_dvd b"
  shows "\<forall>b\<in>set (free_insert f actual bs). block_dvd b"
  using assms(1,3)
proof (induction bs arbitrary: f)
  case (Cons b bs)
  have grow: "block_dvd x \<Longrightarrow> 32 dvd n \<Longrightarrow> block_dvd (x\<lparr>mb_size := mb_size x + n\<rparr>)" for x n
    by (simp add: block_dvd_def)
  define f' where "f' = (if int (mb_addr f) - int (block_end b) = 0 then b\<lparr>mb_size := mb_size b + actual\<rparr> else f)"
  have f': "block_dvd f'" using Cons.prems grow assms(2) by (simp add: f'_def)
  have "32 dvd mb_size b" "block_dvd b" "\<forall>c\<in>set bs. block_dvd c" using Cons.prems(2) by (simp_all add: block_dvd_def)
  then have "\<forall>c\<in>set (f'\<lparr>mb_size := mb_size f' + mb_size b\<rparr> # bs). block_dvd c"
    "\<forall>c\<in>set (f' # b # bs). block_dvd c" "\<forall>c\<in>set (b # free_insert f' actual bs). block_dvd c"
    "\<forall>c\<in>set (free_insert f' actual bs). block_dvd c"
    using grow [OF f'] f' Cons.IH [OF f'] by simp_all
  then show ?case
    unfolding free_insert.simps Let_def f'_def [symmetric]
    by (simp del: set_simps ball_simps split: if_split)
qed simp

text \<open>A free list without gaps is a single block.\<close>

lemma free_list_whole:
  assumes "blocks_ok bs" and "free_addrs bs = {a..<b}" and "a < b"
  shows "bs = [\<lparr>mb_addr = a, mb_size = b - a\<rparr>]"
proof (cases bs)
  case Nil
  then show ?thesis using assms(2,3) by auto
next
  case (Cons c cs')
  have c: "block_ok c" "\<forall>d\<in>set cs'. before c d" "mb_addr c < block_end c"
    using assms(1) by (auto simp: Cons block_ok_def block_end_def)
  have "cs' = []"
  proof (rule ccontr)
    assume "cs' \<noteq> []"
    then obtain d ds where cs': "cs' = d # ds" by (cases cs') auto
    have "mb_addr d < block_end d" using assms(1) by (auto simp: Cons cs' block_ok_def block_end_def)
    then have "mb_addr d \<in> free_addrs bs" "mb_addr c \<in> free_addrs bs" using c(3) by (auto simp: Cons cs' addrs_def)
    moreover have "block_end c < mb_addr d" using c(2) by (simp add: cs' before_def)
    ultimately have "block_end c \<in> free_addrs bs" using c(3) by (simp add: assms(2))
    moreover have "block_end c \<notin> addrs c" by (simp add: addrs_def)
    ultimately have "block_end c \<in> free_addrs cs'" by (simp add: Cons)
    then show False using free_addrs_after [OF c(2)] by blast
  qed
  then have "{mb_addr c..<block_end c} = {a..<b}" using assms(2) by (simp add: Cons addrs_def)
  then have "mb_addr c = a \<and> block_end c = b" using c(3) assms(3) by (subst (asm) atLeastLessThan_eq_iff) auto
  then show ?thesis using \<open>cs' = []\<close> Cons by (cases c) (auto simp: block_end_def)
qed

text \<open>Free and live blocks make up the whole heap, in units of the minimum block size.\<close>

definition tight :: "nat \<Rightarrow> 'c heap \<Rightarrow> (nat \<times> nat) set \<Rightarrow> bool" where
  "tight start h L \<longleftrightarrow> (\<forall>b\<in>set (hp_free h). block_dvd b) \<and> (\<forall>b\<in>L. 32 dvd fst b) \<and>
     free_addrs (hp_free h) \<union> (\<Union>b\<in>L. extent b) = heap_range start"

lemma alloc_tight:
  assumes "alloc_search vo actual align offset bs = Some (bs', ptr)" and "\<forall>b\<in>set bs. block_dvd b"
    and "32 dvd actual" and "32 dvd offset" and "32 dvd unat vo"
  shows "\<forall>b\<in>set bs'. block_dvd b" and "32 dvd ptr" and "free_addrs bs' \<union> {ptr..<ptr + actual} = free_addrs bs"
proof -
  have "(\<forall>b\<in>set bs'. block_dvd b) \<and> 32 dvd ptr \<and> free_addrs bs' \<union> {ptr..<ptr + actual} = free_addrs bs"
    using assms(1)
  proof (cases rule: alloc_search_split)
    case (1 xs b ys)
    have b: "block_dvd b" "32 dvd mb_addr b" using assms(2) 1(1) by (auto simp: block_dvd_def)
    have pre: "32 dvd pre_size_of vo align offset (mb_addr b)" by (rule pre_size_dvd [OF b(2) assms(4,5)])
    note left = leftover_exact [OF b(1) pre assms(3) 1(2)]
    have "free_addrs bs' \<union> {ptr..<ptr + actual} = free_addrs bs"
      unfolding 1(1,4) free_addrs_simps left(1) [symmetric] 1(3) by blast
    moreover have "32 dvd ptr" using b(2) pre by (simp add: 1(3))
    moreover have "\<forall>b\<in>set bs'. block_dvd b" using assms(2) left(2) by (auto simp: 1(1,4))
    ultimately show ?thesis by blast
  qed
  then show "\<forall>b\<in>set bs'. block_dvd b" "32 dvd ptr" "free_addrs bs' \<union> {ptr..<ptr + actual} = free_addrs bs"
    by blast+
qed

lemma free_tight:
  assumes "heap_ok (heap_range start) L h" and "tight start h L" and "(ptr, sz) \<in> L"
  shows "tight start (free_memblock h ptr sz) (L - {(ptr, sz)})"
proof -
  define f where "f = \<lparr>mb_addr = ptr, mb_size = actual_size sz\<rparr>"
  have live: "live_ok L" and ext: "extent (ptr, sz) = addrs f"
    using heap_okD(2) [OF assms(1)] by (auto simp: extent_def addrs_def block_end_def f_def)
  have b: "sz < 2 ^ 64" "actual_size sz \<noteq> 0" "ptr + actual_size sz < 2 ^ 64"
    using live assms(3) by (auto simp: live_ok_def)
  note bounds = actual_size_bounds [OF b(1,2)]
  have f: "block_ok f" "block_dvd f"
    using b bounds assms(2,3) by (auto simp: f_def block_ok_def block_end_def block_dvd_def tight_def)
  have ins: "free_addrs (free_insert f (actual_size sz) (hp_free h)) = addrs f \<union> free_addrs (hp_free h)"
    using free_insert_ok [OF heap_okD(1) [OF assms(1)] f(1), of "actual_size sz"] heap_okD(7) [OF assms(1,3)]
    by (simp add: ext f_def)
  have "ptr \<in> extent (ptr, sz)" using bounds(2) by (simp add: extent_def)
  then have "ptr \<noteq> 0" using heap_okD(4) [OF assms(1)] heap_okD(6) [OF assms(1,3)] by (metis subsetD)
  then have eq: "hp_free (free_memblock h ptr sz) = free_insert f (actual_size sz) (hp_free h)"
    by (simp add: free_memblock_def Let_def f_def)
  have "free_addrs (hp_free h) \<union> (\<Union>b\<in>L. extent b)
      = addrs f \<union> free_addrs (hp_free h) \<union> (\<Union>b\<in>L - {(ptr, sz)}. extent b)"
    using assms(3) ext by blast
  then show ?thesis
    using assms(2) free_insert_dvd [OF f(2) bounds(3), of "hp_free h"] unfolding tight_def eq ins by simp
qed

lemma heap_reachable_tight:
  assumes "heap_reachable vo start (\<lambda>offset. 32 dvd offset) h L" and "0 < start"
    and "start + HEAP_SIZE < 2 ^ 64" and "32 dvd start" and "32 dvd unat vo"
  shows "tight start h L"
  using assms(1)
proof induction
  case (init m other)
  show ?case
    using assms(4) by (simp add: tight_def init_heap_eq [OF assms(2)] block_dvd_def addrs_def block_end_def
        heap_range_def HEAP_SIZE_def)
next
  case (alloc h L sz offset align h' ptr)
  from alloc_memblock_alone [OF alloc.hyps(4)] show ?case
  proof (elim disjE exE conjE)
    fix bs
    assume a: "actual_size sz \<noteq> 0" "alloc_search vo (actual_size sz) align offset (hp_free h) = Some (bs, ptr)"
      "h' = alloc_take h (actual_size sz) bs"
    have "32 dvd actual_size sz" using actual_size_bounds(3) [OF alloc.hyps(2) a(1)] .
    note t = alloc_tight [OF a(2) _ this alloc.hyps(3) assms(5)]
    have "ptr \<noteq> 0"
      using alloc_take_ok(3) [OF heap_reachable_heap_ok [OF alloc.hyps(1) assms(2,3)] a(2) alloc.hyps(2) a(1)] .
    moreover have "hp_free h' = bs" by (simp add: a(3) alloc_take_def Let_def)
    moreover have "free_addrs bs \<union> extent (ptr, sz) = free_addrs (hp_free h)"
      using t(3) alloc.IH by (simp add: tight_def extent_def)
    ultimately show ?thesis using alloc.IH t(1,2) unfolding tight_def by auto
  qed (use alloc.IH in simp)
next
  case (release h L ptr sz)
  then show ?case using free_tight heap_reachable_heap_ok [OF _ assms(2,3)] by blast
qed (simp_all add: tight_def free_memblock_def)

text \<open>
  C11: If the heap and the mapping are aligned to the minimum block size and so are the offsets that
  clients ask for, no memory is ever lost: once every block has been released, in whatever order, the
  free list is the whole heap again, as a single block.
\<close>

theorem heap_recovers:
  assumes "heap_reachable vo start (\<lambda>offset. 32 dvd offset) h {}" and "0 < start"
    and "start + HEAP_SIZE < 2 ^ 64" and "32 dvd start" and "32 dvd unat vo"
  shows "hp_free h = [\<lparr>mb_addr = start, mb_size = HEAP_SIZE\<rparr>] \<and>
    hp_freemem h = word_of_nat HEAP_SIZE \<and> hp_usedmem h = 0"
proof -
  have ok: "heap_ok (heap_range start) {} h" by (rule heap_reachable_heap_ok [OF assms(1-3)])
  have "free_addrs (hp_free h) = {start..<start + HEAP_SIZE}"
    using heap_reachable_tight [OF assms] by (simp add: tight_def heap_range_def)
  then have "hp_free h = [\<lparr>mb_addr = start, mb_size = HEAP_SIZE\<rparr>]"
    using free_list_whole [OF heap_okD(1) [OF ok]] by (simp add: HEAP_SIZE_def)
  moreover have "hp_usedmem h = 0" using ok by (simp add: heap_ok_def used_size_def)
  ultimately show ?thesis using ok by (simp add: heap_ok_def heap_range_def)
qed

section \<open>Reallocation\<close>

text \<open>
  Memory from \<open>malloc\<close> is the data of an autosized block; the size in front of it includes itself.
\<close>

definition malloced :: "'c heap \<Rightarrow> (nat \<times> nat) set \<Rightarrow> nat \<Rightarrow> nat \<Rightarrow> bool" where
  "malloced h L ptr sz \<longleftrightarrow> 8 \<le> ptr \<and> (ptr - 8, sz + 8) \<in> L \<and> hp_autosize h (ptr - 8) = sz + 8"

lemma malloced_extent:
  assumes "live_ok L" and "malloced h L ptr sz"
  shows "{ptr..<ptr + sz} \<subseteq> extent (ptr - 8, sz + 8)" and "ptr \<noteq> NOWHERE" and "ptr \<noteq> 0"
proof -
  have b: "(ptr - 8, sz + 8) \<in> L" "8 \<le> ptr" using assms(2) by (auto simp: malloced_def)
  show "{ptr..<ptr + sz} \<subseteq> extent (ptr - 8, sz + 8)"
    using live_block(3) [OF assms(1) b(1)] b(2) by (auto simp: subset_iff)
  have "32 \<le> actual_size (sz + 8)" using live_block(2) [OF assms(1) b(1)] by simp
  moreover have "ptr - 8 + actual_size (sz + 8) < 2 ^ 64" using assms(1) b(1) by (auto simp: live_ok_def)
  ultimately show "ptr \<noteq> NOWHERE" "ptr \<noteq> 0" using b(2) by (simp_all add: NOWHERE_def)
qed

lemma free_memblock_frame [simp]:
  "hp_other (free_memblock h ptr sz) = hp_other h" "hp_mem (free_memblock h ptr sz) = hp_mem h"
  "hp_autosize (free_memblock h ptr sz) = hp_autosize h"
  by (simp_all add: free_memblock_def Let_def)

text \<open>The second half of the function: the old contents are copied, and the old block is freed.\<close>

lemma realloc_old:
  assumes "heap_ok R L h" and "malloced h L old_ptr old_size" and "malloced h L new_ptr new_size"
    and "old_ptr \<noteq> new_ptr"
    and "h' = free_memblock (h\<lparr>hp_mem := generic_memcpy (hp_mem h) new_ptr old_ptr
                (if old_size < new_size then old_size else new_size)\<rparr>) (old_ptr - 8) (old_size + 8)"
  shows "heap_ok R (L - {(old_ptr - 8, old_size + 8)}) h'"
    and "malloced h' (L - {(old_ptr - 8, old_size + 8)}) new_ptr new_size"
    and "i < min old_size new_size \<Longrightarrow> hp_mem h' (new_ptr + i) = hp_mem h (old_ptr + i)"
    and "a \<notin> {new_ptr..<new_ptr + new_size} \<Longrightarrow> hp_mem h' a = hp_mem h a"
proof -
  have live: "live_ok L" by (rule heap_okD(2) [OF assms(1)])
  have old: "(old_ptr - 8, old_size + 8) \<in> L" "8 \<le> old_ptr" and new: "(new_ptr - 8, new_size + 8) \<in> L" "8 \<le> new_ptr"
    using assms(2,3) by (auto simp: malloced_def)
  have ne: "(old_ptr - 8, old_size + 8) \<noteq> (new_ptr - 8, new_size + 8)" using assms(4) old(2) new(2) by auto
  then have "extent (old_ptr - 8, old_size + 8) \<inter> extent (new_ptr - 8, new_size + 8) = {}"
    using live old(1) new(1) unfolding live_ok_def by blast
  then have dis: "{old_ptr..<old_ptr + old_size} \<inter> {new_ptr..<new_ptr + new_size} = {}"
    using malloced_extent(1) [OF live assms(2)] malloced_extent(1) [OF live assms(3)] by blast
  let ?n = "if old_size < new_size then old_size else new_size"
  have "new_ptr \<le> old_ptr \<or> old_ptr + ?n \<le> new_ptr"
  proof (rule ccontr)
    assume "\<not> ?thesis"
    then have "new_ptr \<in> {old_ptr..<old_ptr + old_size} \<inter> {new_ptr..<new_ptr + new_size}"
      by (auto split: if_splits)
    then show False using dis by simp
  qed
  then have mem: "hp_mem h' a = (if new_ptr \<le> a \<and> a < new_ptr + ?n then hp_mem h (old_ptr + (a - new_ptr)) else hp_mem h a)" for a
    by (simp add: assms(5) generic_memcpy_apply)
  show "heap_ok R (L - {(old_ptr - 8, old_size + 8)}) h'"
    unfolding assms(5) using assms(1) old(1) by (intro free_memblock_ok) (simp_all add: heap_ok_other)
  show "malloced h' (L - {(old_ptr - 8, old_size + 8)}) new_ptr new_size"
    using assms(3) ne by (auto simp: malloced_def assms(5))
  show "i < min old_size new_size \<Longrightarrow> hp_mem h' (new_ptr + i) = hp_mem h (old_ptr + i)"
    by (simp add: mem)
  show "a \<notin> {new_ptr..<new_ptr + new_size} \<Longrightarrow> hp_mem h' a = hp_mem h a"
    by (auto simp: mem)
qed

text \<open>The first half: a new block, if there is one.\<close>

definition alloc_autosized :: "u64 \<Rightarrow> 'c discarder list \<Rightarrow> 'c heap \<Rightarrow> nat \<Rightarrow> ('c heap \<times> nat) option" where
  "alloc_autosized vo ds h new_size =
     (let new_total_size = (new_size + AUTOSIZED_DATA) mod 2 ^ 64
      in if new_total_size < new_size then Some (h, 0)
         else
           Option.bind (alloc_memblock vo ds h new_total_size 1 0)
             (\<lambda>(h, new_block).
                if new_block = 0 then Some (h, 0)
                else Some (h\<lparr>hp_autosize := (hp_autosize h)(new_block := new_total_size)\<rparr>,
                           new_block + AUTOSIZED_DATA)))"

lemma realloc_autosized:
  "realloc vo ds h old_ptr new_size =
     Option.bind (if new_size \<noteq> 0 then alloc_autosized vo ds h new_size else Some (h, NOWHERE))
       (\<lambda>(h, new_ptr).
          if new_ptr = 0 then Some (h, 0)
          else if old_ptr \<noteq> 0 \<and> old_ptr \<noteq> NOWHERE then
            let old_block = old_ptr - AUTOSIZED_DATA;
                old_total_size = hp_autosize h old_block;
                old_size = old_total_size - AUTOSIZED_DATA;
                h = h\<lparr>hp_mem := generic_memcpy (hp_mem h) new_ptr old_ptr
                       (if old_size < new_size then old_size else new_size)\<rparr>
            in Some (free_memblock h old_block old_total_size, new_ptr)
          else Some (h, new_ptr))"
  unfolding realloc_def alloc_autosized_def by (rule refl)

lemma alloc_take_frame [simp]:
  "hp_other (alloc_take h actual bs) = hp_other h" "hp_mem (alloc_take h actual bs) = hp_mem h"
  "hp_autosize (alloc_take h actual bs) = hp_autosize h" "hp_free (alloc_take h actual bs) = bs"
  by (simp_all add: alloc_take_def Let_def)

lemma alloc_autosized_cases:
  assumes "\<forall>d\<in>set ds. discarder_ok R owned d" and "heap_ok R L h" and "owned (hp_other h) \<subseteq> L"
    and "new_size < 2 ^ 64"
  obtains (fails) h' L' where "alloc_autosized vo ds h new_size = Some (h', 0)" and "discarding R owned h L h' L'"
  | (succeeds) h1 h' L' new_ptr where "alloc_autosized vo ds h new_size = Some (h', new_ptr)"
      and "discarding R owned h L h1 L'" and "new_ptr \<noteq> 0"
      and "heap_ok R (insert (new_ptr - 8, new_size + 8) L') h'" and "(new_ptr - 8, new_size + 8) \<notin> L'"
      and "malloced h' (insert (new_ptr - 8, new_size + 8) L') new_ptr new_size"
      and "hp_mem h' = hp_mem h1" and "hp_other h' = hp_other h1"
      and "\<forall>a. a \<noteq> new_ptr - 8 \<longrightarrow> hp_autosize h' a = hp_autosize h1 a"
proof (cases "(new_size + AUTOSIZED_DATA) mod 2 ^ 64 < new_size")
  case True
  then have "alloc_autosized vo ds h new_size = Some (h, 0)" by (simp add: alloc_autosized_def)
  then show thesis using fails discarding_refl [of R L h owned] assms(2,3) by blast
next
  case False
  have total: "(new_size + AUTOSIZED_DATA) mod 2 ^ 64 = new_size + 8" "new_size + 8 < 2 ^ 64"
  proof -
    have "new_size + 8 < 2 ^ 64"
    proof (rule ccontr)
      assume big: "\<not> ?thesis"
      then have "(new_size + 8) mod 2 ^ 64 = new_size + 8 - 2 ^ 64" using assms(4) by (simp add: mod_if)
      then show False using False big assms(4) by (simp add: AUTOSIZED_DATA_def)
    qed
    then show "(new_size + AUTOSIZED_DATA) mod 2 ^ 64 = new_size + 8" "new_size + 8 < 2 ^ 64"
      by (simp_all add: AUTOSIZED_DATA_def)
  qed
  have eq: "alloc_autosized vo ds h new_size =
      Option.bind (alloc_memblock vo ds h (new_size + 8) 1 0)
        (\<lambda>(h, new_block). if new_block = 0 then Some (h, 0)
           else Some (h\<lparr>hp_autosize := (hp_autosize h)(new_block := new_size + 8)\<rparr>, new_block + 8))"
    unfolding alloc_autosized_def Let_def total(1) unfolding AUTOSIZED_DATA_def by simp
  from assms(1-3) total(2) show thesis
  proof (cases rule: alloc_memblock_cases [where vo = vo and align = 1 and offset = 0])
    case (fails h' L')
    then show ?thesis by (intro that(1) [of h' L']) (simp_all add: eq)
  next
    case (succeeds h1 L' bs ptr)
    have ok: "heap_ok R L' h1" using succeeds(2) by (simp add: discarding_def)
    note take = alloc_take_ok [OF ok succeeds(4) total(2) succeeds(3)]
    let ?h = "alloc_take h1 (actual_size (new_size + 8)) bs"
    show ?thesis
    proof (rule that(2) [of "?h\<lparr>hp_autosize := (hp_autosize ?h)(ptr := new_size + 8)\<rparr>" "ptr + 8" h1 L'])
      show "alloc_autosized vo ds h new_size =
          Some (?h\<lparr>hp_autosize := (hp_autosize ?h)(ptr := new_size + 8)\<rparr>, ptr + 8)"
        unfolding eq succeeds(1) using take(3) by simp
    qed (use take succeeds(2) in \<open>simp_all add: heap_ok_other malloced_def\<close>)
  qed
qed


section \<open>The contract with the clients\<close>

text \<open>
  What other components rely on: of the blocks they own, none is touched or overlapped by an
  allocation, and a block is theirs until they release it.  The caches are hidden.
\<close>

locale block_allocator =
  fixes inv :: "(nat \<times> nat) set \<Rightarrow> 'h \<Rightarrow> bool"
    and content :: "'h \<Rightarrow> nat \<Rightarrow> 'v"
    and alloc :: "'h \<Rightarrow> nat \<Rightarrow> nat \<Rightarrow> nat \<Rightarrow> ('h \<times> nat) option"
    and release :: "'h \<Rightarrow> nat \<Rightarrow> nat \<Rightarrow> 'h"
    and aligned :: "nat \<Rightarrow> nat \<Rightarrow> nat \<Rightarrow> bool"
  assumes alloc_law: "inv L h \<Longrightarrow> sz < 2 ^ 64 \<Longrightarrow> j < 64 \<Longrightarrow>
      \<exists>h' ptr. alloc h sz (2 ^ j) offset = Some (h', ptr) \<and>
        (\<forall>b\<in>L. \<forall>a\<in>extent b. content h' a = content h a) \<and>
        (if ptr = 0 then inv L h'
         else inv (insert (ptr, sz) L) h' \<and> (ptr, sz) \<notin> L \<and> aligned ptr (2 ^ j) offset)"
    and release_law: "inv L h \<Longrightarrow> (ptr, sz) \<in> L \<Longrightarrow> inv (L - {(ptr, sz)}) (release h ptr sz)"
    and release_content: "content (release h ptr sz) = content h"
    and block_law: "inv L h \<Longrightarrow> (ptr, sz) \<in> L \<Longrightarrow>
      ptr \<noteq> 0 \<and> ptr + sz < 2 ^ 64 \<and> {ptr..<ptr + sz} \<subseteq> extent (ptr, sz)"
    and disjoint_law: "inv L h \<Longrightarrow> b \<in> L \<Longrightarrow> c \<in> L \<Longrightarrow> b \<noteq> c \<Longrightarrow> extent b \<inter> extent c = {}"
begin

lemma alloc_release:
  assumes "inv L h" and "sz < 2 ^ 64" and "j < 64" and "alloc h sz (2 ^ j) offset = Some (h', ptr)" and "ptr \<noteq> 0"
  shows "inv L (release h' ptr sz)"
proof -
  have "inv (insert (ptr, sz) L) h'" "(ptr, sz) \<notin> L" using alloc_law [OF assms(1-3), of offset] assms(4,5) by auto
  then show ?thesis using release_law [of "insert (ptr, sz) L" h' ptr sz] by simp
qed

lemma blocks_apart:
  assumes "inv L h" and "(p, m) \<in> L" and "(q, n) \<in> L" and "(p, m) \<noteq> (q, n)" and "0 < m" and "0 < n"
  shows "p + m \<le> q \<or> q + n \<le> p"
proof (rule ccontr)
  assume "\<not> ?thesis"
  then have "max p q \<in> {p..<p + m} \<inter> {q..<q + n}" using assms(5,6) by auto
  then show False
    using disjoint_law [OF assms(1-4)] block_law [OF assms(1,2)] block_law [OF assms(1,3)] by blast
qed

end

text \<open>Memory whose size the allocator keeps.\<close>

locale memory_allocator = block_allocator +
  fixes sized :: "'h \<Rightarrow> nat \<Rightarrow> nat \<Rightarrow> bool"
    and malloc :: "'h \<Rightarrow> nat \<Rightarrow> ('h \<times> nat) option"
    and dealloc :: "'h \<Rightarrow> nat \<Rightarrow> 'h option"
  assumes malloc_law: "inv L h \<Longrightarrow> 0 < sz \<Longrightarrow> sz < 2 ^ 64 \<Longrightarrow>
      \<exists>h' ptr. malloc h sz = Some (h', ptr) \<and>
        (\<forall>b\<in>L. \<forall>a\<in>extent b. content h' a = content h a) \<and>
        (if ptr = 0 then inv L h'
         else inv (insert (ptr - 8, sz + 8) L) h' \<and> (ptr - 8, sz + 8) \<notin> L \<and> 8 \<le> ptr \<and> sized h' ptr sz)"
    and dealloc_law: "inv L h \<Longrightarrow> (ptr - 8, sz + 8) \<in> L \<Longrightarrow> 8 \<le> ptr \<Longrightarrow> sized h ptr sz \<Longrightarrow>
      \<exists>h'. dealloc h ptr = Some h' \<and> inv (L - {(ptr - 8, sz + 8)}) h' \<and> content h' = content h"
    and sized_content: "content h' (ptr - 8) = content h (ptr - 8) \<Longrightarrow> sized h' ptr sz = sized h ptr sz"
begin

text \<open>A buffer and a descriptor: both or neither.\<close>

lemma alloc_pair:
  assumes "inv L h" and "0 < m" and "m < 2 ^ 64" and "j < 64" and "0 < n" and "n < 2 ^ 64"
  shows "\<exists>h1 p. alloc h m (2 ^ j) offset = Some (h1, p) \<and>
    (if p = 0 then inv L h1 \<and> (\<forall>b\<in>L. \<forall>a\<in>extent b. content h1 a = content h a)
     else \<exists>h2 q. malloc h1 n = Some (h2, q) \<and>
       (\<forall>b\<in>L. \<forall>a\<in>extent b. content h2 a = content h a) \<and>
       (if q = 0 then inv L (release h2 p m)
        else inv (insert (q - 8, n + 8) (insert (p, m) L)) h2 \<and> 8 \<le> q \<and> sized h2 q n \<and>
          (p, m) \<notin> L \<and> (q - 8, n + 8) \<notin> L \<and> (p, m) \<noteq> (q - 8, n + 8) \<and> aligned p (2 ^ j) offset))"
proof -
  obtain h1 p where a: "alloc h m (2 ^ j) offset = Some (h1, p)"
    "\<forall>b\<in>L. \<forall>a\<in>extent b. content h1 a = content h a"
    "if p = 0 then inv L h1 else inv (insert (p, m) L) h1 \<and> (p, m) \<notin> L \<and> aligned p (2 ^ j) offset"
    using alloc_law [OF assms(1,3,4)] by blast
  show ?thesis
  proof (cases "p = 0")
    case False
    then have inv1: "inv (insert (p, m) L) h1" "(p, m) \<notin> L" "aligned p (2 ^ j) offset" using a(3) by auto
    obtain h2 q where b: "malloc h1 n = Some (h2, q)"
      "\<forall>b\<in>insert (p, m) L. \<forall>a\<in>extent b. content h2 a = content h1 a"
      "if q = 0 then inv (insert (p, m) L) h2
       else inv (insert (q - 8, n + 8) (insert (p, m) L)) h2 \<and> (q - 8, n + 8) \<notin> insert (p, m) L \<and>
         8 \<le> q \<and> sized h2 q n"
      using malloc_law [OF inv1(1) assms(5,6)] by blast
    have "inv L (release h2 p m)" if "q = 0"
      using release_law [of "insert (p, m) L" h2 p m] b(3) that inv1(2) by simp
    then have "if q = 0 then inv L (release h2 p m)
        else inv (insert (q - 8, n + 8) (insert (p, m) L)) h2 \<and> 8 \<le> q \<and> sized h2 q n \<and>
          (p, m) \<notin> L \<and> (q - 8, n + 8) \<notin> L \<and> (p, m) \<noteq> (q - 8, n + 8) \<and> aligned p (2 ^ j) offset"
      using b(3) inv1(2,3) by auto
    moreover have "\<forall>b\<in>L. \<forall>a\<in>extent b. content h2 a = content h a" using a(2) b(2) by simp
    ultimately show ?thesis using a(1) b(1) False by auto
  qed (use a in auto)
qed

end

text \<open>The allocator keeps this contract; the other live blocks are those of the caches.\<close>

definition phys_aligned :: "u64 \<Rightarrow> nat \<Rightarrow> nat \<Rightarrow> nat \<Rightarrow> bool" where
  "phys_aligned vo ptr align offset \<longleftrightarrow>
     virt_to_phys vo ptr AND align_mask align = word_of_nat offset AND align_mask align"

definition heap_inv ::
  "nat set \<Rightarrow> ('c \<Rightarrow> (nat \<times> nat) set) \<Rightarrow> 'c discarder list \<Rightarrow> (nat \<times> nat) set \<Rightarrow> 'c heap \<Rightarrow> bool" where
  "heap_inv R owned ds L h \<longleftrightarrow> (\<forall>d\<in>set ds. discarder_ok R owned d) \<and> same_mapping R \<and>
     (\<exists>M. heap_ok R M h \<and> owned (hp_other h) \<subseteq> M \<and> L \<subseteq> M - owned (hp_other h))"

definition heap_content :: "'c heap \<Rightarrow> nat \<Rightarrow> u8 \<times> nat" where
  "heap_content h a = (hp_mem h a, hp_autosize h a)"

lemma heap_inv_discarding:
  assumes "\<forall>d\<in>set ds. discarder_ok R owned d" and "same_mapping R" and "discarding R owned h M h' M'"
    and "L \<subseteq> M - owned (hp_other h)"
  shows "heap_inv R owned ds L h'" and "b \<in> L \<Longrightarrow> \<forall>a\<in>extent b. heap_content h' a = heap_content h a"
proof -
  have "L \<subseteq> M' - owned (hp_other h')" using assms(3,4) by (auto simp: discarding_def)
  then show "heap_inv R owned ds L h'" using assms(1-3) unfolding heap_inv_def discarding_def by blast
  show "b \<in> L \<Longrightarrow> \<forall>a\<in>extent b. heap_content h' a = heap_content h a"
    using discarding_keeps(2,3) [OF assms(3), of b] assms(4) by (auto simp: heap_content_def)
qed

lemma heap_inv_alloc:
  assumes "heap_inv R owned ds L h" and "sz < 2 ^ 64" and "j < 64"
  shows "\<exists>h' ptr. alloc_memblock vo ds h sz (2 ^ j) offset = Some (h', ptr) \<and>
    (\<forall>b\<in>L. \<forall>a\<in>extent b. heap_content h' a = heap_content h a) \<and>
    (if ptr = 0 then heap_inv R owned ds L h'
     else heap_inv R owned ds (insert (ptr, sz) L) h' \<and> (ptr, sz) \<notin> L \<and> phys_aligned vo ptr (2 ^ j) offset)"
proof -
  obtain M where ds: "\<forall>d\<in>set ds. discarder_ok R owned d" "same_mapping R" and M: "heap_ok R M h" "owned (hp_other h) \<subseteq> M"
    and L: "L \<subseteq> M - owned (hp_other h)"
    using assms(1) by (auto simp: heap_inv_def)
  from ds(1) M assms(2) show ?thesis
  proof (cases rule: alloc_memblock_cases [where vo = vo and align = "2 ^ j" and offset = offset])
    case (fails h' M')
    then show ?thesis using heap_inv_discarding [OF ds fails(2) L] by auto
  next
    case (succeeds h1 M' bs ptr)
    have ok: "heap_ok R M' h1" "owned (hp_other h1) \<subseteq> M'" "L \<subseteq> M' - owned (hp_other h1)"
      using succeeds(2) L by (auto simp: discarding_def)
    note take = alloc_take_ok [OF ok(1) succeeds(4) assms(2) succeeds(3)]
    have "heap_inv R owned ds (insert (ptr, sz) L) (alloc_take h1 (actual_size sz) bs)"
      unfolding heap_inv_def using ds take(1,2) ok(2,3) by (intro conjI exI [of _ "insert (ptr, sz) M'"]) auto
    moreover have "(ptr, sz) \<notin> L" using take(2) ok(3) by blast
    moreover have "phys_aligned vo ptr (2 ^ j) offset"
      unfolding phys_aligned_def
      using alloc_search_aligned [OF succeeds(4) assms(3) ds(2) heap_okD(5) [OF ok(1)]] succeeds(3) by simp
    ultimately show ?thesis
      using succeeds(1) take(3) heap_inv_discarding(2) [OF ds succeeds(2) L] by (simp add: heap_content_def)
  qed
qed

lemma heap_inv_release:
  assumes "heap_inv R owned ds L h" and "(ptr, sz) \<in> L"
  shows "heap_inv R owned ds (L - {(ptr, sz)}) (free_memblock h ptr sz)"
proof -
  obtain M where ds: "\<forall>d\<in>set ds. discarder_ok R owned d" "same_mapping R" and M: "heap_ok R M h" "owned (hp_other h) \<subseteq> M"
    and L: "L \<subseteq> M - owned (hp_other h)"
    using assms(1) by (auto simp: heap_inv_def)
  have "heap_ok R (M - {(ptr, sz)}) (free_memblock h ptr sz)"
    using free_memblock_ok [OF M(1)] assms(2) L by blast
  moreover have "owned (hp_other h) \<subseteq> M - {(ptr, sz)}" using M(2) L assms(2) by blast
  ultimately show ?thesis unfolding heap_inv_def using ds L by (intro conjI exI [of _ "M - {(ptr, sz)}"]) auto
qed

lemma heap_inv_blocks:
  assumes "heap_inv R owned ds L h"
  shows "(ptr, sz) \<in> L \<Longrightarrow>
      ptr \<noteq> 0 \<and> ptr + sz < 2 ^ 64 \<and> {ptr..<ptr + sz} \<subseteq> extent (ptr, sz)"
    and "b \<in> L \<Longrightarrow> c \<in> L \<Longrightarrow> b \<noteq> c \<Longrightarrow> extent b \<inter> extent c = {}"
proof -
  obtain M where M: "heap_ok R M h" "L \<subseteq> M" using assms by (auto simp: heap_inv_def)
  note live = heap_okD(2) [OF M(1)]
  show "b \<in> L \<Longrightarrow> c \<in> L \<Longrightarrow> b \<noteq> c \<Longrightarrow> extent b \<inter> extent c = {}"
    using live M(2) unfolding live_ok_def by blast
  show "ptr \<noteq> 0 \<and> ptr + sz < 2 ^ 64 \<and> {ptr..<ptr + sz} \<subseteq> extent (ptr, sz)" if "(ptr, sz) \<in> L"
  proof -
    have m: "(ptr, sz) \<in> M" using that M(2) by blast
    have "ptr \<in> R" using live_block(1) [OF live m] heap_okD(6) [OF M(1) m] by auto
    then have "ptr \<noteq> 0" using heap_okD(4) [OF M(1)] by metis
    moreover have "ptr + sz < 2 ^ 64"
      using live m actual_size_bounds(1) [of sz] by (fastforce simp: live_ok_def)
    ultimately show ?thesis using live_block(3) [OF live m] by simp
  qed
qed

lemma heap_content_release [simp]: "heap_content (free_memblock h ptr sz) = heap_content h"
  by (simp add: heap_content_def fun_eq_iff)

interpretation heap: block_allocator "heap_inv R owned ds" heap_content "alloc_memblock vo ds" free_memblock
    "phys_aligned vo"
  for R :: "nat set" and owned :: "'c \<Rightarrow> (nat \<times> nat) set" and ds vo
  by unfold_locales
    (rule heap_inv_alloc heap_inv_release heap_content_release heap_inv_blocks; assumption)+

definition block_sized :: "'c heap \<Rightarrow> nat \<Rightarrow> nat \<Rightarrow> bool" where
  "block_sized h ptr sz \<longleftrightarrow> hp_autosize h (ptr - 8) = sz + 8"

lemma malloc_autosized: "0 < sz \<Longrightarrow> malloc vo ds h sz = alloc_autosized vo ds h sz"
  unfolding malloc_def realloc_autosized by (cases "alloc_autosized vo ds h sz") auto

lemma heap_inv_malloc:
  assumes "heap_inv R owned ds L h" and "0 < sz" and "sz < 2 ^ 64"
  shows "\<exists>h' ptr. malloc vo ds h sz = Some (h', ptr) \<and>
    (\<forall>b\<in>L. \<forall>a\<in>extent b. heap_content h' a = heap_content h a) \<and>
    (if ptr = 0 then heap_inv R owned ds L h'
     else heap_inv R owned ds (insert (ptr - 8, sz + 8) L) h' \<and> (ptr - 8, sz + 8) \<notin> L \<and> 8 \<le> ptr \<and>
       block_sized h' ptr sz)"
proof -
  obtain M where ds: "\<forall>d\<in>set ds. discarder_ok R owned d" "same_mapping R" and M: "heap_ok R M h" "owned (hp_other h) \<subseteq> M"
    and L: "L \<subseteq> M - owned (hp_other h)"
    using assms(1) by (auto simp: heap_inv_def)
  note eq = malloc_autosized [OF assms(2)]
  from ds(1) M assms(3) show ?thesis
  proof (cases rule: alloc_autosized_cases [where vo = vo])
    case (fails h' M')
    then show ?thesis using heap_inv_discarding [OF ds fails(2) L] by (auto simp: eq)
  next
    case (succeeds h1 h' M' ptr)
    have ok: "owned (hp_other h1) \<subseteq> M'" "L \<subseteq> M' - owned (hp_other h1)"
      using succeeds(2) L by (auto simp: discarding_def)
    have "heap_inv R owned ds (insert (ptr - 8, sz + 8) L) h'"
      unfolding heap_inv_def using ds succeeds(4,5,8) ok
      by (intro conjI exI [of _ "insert (ptr - 8, sz + 8) M'"]) auto
    moreover have "(ptr - 8, sz + 8) \<notin> L" using succeeds(5) ok(2) by blast
    moreover have "8 \<le> ptr" "block_sized h' ptr sz" using succeeds(6) by (simp_all add: malloced_def block_sized_def)
    moreover have "heap_content h' a = heap_content h a" if "b \<in> L" "a \<in> extent b" for a b
    proof -
      let ?new = "(ptr - 8, sz + 8)"
      have live: "live_ok (insert ?new M')" by (rule heap_okD(2) [OF succeeds(4)])
      have "b \<in> M'" "b \<noteq> ?new" using that(1) ok(2) succeeds(5) by auto
      then have "extent b \<inter> extent ?new = {}" using live unfolding live_ok_def by blast
      then have "a \<noteq> ptr - 8" using that(2) live_block(1) [OF live, of ?new] by auto
      then show ?thesis
        using that succeeds(7,9) heap_inv_discarding(2) [OF ds succeeds(2) L] by (simp add: heap_content_def)
    qed
    ultimately show ?thesis using succeeds(1,3) by (simp add: eq)
  qed
qed

lemma heap_inv_dealloc:
  assumes "heap_inv R owned ds L h" and "(ptr - 8, sz + 8) \<in> L" and "8 \<le> ptr" and "block_sized h ptr sz"
  shows "\<exists>h'. free vo ds h ptr = Some h' \<and> heap_inv R owned ds (L - {(ptr - 8, sz + 8)}) h' \<and> heap_content h' = heap_content h"
proof -
  obtain M where M: "heap_ok R M h" "L \<subseteq> M" using assms(1) by (auto simp: heap_inv_def)
  have "malloced h M ptr sz" using assms(2-4) M(2) by (auto simp: malloced_def block_sized_def)
  from malloced_extent(2,3) [OF heap_okD(2) [OF M(1)] this]
  have "free vo ds h ptr = Some (free_memblock h (ptr - 8) (sz + 8))"
    using assms(4) by (simp add: free_def realloc_autosized NOWHERE_def AUTOSIZED_DATA_def block_sized_def Let_def)
  then show ?thesis using heap_inv_release [OF assms(1,2)] by (simp add: heap_content_def fun_eq_iff)
qed

interpretation heap: memory_allocator "heap_inv R owned ds" heap_content "alloc_memblock vo ds" free_memblock
    "phys_aligned vo" block_sized "malloc vo ds" "free vo ds"
  for R :: "nat set" and owned :: "'c \<Rightarrow> (nat \<times> nat) set" and ds vo
proof
  show "heap_content h' (ptr - 8) = heap_content h (ptr - 8) \<Longrightarrow> block_sized h' ptr sz = block_sized h ptr sz"
    for h h' :: "'c heap" and ptr sz
    by (simp add: block_sized_def heap_content_def)
qed (rule heap_inv_malloc heap_inv_dealloc; assumption)+

section \<open>Examples\<close>

text \<open>A cache that holds a list of blocks and drops the first when asked to.\<close>

definition drop_cached :: "(nat \<times> nat) list discarder" where
  "drop_cached h =
     (case hp_other h of
        [] \<Rightarrow> (h, 0)
      | (ptr, sz) # c \<Rightarrow> (free_memblock (h\<lparr>hp_other := removeAll (ptr, sz) c\<rparr>) ptr sz, 1))"

lemma drop_cached_ok: "discarder_ok R set drop_cached"
  unfolding discarder_ok_def
proof (intro allI impI)
  fix h :: "(nat \<times> nat) list heap" and L
  assume "heap_ok R L h \<and> set (hp_other h) \<subseteq> L"
  then have ok: "heap_ok R L h" and sub: "set (hp_other h) \<subseteq> L" by auto
  show "if snd (drop_cached h) = 0 then fst (drop_cached h) = h
      else \<exists>L'. discarding R set h L (fst (drop_cached h)) L' \<and> L' \<noteq> L"
  proof (cases "hp_other h")
    case (Cons b c)
    obtain ptr sz where b: "b = (ptr, sz)" by fastforce
    have "(ptr, sz) \<in> L" using sub by (simp add: Cons b)
    moreover from this have "heap_ok R (L - {(ptr, sz)}) (free_memblock (h\<lparr>hp_other := removeAll (ptr, sz) c\<rparr>) ptr sz)"
      using ok by (intro free_memblock_ok) (simp_all add: heap_ok_other)
    ultimately show ?thesis
      using sub by (auto simp: drop_cached_def discarding_def Cons b intro!: exI [of _ "L - {(ptr, sz)}"])
  qed (simp add: drop_cached_def)
qed

definition sample_heap :: "(nat \<times> nat) list heap" where
  "sample_heap = alloc_take (init_heap (\<lambda>_. 0) [(4096, 100)] 4096) 128
     [\<lparr>mb_addr = 4224, mb_size = HEAP_SIZE - 128\<rparr>]"

lemma sample_actual: "actual_size 100 = 128"
  by (simp add: actual_size_eq)

lemma sample_alloc:
  "alloc_memblock 0 [] (init_heap (\<lambda>_. 0) [(4096, 100)] 4096) 100 1 0 = Some (sample_heap, 4096)"
proof -
  have "pre_size_of 0 1 0 4096 = 0" by (simp add: pre_size_of_def virt_to_phys_def align_mask_def)
  then have "alloc_search 0 128 1 0 [\<lparr>mb_addr = 4096, mb_size = HEAP_SIZE\<rparr>] =
      Some ([\<lparr>mb_addr = 4224, mb_size = HEAP_SIZE - 128\<rparr>], 4096)"
    by (simp add: HEAP_SIZE_def)
  then show ?thesis
    unfolding alloc_memblock_def sample_actual Let_def
    by (subst alloc_loop.simps) (simp add: init_heap_eq sample_heap_def)
qed

lemma sample_reachable: "heap_reachable 0 4096 (\<lambda>offset. 32 dvd offset) sample_heap {(4096, 100)}"
  using heap_reachable.alloc [OF heap_reachable.init _ _ sample_alloc, of "\<lambda>offset. 32 dvd offset"] by simp

lemma sample_heap_ok: "heap_ok (heap_range 4096) {(4096, 100)} sample_heap"
  using heap_reachable_heap_ok [OF sample_reachable] by (simp add: HEAP_SIZE_def)


theorem heap_reachable_safe_witness:
  "check_blocks sample_heap \<and> free_addrs (hp_free sample_heap) \<subseteq> {4096..<4096 + HEAP_SIZE} \<and>
    extent (4096, 100) \<subseteq> {4096..<4096 + HEAP_SIZE} - free_addrs (hp_free sample_heap) \<and>
    hp_usedmem sample_heap = 128 \<and> hp_freemem sample_heap + hp_usedmem sample_heap = word_of_nat HEAP_SIZE"
proof -
  have "(0 :: nat) < 4096" "4096 + HEAP_SIZE < 2 ^ 64" by (simp_all add: HEAP_SIZE_def)
  from heap_reachable_safe [OF sample_reachable this] show ?thesis by (elim conjE) (simp add: sample_actual)
qed

theorem heap_recovers_witness:
  "hp_free (free_memblock sample_heap 4096 100) = [\<lparr>mb_addr = 4096, mb_size = HEAP_SIZE\<rparr>] \<and>
    hp_freemem (free_memblock sample_heap 4096 100) = word_of_nat HEAP_SIZE \<and>
    hp_usedmem (free_memblock sample_heap 4096 100) = 0"
proof -
  have "heap_reachable 0 4096 (\<lambda>offset. 32 dvd offset) (free_memblock sample_heap 4096 100) {}"
    using heap_reachable.release [OF sample_reachable, of 4096 100] by simp
  from heap_recovers [OF this] show ?thesis by (simp add: HEAP_SIZE_def)
qed

definition sample_autosized :: "(nat \<times> nat) list heap" where
  "sample_autosized = sample_heap\<lparr>hp_autosize := (\<lambda>_. 0)(4096 := 100), hp_other := []\<rparr>"


text \<open>
  The comments on the parts too small for a block say that these can occur only at the very start and
  the very end of the heap.  An offset that is not a multiple of the minimum block size leaves one in
  the middle, and it is lost for good: after both blocks have been released, eight bytes separate two
  free blocks.
\<close>

lemma alloc_offset_leaks:
  "\<exists>h1 h2. alloc_memblock 0 [] sample_heap 32 1 8 = Some (h1, 4232) \<and>
     h2 = free_memblock (free_memblock h1 4232 32) 4096 100 \<and>
     hp_free h2 = [\<lparr>mb_addr = 4096, mb_size = 128\<rparr>, \<lparr>mb_addr = 4232, mb_size = HEAP_SIZE - 136\<rparr>]"
proof -
  have pre: "pre_size_of 0 1 8 4224 = 8" by (simp add: pre_size_of_def virt_to_phys_def align_mask_def)
  have act: "actual_size 32 = 32" by (simp add: actual_size_eq)
  have bs: "hp_free sample_heap = [\<lparr>mb_addr = 4224, mb_size = HEAP_SIZE - 128\<rparr>]"
    by (simp add: sample_heap_def alloc_take_def Let_def)
  have "alloc_search 0 32 1 8 (hp_free sample_heap) =
      Some ([\<lparr>mb_addr = 4264, mb_size = HEAP_SIZE - 168\<rparr>], 4232)"
    by (simp add: bs pre [simplified] HEAP_SIZE_def Let_def)
  then have "alloc_memblock 0 [] sample_heap 32 1 8 =
      Some (alloc_take sample_heap 32 [\<lparr>mb_addr = 4264, mb_size = HEAP_SIZE - 168\<rparr>], 4232)"
    unfolding alloc_memblock_def act Let_def by (subst alloc_loop.simps) simp
  moreover have "hp_free (alloc_take sample_heap 32 bs) = bs" for bs by (simp add: alloc_take_def Let_def)
  ultimately show ?thesis
    by (simp add: free_memblock_def Let_def act sample_actual block_end_def HEAP_SIZE_def)
qed

end
