(* ===== verification/Iobuf.thy ===== *)
theory Iobuf
  imports Malloc
begin

text \<open>
  I/O buffers (core/iobuf.c, net/iobpad.c, include/ipxe/iobuf.h, and the physical allocation wrappers
  of include/ipxe/malloc.h): packet buffers with room at both ends, allocated with a physical
  alignment together with their descriptor.

  A buffer is its descriptor, a record of the addresses in it and of its own; the contents are in
  the heap's memory.  The lists that buffers are linked into are lists of buffers.  The DMA mapping
  of a receive buffer is an argument that tells whether it succeeds.
\<close>

section \<open>Descriptors\<close>

record io_buffer =
  iob_addr :: nat
  iob_head :: nat
  iob_data :: nat
  iob_tail :: nat
  iob_end :: nat

text \<open>\<open>struct io_buffer\<close>: a list head, a DMA mapping of three words, four pointers.\<close>

definition sizeof_io_buffer :: nat where
  "sizeof_io_buffer = 16 + 24 + 32"

definition alignof_io_buffer :: nat where
  "alignof_io_buffer = 8"

definition IOB_ZLEN :: nat where
  "IOB_ZLEN = 128"

text \<open>Pointer arithmetic wraps around.\<close>

definition ptr_add :: "nat \<Rightarrow> nat \<Rightarrow> nat" where
  "ptr_add p n = unat (word_of_nat p + word_of_nat n :: u64)"

definition ptr_sub :: "nat \<Rightarrow> nat \<Rightarrow> nat" where
  "ptr_sub p n = unat (word_of_nat p - word_of_nat n :: u64)"

definition iob_reserve :: "io_buffer \<Rightarrow> nat \<Rightarrow> io_buffer \<times> nat" where
  "iob_reserve iobuf len =
     (let iobuf = iobuf\<lparr>iob_data := ptr_add (iob_data iobuf) len, iob_tail := ptr_add (iob_tail iobuf) len\<rparr>
      in (iobuf, iob_data iobuf))"

definition iob_push :: "io_buffer \<Rightarrow> nat \<Rightarrow> io_buffer \<times> nat" where
  "iob_push iobuf len =
     (let iobuf = iobuf\<lparr>iob_data := ptr_sub (iob_data iobuf) len\<rparr> in (iobuf, iob_data iobuf))"

definition iob_pull :: "io_buffer \<Rightarrow> nat \<Rightarrow> io_buffer \<times> nat" where
  "iob_pull iobuf len =
     (let iobuf = iobuf\<lparr>iob_data := ptr_add (iob_data iobuf) len\<rparr> in (iobuf, iob_data iobuf))"

definition iob_put :: "io_buffer \<Rightarrow> nat \<Rightarrow> io_buffer \<times> nat" where
  "iob_put iobuf len =
     (let old_tail = iob_tail iobuf in (iobuf\<lparr>iob_tail := ptr_add (iob_tail iobuf) len\<rparr>, old_tail))"

definition iob_unput :: "io_buffer \<Rightarrow> nat \<Rightarrow> io_buffer" where
  "iob_unput iobuf len = iobuf\<lparr>iob_tail := ptr_sub (iob_tail iobuf) len\<rparr>"

definition iob_empty :: "io_buffer \<Rightarrow> io_buffer" where
  "iob_empty iobuf = iobuf\<lparr>iob_tail := iob_data iobuf\<rparr>"

definition iob_len :: "io_buffer \<Rightarrow> nat" where
  "iob_len iobuf = ptr_sub (iob_tail iobuf) (iob_data iobuf)"

definition iob_headroom :: "io_buffer \<Rightarrow> nat" where
  "iob_headroom iobuf = ptr_sub (iob_data iobuf) (iob_head iobuf)"

definition iob_tailroom :: "io_buffer \<Rightarrow> nat" where
  "iob_tailroom iobuf = ptr_sub (iob_end iobuf) (iob_tail iobuf)"

definition iob_populate :: "io_buffer \<Rightarrow> nat \<Rightarrow> nat \<Rightarrow> nat \<Rightarrow> io_buffer" where
  "iob_populate iobuf data len max_len =
     iobuf\<lparr>iob_head := data, iob_data := data, iob_tail := ptr_add data len, iob_end := ptr_add data max_len\<rparr>"

section \<open>Allocation\<close>

definition malloc_phys_offset ::
  "u64 \<Rightarrow> 'c discarder list \<Rightarrow> 'c heap \<Rightarrow> nat \<Rightarrow> nat \<Rightarrow> nat \<Rightarrow> ('c heap \<times> nat) option" where
  "malloc_phys_offset vo ds h sz phys_align offset = alloc_memblock vo ds h sz phys_align offset"

definition malloc_phys ::
  "u64 \<Rightarrow> 'c discarder list \<Rightarrow> 'c heap \<Rightarrow> nat \<Rightarrow> nat \<Rightarrow> ('c heap \<times> nat) option" where
  "malloc_phys vo ds h sz phys_align = malloc_phys_offset vo ds h sz phys_align 0"

definition free_phys :: "'c heap \<Rightarrow> nat \<Rightarrow> nat \<Rightarrow> 'c heap" where
  "free_phys h ptr sz = free_memblock h ptr sz"

definition iob_padding :: nat where
  "iob_padding = sizeof_io_buffer + alignof_io_buffer - 1"

text \<open>The position of the last set bit is that of \<open>constant_flsl\<close>.\<close>

definition iob_align_log2 :: "nat \<Rightarrow> nat" where
  "iob_align_log2 align =
     nat (constant_flsl (word_of_nat (if align < iob_padding then iob_padding else align) - 1))"

definition iob_describe :: "nat \<Rightarrow> nat \<Rightarrow> nat \<Rightarrow> io_buffer" where
  "iob_describe addr data len =
     \<lparr>iob_addr = addr, iob_head = data, iob_data = data, iob_tail = data, iob_end = ptr_add data len\<rparr>"

definition alloc_iob_raw ::
  "u64 \<Rightarrow> 'c discarder list \<Rightarrow> 'c heap \<Rightarrow> nat \<Rightarrow> nat \<Rightarrow> nat \<Rightarrow> ('c heap \<times> io_buffer option) option" where
  "alloc_iob_raw vo ds h len align offset =
     (let align_log2 = iob_align_log2 align
      in if align_log2 \<ge> 64 then Some (h, None)
         else
           let align = 2 ^ align_log2;
               threshold = align - iob_padding
           in if len \<le> threshold
              then
                let len = len + unat ((- word_of_nat len - word_of_nat offset :: u64) AND
                                      (word_of_nat alignof_io_buffer - 1))
                in Option.bind (malloc_phys_offset vo ds h (len + sizeof_io_buffer) align offset)
                     (\<lambda>(h, data).
                        if data = 0 then Some (h, None)
                        else Some (h, Some (iob_describe (data + len) data len)))
              else
                Option.bind (malloc_phys_offset vo ds h len align offset)
                  (\<lambda>(h, data).
                     if data = 0 then Some (h, None)
                     else
                       Option.bind (malloc vo ds h sizeof_io_buffer)
                         (\<lambda>(h, iobuf).
                            if iobuf = 0 then Some (free_phys h data len, None)
                            else Some (h, Some (iob_describe iobuf data len)))))"

definition alloc_iob ::
  "u64 \<Rightarrow> 'c discarder list \<Rightarrow> 'c heap \<Rightarrow> nat \<Rightarrow> ('c heap \<times> io_buffer option) option" where
  "alloc_iob vo ds h len =
     (let len = (if len < IOB_ZLEN then IOB_ZLEN else len) in alloc_iob_raw vo ds h len len 0)"

definition free_iob :: "u64 \<Rightarrow> 'c discarder list \<Rightarrow> 'c heap \<Rightarrow> io_buffer option \<Rightarrow> 'c heap option" where
  "free_iob vo ds h iobuf =
     (case iobuf of
        None \<Rightarrow> Some h
      | Some iobuf \<Rightarrow>
          let len = ptr_sub (iob_end iobuf) (iob_head iobuf)
          in if iob_end iobuf = iob_addr iobuf
             then Some (free_phys h (iob_head iobuf) (len + sizeof_io_buffer))
             else free vo ds (free_phys h (iob_head iobuf) len) (iob_addr iobuf))"

definition alloc_rx_iob ::
  "u64 \<Rightarrow> 'c discarder list \<Rightarrow> (io_buffer \<Rightarrow> nat \<Rightarrow> bool) \<Rightarrow> 'c heap \<Rightarrow> nat \<Rightarrow>
   ('c heap \<times> io_buffer option) option" where
  "alloc_rx_iob vo ds iob_map_rx h len =
     Option.bind (alloc_iob vo ds h len)
       (\<lambda>(h, iobuf). case iobuf of
          None \<Rightarrow> Some (h, None)
        | Some iobuf \<Rightarrow>
            if iob_map_rx iobuf (iob_tailroom iobuf) then Some (h, Some iobuf)
            else map_option (\<lambda>h. (h, None)) (free_iob vo ds h (Some iobuf)))"

definition free_rx_iob :: "u64 \<Rightarrow> 'c discarder list \<Rightarrow> 'c heap \<Rightarrow> io_buffer option \<Rightarrow> 'c heap option" where
  "free_rx_iob vo ds h iobuf = free_iob vo ds h iobuf"

section \<open>Operations on the contents\<close>

definition iob_ensure_headroom :: "io_buffer \<Rightarrow> nat \<Rightarrow> unit result" where
  "iob_ensure_headroom iobuf len = (if iob_headroom iobuf \<ge> len then Inr () else Inl ENOBUFS)"

text \<open>The sum cannot wrap around for buffers that lie in different places.\<close>

fun iob_total :: "io_buffer list \<Rightarrow> nat" where
  "iob_total [] = 0"
| "iob_total (iobuf # iobufs) = iob_len iobuf + iob_total iobufs"

fun iob_move ::
  "u64 \<Rightarrow> 'c discarder list \<Rightarrow> 'c heap \<Rightarrow> io_buffer \<Rightarrow> io_buffer list \<Rightarrow> ('c heap \<times> io_buffer) option" where
  "iob_move vo ds h concatenated [] = Some (h, concatenated)"
| "iob_move vo ds h concatenated (iobuf # iobufs) =
     (case iob_put concatenated (iob_len iobuf) of
        (concatenated, dest) \<Rightarrow>
          Option.bind
            (free_iob vo ds (h\<lparr>hp_mem := generic_memcpy (hp_mem h) dest (iob_data iobuf) (iob_len iobuf)\<rparr>)
               (Some iobuf))
            (\<lambda>h. iob_move vo ds h concatenated iobufs))"

definition iob_concatenate ::
  "u64 \<Rightarrow> 'c discarder list \<Rightarrow> 'c heap \<Rightarrow> io_buffer list \<Rightarrow>
   ('c heap \<times> io_buffer list \<times> io_buffer option) option" where
  "iob_concatenate vo ds h iobufs =
     (case iobufs of
        [iobuf] \<Rightarrow> Some (h, [], Some iobuf)
      | _ \<Rightarrow>
          Option.bind (alloc_iob_raw vo ds h (iob_total iobufs) alignof_io_buffer 0)
            (\<lambda>(h, concatenated). case concatenated of
               None \<Rightarrow> Some (h, iobufs, None)
             | Some concatenated \<Rightarrow>
                 map_option (\<lambda>(h, concatenated). (h, [], Some concatenated))
                   (iob_move vo ds h concatenated iobufs)))"

definition iob_split ::
  "u64 \<Rightarrow> 'c discarder list \<Rightarrow> 'c heap \<Rightarrow> io_buffer \<Rightarrow> nat \<Rightarrow>
   ('c heap \<times> io_buffer \<times> io_buffer option) option" where
  "iob_split vo ds h iobuf len =
     Option.bind (alloc_iob vo ds h len)
       (\<lambda>(h, split). case split of
          None \<Rightarrow> Some (h, iobuf, None)
        | Some split \<Rightarrow>
            (case iob_put split len of
               (split, dest) \<Rightarrow>
                 Some (h\<lparr>hp_mem := generic_memcpy (hp_mem h) dest (iob_data iobuf) len\<rparr>,
                       fst (iob_pull iobuf len), Some split)))"

text \<open>The padding length is a signed integer.\<close>

definition iob_pad :: "mem \<Rightarrow> io_buffer \<Rightarrow> nat \<Rightarrow> mem \<times> io_buffer" where
  "iob_pad m iobuf min_len =
     (let data = iob_data iobuf;
          len = iob_len iobuf;
          headroom = iob_headroom iobuf;
          (iobuf, _) = iob_push iobuf headroom;
          m = generic_memmove m (iob_data iobuf) data len;
          iobuf = iob_unput iobuf headroom;
          pad_len = sint (word_of_nat min_len - word_of_nat (iob_len iobuf) :: u32)
      in if pad_len > 0
         then (case iob_put iobuf (nat pad_len) of
                 (iobuf, dest) \<Rightarrow> (generic_memset m dest 0 (nat pad_len), iobuf))
         else (m, iobuf))"

section \<open>Well-formed buffers\<close>

declare Nat.diff_diff_right [simp del]

definition iob_wf :: "io_buffer \<Rightarrow> bool" where
  "iob_wf iobuf \<longleftrightarrow> iob_head iobuf \<le> iob_data iobuf \<and> iob_data iobuf \<le> iob_tail iobuf \<and>
     iob_tail iobuf \<le> iob_end iobuf \<and> iob_end iobuf < 2 ^ 64"

definition iob_contents :: "mem \<Rightarrow> io_buffer \<Rightarrow> u8 list" where
  "iob_contents m iobuf = mem_bytes m (iob_data iobuf) (iob_len iobuf)"

lemma ptr_add_small [simp]: "p + n < 2 ^ 64 \<Longrightarrow> ptr_add p n = p + n"
  unfolding ptr_add_def by (simp add: unsigned_of_nat take_bit_nat_eq_self flip: of_nat_add)

lemma ptr_sub_small [simp]: "n \<le> p \<Longrightarrow> p < 2 ^ 64 \<Longrightarrow> ptr_sub p n = p - n"
  unfolding ptr_sub_def by (simp add: unsigned_of_nat take_bit_nat_eq_self flip: of_nat_diff)

lemma iob_wf_lengths:
  assumes "iob_wf iobuf"
  shows "iob_len iobuf = iob_tail iobuf - iob_data iobuf"
    and "iob_headroom iobuf = iob_data iobuf - iob_head iobuf"
    and "iob_tailroom iobuf = iob_end iobuf - iob_tail iobuf"
    and "ptr_sub (iob_end iobuf) (iob_head iobuf) = iob_end iobuf - iob_head iobuf"
  using assms by (simp_all add: iob_wf_def iob_len_def iob_headroom_def iob_tailroom_def)

text \<open>
  The blocks of memory that belong to a buffer: one when the descriptor follows the data, two when it
  has been allocated apart.
\<close>

definition iob_blocks :: "io_buffer \<Rightarrow> (nat \<times> nat) set" where
  "iob_blocks iobuf =
     (if iob_end iobuf = iob_addr iobuf
      then {(iob_head iobuf, iob_end iobuf - iob_head iobuf + sizeof_io_buffer)}
      else {(iob_head iobuf, iob_end iobuf - iob_head iobuf), (iob_addr iobuf - 8, sizeof_io_buffer + 8)})"

definition iob_live :: "'c heap \<Rightarrow> (nat \<times> nat) set \<Rightarrow> io_buffer \<Rightarrow> bool" where
  "iob_live h L iobuf \<longleftrightarrow> iob_wf iobuf \<and> iob_blocks iobuf \<subseteq> L \<and>
     (iob_end iobuf \<noteq> iob_addr iobuf \<longrightarrow>
        8 \<le> iob_addr iobuf \<and> block_sized h (iob_addr iobuf) sizeof_io_buffer \<and>
        (iob_head iobuf, iob_end iobuf - iob_head iobuf) \<noteq> (iob_addr iobuf - 8, sizeof_io_buffer + 8))"

section \<open>Releasing a buffer\<close>

lemma free_iob_ok:
  assumes "heap_inv R owned ds L h" and "iob_live h L iobuf"
  shows "\<exists>h'. free_iob vo ds h (Some iobuf) = Some h' \<and> heap_inv R owned ds (L - iob_blocks iobuf) h' \<and>
    heap_content h' = heap_content h"
proof -
  note len = iob_wf_lengths(4) [of iobuf]
  have wf: "iob_wf iobuf" and sub: "iob_blocks iobuf \<subseteq> L" using assms(2) by (auto simp: iob_live_def)
  show ?thesis
  proof (cases "iob_end iobuf = iob_addr iobuf")
    case True
    then have "(iob_head iobuf, iob_end iobuf - iob_head iobuf + sizeof_io_buffer) \<in> L"
      using sub by (simp add: iob_blocks_def)
    from heap.release_law [OF assms(1) this] show ?thesis
      using True len [OF wf] by (simp add: free_iob_def Let_def free_phys_def iob_blocks_def)
  next
    case False
    let ?b = "(iob_head iobuf, iob_end iobuf - iob_head iobuf)" and ?d = "(iob_addr iobuf - 8, sizeof_io_buffer + 8)"
    have b: "?b \<in> L" "?d \<in> L" "?b \<noteq> ?d" and d: "8 \<le> iob_addr iobuf" "block_sized h (iob_addr iobuf) sizeof_io_buffer"
      using assms(2) False by (auto simp: iob_live_def iob_blocks_def)
    define h1 where "h1 = free_memblock h (iob_head iobuf) (iob_end iobuf - iob_head iobuf)"
    have inv1: "heap_inv R owned ds (L - {?b}) h1" unfolding h1_def by (rule heap.release_law [OF assms(1) b(1)])
    have sized: "block_sized h1 (iob_addr iobuf) sizeof_io_buffer" using d(2) by (simp add: h1_def block_sized_def)
    have "?d \<in> L - {?b}" using b by auto
    from heap.dealloc_law [OF inv1 this d(1) sized] obtain h2 where h2: "free vo ds h1 (iob_addr iobuf) = Some h2" "heap_inv R owned ds (L - {?b} - {?d}) h2"
      "heap_content h2 = heap_content h1"
      by blast
    have "L - {?b} - {?d} = L - iob_blocks iobuf" using False by (auto simp: iob_blocks_def)
    then show ?thesis
      using h2 False by (simp add: free_iob_def Let_def len [OF wf] free_phys_def h1_def)
  qed
qed

section \<open>Allocating a buffer\<close>

lemma iob_align_log2_bounds:
  assumes "align < 2 ^ 64"
  shows "iob_align_log2 align \<le> 64" and "align \<le> 2 ^ iob_align_log2 align"
    and "iob_padding \<le> 2 ^ iob_align_log2 align"
proof -
  define a where "a = (if align < iob_padding then iob_padding else align)"
  have a: "iob_padding \<le> a" "align \<le> a" "a < 2 ^ 64" "1 < a"
    using assms by (auto simp: a_def iob_padding_def sizeof_io_buffer_def alignof_io_buffer_def)
  have un: "unat (word_of_nat a - 1 :: u64) = a - 1"
  proof -
    have "(word_of_nat a - 1 :: u64) = word_of_nat (a - 1)" using a(4) by simp
    then show ?thesis using a(3) by (simp add: unsigned_of_nat take_bit_nat_eq_self del: of_nat_diff)
  qed
  then have "(word_of_nat a - 1 :: u64) \<noteq> 0" using a(4) by (metis unsigned_0 less_irrefl zero_less_diff)
  note fls = constant_flsl_bounds [OF this, unfolded un]
  have eq: "iob_align_log2 align = nat (constant_flsl (word_of_nat a - 1))" by (simp add: iob_align_log2_def a_def)
  show "iob_align_log2 align \<le> 64" using fls(2) by (simp add: eq)
  have "a \<le> 2 ^ iob_align_log2 align" using fls(3) by (simp add: eq)
  then show "align \<le> 2 ^ iob_align_log2 align" "iob_padding \<le> 2 ^ iob_align_log2 align" using a(1,2) by simp_all
qed

text \<open>A fresh buffer over the blocks \<open>B\<close>.\<close>

definition iob_fresh :: "'c heap \<Rightarrow> (nat \<times> nat) set \<Rightarrow> nat \<Rightarrow> io_buffer \<Rightarrow> bool" where
  "iob_fresh h L len iobuf \<longleftrightarrow> L \<inter> iob_blocks iobuf = {} \<and> iob_live h (L \<union> iob_blocks iobuf) iobuf \<and>
     iob_data iobuf = iob_head iobuf \<and> iob_tail iobuf = iob_head iobuf \<and> len \<le> iob_tailroom iobuf"

lemma iob_fresh_inline:
  assumes "(data, len' + sizeof_io_buffer) \<notin> L" and "data + (len' + sizeof_io_buffer) < 2 ^ 64" and "len \<le> len'"
  shows "iob_fresh h L len (iob_describe (data + len') data len')"
    and "iob_blocks (iob_describe (data + len') data len') = {(data, len' + sizeof_io_buffer)}"
  using assms by (simp_all add: iob_fresh_def iob_live_def iob_wf_def iob_blocks_def iob_describe_def
      iob_tailroom_def sizeof_io_buffer_def)

lemma iob_fresh_apart:
  assumes "(data, len) \<notin> L" and "(addr - 8, sizeof_io_buffer + 8) \<notin> L" and "(data, len) \<noteq> (addr - 8, sizeof_io_buffer + 8)"
    and "data + len < 2 ^ 64" and "data + len \<noteq> addr" and "8 \<le> addr" and "block_sized h addr sizeof_io_buffer"
  shows "iob_fresh h L len (iob_describe addr data len)"
    and "iob_blocks (iob_describe addr data len) = {(data, len), (addr - 8, sizeof_io_buffer + 8)}"
  using assms by (auto simp add: iob_fresh_def iob_live_def iob_wf_def iob_blocks_def iob_describe_def iob_tailroom_def)

lemma alloc_iob_inline:
  assumes "heap_inv R owned ds L h" and "j < 64" and "len \<le> len'" and "len' + sizeof_io_buffer < 2 ^ 64"
  shows "\<exists>h' data. alloc_memblock vo ds h (len' + sizeof_io_buffer) (2 ^ j) offset = Some (h', data) \<and>
    (\<forall>b\<in>L. \<forall>a\<in>extent b. heap_content h' a = heap_content h a) \<and>
    (if data = 0 then heap_inv R owned ds L h'
     else heap_inv R owned ds (L \<union> iob_blocks (iob_describe (data + len') data len')) h' \<and>
       iob_fresh h' L len (iob_describe (data + len') data len') \<and> phys_aligned vo data (2 ^ j) offset)"
proof -
  obtain h' data where a: "alloc_memblock vo ds h (len' + sizeof_io_buffer) (2 ^ j) offset = Some (h', data)"
    "\<forall>b\<in>L. \<forall>a\<in>extent b. heap_content h' a = heap_content h a"
    "if data = 0 then heap_inv R owned ds L h'
     else heap_inv R owned ds (insert (data, len' + sizeof_io_buffer) L) h' \<and>
       (data, len' + sizeof_io_buffer) \<notin> L \<and> phys_aligned vo data (2 ^ j) offset"
    using heap.alloc_law [OF assms(1,4,2)] by blast
  have "data + (len' + sizeof_io_buffer) < 2 ^ 64" if "data \<noteq> 0"
    using a(3) that by (auto dest: heap.block_law)
  moreover have "(data, len' + sizeof_io_buffer) \<notin> L" if "data \<noteq> 0" using a(3) that by simp
  ultimately show ?thesis using a iob_fresh_inline [OF _ _ assms(3)] by (cases "data = 0") auto
qed

lemma alloc_iob_apart:
  assumes "heap_inv R owned ds L h" and "j < 64" and "0 < len" and "len < 2 ^ 64"
  shows "\<exists>h1 data. alloc_memblock vo ds h len (2 ^ j) offset = Some (h1, data) \<and>
    (if data = 0 then heap_inv R owned ds L h1 \<and> (\<forall>b\<in>L. \<forall>a\<in>extent b. heap_content h1 a = heap_content h a)
     else \<exists>h2 addr. malloc vo ds h1 sizeof_io_buffer = Some (h2, addr) \<and>
       (\<forall>b\<in>L. \<forall>a\<in>extent b. heap_content h2 a = heap_content h a) \<and>
       (if addr = 0 then heap_inv R owned ds L (free_memblock h2 data len)
        else heap_inv R owned ds (L \<union> iob_blocks (iob_describe addr data len)) h2 \<and>
          iob_fresh h2 L len (iob_describe addr data len) \<and> phys_aligned vo data (2 ^ j) offset))"
proof -
  have sz: "0 < sizeof_io_buffer" "sizeof_io_buffer < 2 ^ 64" by (simp_all add: sizeof_io_buffer_def)
  obtain h1 data where a: "alloc_memblock vo ds h len (2 ^ j) offset = Some (h1, data)"
    "if data = 0 then heap_inv R owned ds L h1 \<and> (\<forall>b\<in>L. \<forall>a\<in>extent b. heap_content h1 a = heap_content h a)
     else \<exists>h2 q. malloc vo ds h1 sizeof_io_buffer = Some (h2, q) \<and>
       (\<forall>b\<in>L. \<forall>a\<in>extent b. heap_content h2 a = heap_content h a) \<and>
       (if q = 0 then heap_inv R owned ds L (free_memblock h2 data len)
        else heap_inv R owned ds (insert (q - 8, sizeof_io_buffer + 8) (insert (data, len) L)) h2 \<and> 8 \<le> q \<and>
          block_sized h2 q sizeof_io_buffer \<and> (data, len) \<notin> L \<and> (q - 8, sizeof_io_buffer + 8) \<notin> L \<and>
          (data, len) \<noteq> (q - 8, sizeof_io_buffer + 8) \<and> phys_aligned vo data (2 ^ j) offset)"
    using heap.alloc_pair [OF assms(1,3,4,2) sz] by blast
  show ?thesis
  proof (cases "data = 0")
    case False
    with a(2) obtain h2 q where b: "malloc vo ds h1 sizeof_io_buffer = Some (h2, q)"
      "\<forall>b\<in>L. \<forall>a\<in>extent b. heap_content h2 a = heap_content h a"
      "if q = 0 then heap_inv R owned ds L (free_memblock h2 data len)
        else heap_inv R owned ds (insert (q - 8, sizeof_io_buffer + 8) (insert (data, len) L)) h2 \<and> 8 \<le> q \<and>
          block_sized h2 q sizeof_io_buffer \<and> (data, len) \<notin> L \<and> (q - 8, sizeof_io_buffer + 8) \<notin> L \<and>
          (data, len) \<noteq> (q - 8, sizeof_io_buffer + 8) \<and> phys_aligned vo data (2 ^ j) offset"
      by auto
    show ?thesis
    proof (cases "q = 0")
      case True
      then show ?thesis using a(1) b False by auto
    next
      case q: False
      let ?L = "insert (q - 8, sizeof_io_buffer + 8) (insert (data, len) L)"
      have inv: "heap_inv R owned ds ?L h2" and q8: "8 \<le> q"
        and ne: "(data, len) \<noteq> (q - 8, sizeof_io_buffer + 8)" using b(3) q by auto
      have "data + len < 2 ^ 64" using heap.block_law [OF inv, of data len] by simp
      moreover have "data + len \<noteq> q"
        using heap.blocks_apart [OF inv _ _ ne] assms(3) q8 sz(1) by auto
      ultimately have "iob_fresh h2 L len (iob_describe q data len)"
        "L \<union> iob_blocks (iob_describe q data len) = ?L"
        using iob_fresh_apart [of data len L q] b(3) q by auto
      then show ?thesis using a(1) b q False by auto
    qed
  qed (use a in auto)
qed

lemma alloc_iob_raw_ok:
  assumes "heap_inv R owned ds L h" and "align < 2 ^ 64" and "len < 2 ^ 64"
  shows "\<exists>h' r. alloc_iob_raw vo ds h len align offset = Some (h', r) \<and>
    (\<forall>b\<in>L. \<forall>a\<in>extent b. heap_content h' a = heap_content h a) \<and>
    (case r of
       None \<Rightarrow> heap_inv R owned ds L h'
     | Some iobuf \<Rightarrow> heap_inv R owned ds (L \<union> iob_blocks iobuf) h' \<and> iob_fresh h' L len iobuf \<and>
         phys_aligned vo (iob_data iobuf) (2 ^ iob_align_log2 align) offset)"
proof -
  define j where "j = iob_align_log2 align"
  have pad: "iob_padding \<le> 2 ^ j" using iob_align_log2_bounds [OF assms(2)] by (simp add: j_def)
  have data: "iob_data (iob_describe addr data n) = data" for addr data n by (simp add: iob_describe_def)
  show ?thesis
  proof (cases "j < 64")
    case False
    then have "alloc_iob_raw vo ds h len align offset = Some (h, None)" by (simp add: alloc_iob_raw_def j_def)
    then show ?thesis using assms(1) by simp
  next
    case j: True
    show ?thesis
    proof (cases "len \<le> 2 ^ j - iob_padding")
      case True
      define len' where "len' = len + unat ((- word_of_nat len - word_of_nat offset :: u64) AND
          (word_of_nat alignof_io_buffer - 1))"
      have "unat ((- word_of_nat len - word_of_nat offset :: u64) AND 7) \<le> unat (7 :: u64)"
        by (rule word_le_nat_alt [THEN iffD1, OF word_and_le1])
      then have "len' \<le> len + 7" by (simp add: len'_def alignof_io_buffer_def)
      moreover have "(2 :: nat) ^ j \<le> 2 ^ 63" using j by (intro power_increasing) auto
      ultimately have sz: "len \<le> len'" "len' + sizeof_io_buffer < 2 ^ 64"
        using True by (simp_all add: len'_def sizeof_io_buffer_def)
      obtain h' d where a: "alloc_memblock vo ds h (len' + sizeof_io_buffer) (2 ^ j) offset = Some (h', d)"
        "\<forall>b\<in>L. \<forall>a\<in>extent b. heap_content h' a = heap_content h a"
        "if d = 0 then heap_inv R owned ds L h'
         else heap_inv R owned ds (L \<union> iob_blocks (iob_describe (d + len') d len')) h' \<and>
           iob_fresh h' L len (iob_describe (d + len') d len') \<and> phys_aligned vo d (2 ^ j) offset"
        using alloc_iob_inline [OF assms(1) j sz] by blast
      have "alloc_iob_raw vo ds h len align offset =
          Some (h', if d = 0 then None else Some (iob_describe (d + len') d len'))"
        unfolding alloc_iob_raw_def malloc_phys_offset_def Let_def j_def [symmetric] len'_def [symmetric]
        using j True a(1) by simp
      then show ?thesis using a(2,3) by (auto simp: data simp flip: j_def)
    next
      case False
      then have pos: "0 < len" by simp
      obtain h1 d where a: "alloc_memblock vo ds h len (2 ^ j) offset = Some (h1, d)"
        "if d = 0 then heap_inv R owned ds L h1 \<and> (\<forall>b\<in>L. \<forall>a\<in>extent b. heap_content h1 a = heap_content h a)
         else \<exists>h2 addr. malloc vo ds h1 sizeof_io_buffer = Some (h2, addr) \<and>
           (\<forall>b\<in>L. \<forall>a\<in>extent b. heap_content h2 a = heap_content h a) \<and>
           (if addr = 0 then heap_inv R owned ds L (free_memblock h2 d len)
            else heap_inv R owned ds (L \<union> iob_blocks (iob_describe addr d len)) h2 \<and>
              iob_fresh h2 L len (iob_describe addr d len) \<and> phys_aligned vo d (2 ^ j) offset)"
        using alloc_iob_apart [OF assms(1) j pos assms(3)] by blast
      have eq: "alloc_iob_raw vo ds h len align offset =
          (if d = 0 then Some (h1, None)
           else Option.bind (malloc vo ds h1 sizeof_io_buffer)
                  (\<lambda>(h, iobuf). if iobuf = 0 then Some (free_phys h d len, None)
                     else Some (h, Some (iob_describe iobuf d len))))"
        unfolding alloc_iob_raw_def malloc_phys_offset_def Let_def j_def [symmetric]
        using j False a(1) by simp
      show ?thesis
      proof (cases "d = 0")
        case d: False
        then obtain h2 q where b: "malloc vo ds h1 sizeof_io_buffer = Some (h2, q)"
          "\<forall>b\<in>L. \<forall>a\<in>extent b. heap_content h2 a = heap_content h a"
          "if q = 0 then heap_inv R owned ds L (free_memblock h2 d len)
           else heap_inv R owned ds (L \<union> iob_blocks (iob_describe q d len)) h2 \<and>
             iob_fresh h2 L len (iob_describe q d len) \<and> phys_aligned vo d (2 ^ j) offset"
          using a(2) by auto
        then show ?thesis using d eq by (cases "q = 0") (auto simp: free_phys_def data simp flip: j_def)
      qed (use a(2) eq in auto)
    qed
  qed
qed


section \<open>Concatenation\<close>

lemma iob_data_range:
  assumes "heap_inv R owned ds L h" and "iob_live h L iobuf"
  shows "\<exists>b\<in>iob_blocks iobuf. b \<in> L \<and> {iob_head iobuf..<iob_end iobuf} \<subseteq> extent b"
proof -
  have wf: "iob_head iobuf \<le> iob_end iobuf" using assms(2) by (auto simp: iob_live_def iob_wf_def)
  obtain n where b: "(iob_head iobuf, n) \<in> iob_blocks iobuf" "iob_end iobuf - iob_head iobuf \<le> n"
    by (cases "iob_end iobuf = iob_addr iobuf") (auto simp: iob_blocks_def)
  have "(iob_head iobuf, n) \<in> L" using assms(2) b(1) by (auto simp: iob_live_def)
  moreover from this have "{iob_head iobuf..<iob_end iobuf} \<subseteq> extent (iob_head iobuf, n)"
    using heap.block_law [OF assms(1)] b(2) wf by fastforce
  ultimately show ?thesis using b(1) by blast
qed

lemma iob_ranges_disjoint:
  assumes "heap_inv R owned ds L h" and "iob_live h L iobuf" and "iob_live h L iobuf'"
    and "iob_blocks iobuf \<inter> iob_blocks iobuf' = {}"
  shows "{iob_head iobuf..<iob_end iobuf} \<inter> {iob_head iobuf'..<iob_end iobuf'} = {}"
proof -
  obtain b c where b: "b \<in> iob_blocks iobuf" "b \<in> L" "{iob_head iobuf..<iob_end iobuf} \<subseteq> extent b"
    and c: "c \<in> iob_blocks iobuf'" "c \<in> L" "{iob_head iobuf'..<iob_end iobuf'} \<subseteq> extent c"
    using iob_data_range [OF assms(1,2)] iob_data_range [OF assms(1,3)] by blast
  have "b \<noteq> c" using assms(4) b(1) c(1) by blast
  then show ?thesis using heap.disjoint_law [OF assms(1) b(2) c(2)] b(3) c(3) by blast
qed

text \<open>Buffers that are apart from each other.\<close>

fun iobs_apart :: "(nat \<times> nat) set \<Rightarrow> io_buffer list \<Rightarrow> bool" where
  "iobs_apart B [] \<longleftrightarrow> True"
| "iobs_apart B (iobuf # iobufs) \<longleftrightarrow>
     iob_blocks iobuf \<inter> B = {} \<and> iobs_apart (B \<union> iob_blocks iobuf) iobufs"

lemma iobs_apart_disjoint:
  "iobs_apart B iobufs \<Longrightarrow> iobuf \<in> set iobufs \<Longrightarrow> iob_blocks iobuf \<inter> B = {}"
  by (induction iobufs arbitrary: B) auto

lemma iobs_apart_mono: "iobs_apart B iobufs \<Longrightarrow> A \<subseteq> B \<Longrightarrow> iobs_apart A iobufs"
proof (induction iobufs arbitrary: A B)
  case (Cons iobuf iobufs)
  then have "iobs_apart (A \<union> iob_blocks iobuf) iobufs" by (auto intro: Cons.IH [of "B \<union> iob_blocks iobuf"])
  then show ?case using Cons.prems by auto
qed simp

lemma iobs_apart_add:
  "iobs_apart B iobufs \<Longrightarrow> \<forall>iobuf\<in>set iobufs. iob_blocks iobuf \<inter> A = {} \<Longrightarrow> iobs_apart (A \<union> B) iobufs"
proof (induction iobufs arbitrary: B)
  case (Cons iobuf iobufs)
  then have "iobs_apart (A \<union> (B \<union> iob_blocks iobuf)) iobufs" by (intro Cons.IH) auto
  then show ?case using Cons.prems by (auto simp: Un_assoc)
qed simp

lemma heap_inv_mem [simp]: "heap_inv R owned ds L (h\<lparr>hp_mem := m\<rparr>) = heap_inv R owned ds L h"
  by (simp add: heap_inv_def heap_ok_other)

lemma iob_live_cong:
  assumes "iob_live h L iobuf" and "hp_autosize h' = hp_autosize h" and "iob_blocks iobuf \<subseteq> L'"
  shows "iob_live h' L' iobuf"
  using assms(1,3) unfolding iob_live_def block_sized_def assms(2) by blast

lemma heap_content_eqD:
  assumes "heap_content h' = heap_content h"
  shows "hp_mem h' = hp_mem h" and "hp_autosize h' = hp_autosize h"
  using fun_cong [OF assms] by (auto simp: heap_content_def fun_eq_iff)

lemma iob_live_frame:
  assumes "heap_inv R owned ds L h" and "iob_live h L iobuf"
    and "\<forall>b\<in>L. \<forall>a\<in>extent b. heap_content h' a = heap_content h a"
  shows "iob_live h' L iobuf"
proof (cases "iob_end iobuf = iob_addr iobuf")
  case False
  let ?d = "(iob_addr iobuf - 8, sizeof_io_buffer + 8)"
  have "?d \<in> L" using assms(2) False by (auto simp: iob_live_def iob_blocks_def)
  moreover have "iob_addr iobuf - 8 \<in> extent ?d" using heap.block_law [OF assms(1) \<open>?d \<in> L\<close>] by auto
  ultimately have "heap_content h' (iob_addr iobuf - 8) = heap_content h (iob_addr iobuf - 8)"
    using assms(3) by blast
  then have "block_sized h' (iob_addr iobuf) n = block_sized h (iob_addr iobuf) n" for n
    by (simp add: block_sized_def heap_content_def)
  then show ?thesis using assms(2) unfolding iob_live_def by simp
qed (use assms(2) in \<open>simp add: iob_live_def\<close>)

text \<open>Data put at the end of a buffer.\<close>

lemma iob_put_data:
  assumes "iob_wf c" and "n \<le> iob_tailroom c"
    and "iob_tail c \<le> src \<or> src + n \<le> iob_tail c"
  shows "iob_put c n = (c\<lparr>iob_tail := iob_tail c + n\<rparr>, iob_tail c)"
    and "iob_wf (c\<lparr>iob_tail := iob_tail c + n\<rparr>)"
    and "iob_tailroom (c\<lparr>iob_tail := iob_tail c + n\<rparr>) = iob_tailroom c - n"
    and "iob_contents (generic_memcpy m (iob_tail c) src n) (c\<lparr>iob_tail := iob_tail c + n\<rparr>)
      = iob_contents m c @ mem_bytes m src n"
proof -
  have le: "iob_data c \<le> iob_tail c" "iob_tail c + n \<le> iob_end c" "iob_end c < 2 ^ 64"
    using assms(1,2) iob_wf_lengths(3) [OF assms(1)] by (auto simp: iob_wf_def)
  show "iob_put c n = (c\<lparr>iob_tail := iob_tail c + n\<rparr>, iob_tail c)" using le by (simp add: iob_put_def)
  show wf: "iob_wf (c\<lparr>iob_tail := iob_tail c + n\<rparr>)" using assms(1) le by (simp add: iob_wf_def)
  show "iob_tailroom (c\<lparr>iob_tail := iob_tail c + n\<rparr>) = iob_tailroom c - n"
    using iob_wf_lengths(3) [OF wf] iob_wf_lengths(3) [OF assms(1)] by simp
  let ?m = "generic_memcpy m (iob_tail c) src n"
  have app: "?m a = (if iob_tail c \<le> a \<and> a < iob_tail c + n then m (src + (a - iob_tail c)) else m a)" for a
    by (rule generic_memcpy_apply [OF assms(3)])
  have "iob_len (c\<lparr>iob_tail := iob_tail c + n\<rparr>) = iob_len c + n"
    using iob_wf_lengths(1) [OF wf] iob_wf_lengths(1) [OF assms(1)] le by simp
  then have "iob_contents ?m (c\<lparr>iob_tail := iob_tail c + n\<rparr>)
      = mem_bytes ?m (iob_data c) (iob_len c) @ mem_bytes ?m (iob_data c + iob_len c) n"
    by (simp add: iob_contents_def mem_bytes_add)
  moreover have "iob_data c + iob_len c = iob_tail c" using iob_wf_lengths(1) [OF assms(1)] le by simp
  moreover have "mem_bytes ?m (iob_data c) (iob_len c) = iob_contents m c"
    unfolding iob_contents_def using calculation(2) by (intro mem_bytes_cong) (simp add: app)
  moreover have "mem_bytes ?m (iob_tail c) n = mem_bytes m src n"
    by (simp add: mem_bytes_def app)
  ultimately show "iob_contents ?m (c\<lparr>iob_tail := iob_tail c + n\<rparr>) = iob_contents m c @ mem_bytes m src n" by simp
qed

lemma iob_blocks_tail [simp]: "iob_blocks (c\<lparr>iob_tail := t\<rparr>) = iob_blocks c"
  by (simp add: iob_blocks_def)

lemma iob_range_contents:
  assumes "iob_wf i" and "\<forall>a\<in>{iob_head i..<iob_end i}. m' a = m a"
  shows "iob_contents m' i = iob_contents m i"
proof -
  have "iob_head i \<le> iob_data i" "iob_data i + iob_len i \<le> iob_end i"
    using assms(1) iob_wf_lengths(1) [OF assms(1)] by (simp_all add: iob_wf_def)
  then show ?thesis unfolding iob_contents_def using assms(2) by (intro mem_bytes_cong) simp
qed

lemma disjoint_ranges_copy:
  assumes "{a..<b} \<inter> {c..<d} = ({} :: nat set)" and "c \<le> x" and "x + n \<le> d" and "a \<le> t" and "t + n \<le> b"
  shows "t \<le> x \<or> x + n \<le> t"
proof (rule ccontr)
  assume "\<not> ?thesis"
  then have "t \<in> {a..<b} \<inter> {c..<d}" using assms by auto
  then show False using assms(1) by simp
qed

lemma iob_move_ok:
  assumes "heap_inv R owned ds L h" and "iob_live h L c" and "\<forall>i\<in>set iobufs. iob_live h L i"
    and "iobs_apart (iob_blocks c) iobufs" and "iob_total iobufs \<le> iob_tailroom c"
  shows "\<exists>h' c'. iob_move vo ds h c iobufs = Some (h', c') \<and>
    heap_inv R owned ds (L - (\<Union>i\<in>set iobufs. iob_blocks i)) h' \<and>
    iob_live h' (L - (\<Union>i\<in>set iobufs. iob_blocks i)) c' \<and> iob_blocks c' = iob_blocks c \<and>
    iob_contents (hp_mem h') c' = iob_contents (hp_mem h) c @ concat (map (iob_contents (hp_mem h)) iobufs) \<and>
    (\<forall>a. a \<notin> {iob_tail c..<iob_end c} \<longrightarrow> hp_mem h' a = hp_mem h a)"
  using assms
proof (induction iobufs arbitrary: h L c)
  case Nil
  then show ?case by simp
next
  case (Cons i iobufs)
  define n where "n = iob_len i"
  have wf: "iob_wf c" "iob_wf i" and live_i: "iob_live h L i" using Cons.prems(2,3) by (auto simp: iob_live_def)
  have ap: "iob_blocks i \<inter> iob_blocks c = {}" "iobs_apart (iob_blocks c \<union> iob_blocks i) iobufs"
    using Cons.prems(4) by auto
  have dis: "{iob_head c..<iob_end c} \<inter> {iob_head i..<iob_end i} = {}"
    by (rule iob_ranges_disjoint [OF Cons.prems(1,2) live_i]) (use ap(1) in blast)
  have n: "n \<le> iob_tailroom c" "iob_total iobufs \<le> iob_tailroom c - n" using Cons.prems(5) by (simp_all add: n_def)
  have room: "iob_tail c + n \<le> iob_end c" "iob_head c \<le> iob_tail c"
    using n(1) wf(1) iob_wf_lengths(3) [OF wf(1)] by (auto simp: iob_wf_def)
  have src: "iob_head i \<le> iob_data i" "iob_data i + n \<le> iob_end i"
    using wf(2) iob_wf_lengths(1) [OF wf(2)] by (auto simp: iob_wf_def n_def)
  define c1 where "c1 = c\<lparr>iob_tail := iob_tail c + n\<rparr>"
  note put = iob_put_data [OF wf(1) n(1) disjoint_ranges_copy [OF dis src room(2,1)], folded c1_def]
  define h1 where "h1 = h\<lparr>hp_mem := generic_memcpy (hp_mem h) (iob_tail c) (iob_data i) n\<rparr>"
  have mem1: "hp_mem h1 a = hp_mem h a" if "a \<notin> {iob_tail c..<iob_end c}" for a
    using that room(1) generic_memcpy_apply [OF disjoint_ranges_copy [OF dis src room(2,1)]]
    by (auto simp: h1_def)
  have inv1: "heap_inv R owned ds L h1" using Cons.prems(1) by (simp add: h1_def)
  have "iob_live h1 L i" using live_i by (rule iob_live_cong) (use live_i in \<open>simp_all add: h1_def iob_live_def\<close>)
  from free_iob_ok [OF inv1 this, of vo]
  obtain h2 where h2: "free_iob vo ds h1 (Some i) = Some h2" "heap_inv R owned ds (L - iob_blocks i) h2"
    "heap_content h2 = heap_content h1"
    by blast
  note same = heap_content_eqD [OF h2(3)]
  have auto2: "hp_autosize h2 = hp_autosize h" by (simp add: same h1_def)
  have c1: "iob_live h2 (L - iob_blocks i) c1"
  proof -
    have "iob_live h L c1" using Cons.prems(2) put(2) by (simp add: iob_live_def c1_def)
    then show ?thesis
      by (rule iob_live_cong) (use auto2 ap(1) Cons.prems(2) in \<open>auto simp: c1_def iob_live_def\<close>)
  qed
  have others: "iob_live h2 (L - iob_blocks i) k \<and> iob_contents (hp_mem h2) k = iob_contents (hp_mem h) k"
    if "k \<in> set iobufs" for k
  proof -
    have k: "iob_live h L k" using Cons.prems(3) that by simp
    have kb: "iob_blocks k \<inter> (iob_blocks c \<union> iob_blocks i) = {}" by (rule iobs_apart_disjoint [OF ap(2) that])
    have "{iob_head c..<iob_end c} \<inter> {iob_head k..<iob_end k} = {}"
      by (rule iob_ranges_disjoint [OF Cons.prems(1,2) k]) (use kb in blast)
    then have "\<forall>a\<in>{iob_head k..<iob_end k}. hp_mem h2 a = hp_mem h a"
      using mem1 room(2) unfolding same(1) by fastforce
    moreover have "iob_live h2 (L - iob_blocks i) k"
      using k auto2 by (rule iob_live_cong) (use k kb in \<open>auto simp: iob_live_def\<close>)
    ultimately show ?thesis using iob_range_contents [of k] k by (simp add: iob_live_def)
  qed
  have "iobs_apart (iob_blocks c1) iobufs" using iobs_apart_mono [OF ap(2)] by (simp add: c1_def)
  from Cons.IH [OF h2(2) c1 _ this] others put(3) n(2)
  obtain h' c' where IH: "iob_move vo ds h2 c1 iobufs = Some (h', c')"
    "heap_inv R owned ds (L - iob_blocks i - (\<Union>i\<in>set iobufs. iob_blocks i)) h'"
    "iob_live h' (L - iob_blocks i - (\<Union>i\<in>set iobufs. iob_blocks i)) c'" "iob_blocks c' = iob_blocks c1"
    "iob_contents (hp_mem h') c' = iob_contents (hp_mem h2) c1 @ concat (map (iob_contents (hp_mem h2)) iobufs)"
    "\<forall>a. a \<notin> {iob_tail c1..<iob_end c1} \<longrightarrow> hp_mem h' a = hp_mem h2 a"
    by auto
  have move: "iob_move vo ds h c (i # iobufs) = Some (h', c')"
    using put(1) h2(1) IH(1) by (simp add: n_def [symmetric] h1_def [symmetric])
  have set: "L - (\<Union>i\<in>set (i # iobufs). iob_blocks i) = L - iob_blocks i - (\<Union>i\<in>set iobufs. iob_blocks i)" by auto
  have others': "map (iob_contents (hp_mem h2)) iobufs = map (iob_contents (hp_mem h)) iobufs"
    using others by simp
  have "iob_contents (hp_mem h2) c1 = iob_contents (hp_mem h) c @ iob_contents (hp_mem h) i"
    using put(4) [of "hp_mem h"] by (simp add: same(1) h1_def iob_contents_def [of _ i] n_def)
  then have contents: "iob_contents (hp_mem h') c' =
      iob_contents (hp_mem h) c @ concat (map (iob_contents (hp_mem h)) (i # iobufs))"
    unfolding IH(5) others' by simp
  have frame: "hp_mem h' a = hp_mem h a" if "a \<notin> {iob_tail c..<iob_end c}" for a
  proof -
    have "a \<notin> {iob_tail c1..<iob_end c1}" using that by (auto simp: c1_def)
    then show ?thesis using IH(6) mem1 [OF that] same(1) by simp
  qed
  have blocks: "iob_blocks c' = iob_blocks c" using IH(4) by (simp add: c1_def)
  show ?case unfolding set using move IH(2,3) contents frame blocks by blast
qed


section \<open>Examples\<close>

lemma sample_heap_inv: "heap_inv (heap_range 4096) set [drop_cached] {} sample_heap"
proof -
  have "hp_other sample_heap = [(4096, 100)]"
    by (simp add: sample_heap_def init_heap_def mpopulate_def empty_heap_def Let_def)
  moreover have "same_mapping (heap_range 4096)" by (auto simp: same_mapping_def heap_range_def HEAP_SIZE_def)
  ultimately show ?thesis using sample_heap_ok drop_cached_ok by (auto simp: heap_inv_def)
qed


text \<open>Two buffers of 28 bytes, with the descriptors behind them.\<close>

definition sample_two :: "(nat \<times> nat) list heap" where
  "sample_two = alloc_take sample_heap 128 [\<lparr>mb_addr = 4352, mb_size = HEAP_SIZE - 256\<rparr>]"

definition sample_iob :: "nat \<Rightarrow> nat \<Rightarrow> io_buffer" where
  "sample_iob data len = \<lparr>iob_addr = data + 28, iob_head = data, iob_data = data + 4, iob_tail = data + 4 + len,
     iob_end = data + 28\<rparr>"

lemma sample_two_inv: "heap_inv (heap_range 4096) (\<lambda>_. {}) [] {(4096, 100), (4224, 100)} sample_two"
proof -
  have "pre_size_of 0 1 0 4224 = 0" by (simp add: pre_size_of_def virt_to_phys_def align_mask_def)
  moreover have "hp_free sample_heap = [\<lparr>mb_addr = 4224, mb_size = HEAP_SIZE - 128\<rparr>]" by (simp add: sample_heap_def)
  ultimately have "alloc_search 0 128 1 0 (hp_free sample_heap) =
      Some ([\<lparr>mb_addr = 4352, mb_size = HEAP_SIZE - 256\<rparr>], 4224)"
    by (simp add: HEAP_SIZE_def)
  then have "alloc_memblock 0 [] sample_heap 100 1 0 = Some (sample_two, 4224)"
    unfolding alloc_memblock_def sample_actual Let_def by (subst alloc_loop.simps) (simp add: sample_two_def)
  from heap_reachable.alloc [OF sample_reachable _ _ this]
  have "heap_reachable 0 4096 (\<lambda>offset. 32 dvd offset) sample_two {(4096, 100), (4224, 100)}"
    by (simp add: insert_commute)
  then have "heap_ok (heap_range 4096) {(4096, 100), (4224, 100)} sample_two"
    by (rule heap_reachable_heap_ok) (simp_all add: HEAP_SIZE_def)
  moreover have "same_mapping (heap_range 4096)" by (auto simp: same_mapping_def heap_range_def HEAP_SIZE_def)
  ultimately show ?thesis by (auto simp: heap_inv_def)
qed


end
