(* ===== verification/Tcpip.thy ===== *)
theory Tcpip
  imports Prelude
begin

text \<open>
  The transport-network layer interface (net/tcpip.c, include/ipxe/tcpip.h): dispatch of packets to
  the protocols, the checksum of the Internet protocols, and the choice of a local port.

  Packets are the lists of their bytes and the tables of protocols are lists; the methods of the
  protocols are functions on the state \<open>'s\<close> of the rest of the system.  Words are little-endian, as
  on the machines the program is built for.
\<close>

unbundle bit_operations_syntax

section \<open>Protocols\<close>

definition TCPIP_BIND_PRIVILEGED :: u16 where
  "TCPIP_BIND_PRIVILEGED = 0x0400"

definition TCPIP_EMPTY_CSUM :: u16 where
  "TCPIP_EMPTY_CSUM = 0x0000"

record sockaddr_tcpip =
  st_family :: u16
  st_flags :: u16
  st_port :: u16
  st_scope_id :: u16
  st_addr :: "u8 list"

record ip_statistics =
  in_delivers :: nat
  in_unknown_protos :: nat

record 's tcpip_protocol =
  tp_rx :: "'s \<Rightarrow> u8 list \<Rightarrow> sockaddr_tcpip \<Rightarrow> sockaddr_tcpip \<Rightarrow> u16 \<Rightarrow> 's \<times> unit result"
  tp_zero_csum :: u16
  tp_proto :: u8

record 's tcpip_net_protocol_t =
  tn_family :: u16
  tn_header_len :: nat
  tn_tx :: "'s \<Rightarrow> u8 list \<Rightarrow> 's tcpip_protocol \<Rightarrow> sockaddr_tcpip option \<Rightarrow> sockaddr_tcpip \<Rightarrow>
            nat option \<Rightarrow> nat option \<Rightarrow> 's \<times> unit result"
  tn_netdev :: "'s \<Rightarrow> sockaddr_tcpip \<Rightarrow> nat option"

fun tcpip_rx ::
  "'s tcpip_protocol list \<Rightarrow> 's \<Rightarrow> ip_statistics \<Rightarrow> u8 list \<Rightarrow> u8 \<Rightarrow> sockaddr_tcpip \<Rightarrow> sockaddr_tcpip \<Rightarrow>
   u16 \<Rightarrow> 's \<times> ip_statistics \<times> unit result" where
  "tcpip_rx [] s stats iobuf proto st_src st_dest pshdr_csum =
     (s, stats\<lparr>in_unknown_protos := in_unknown_protos stats + 1\<rparr>, Inl EPROTONOSUPPORT)"
| "tcpip_rx (tcpip # protocols) s stats iobuf proto st_src st_dest pshdr_csum =
     (if tp_proto tcpip = proto
      then (case tp_rx tcpip s iobuf st_src st_dest pshdr_csum of
              (s, rc) \<Rightarrow> (s, stats\<lparr>in_delivers := in_delivers stats + 1\<rparr>, rc))
      else tcpip_rx protocols s stats iobuf proto st_src st_dest pshdr_csum)"

definition tcpip_net_protocol :: "'s tcpip_net_protocol_t list \<Rightarrow> u16 \<Rightarrow> 's tcpip_net_protocol_t option" where
  "tcpip_net_protocol nets family = find (\<lambda>net. tn_family net = family) nets"

definition tcpip_tx ::
  "'s tcpip_net_protocol_t list \<Rightarrow> 's \<Rightarrow> u8 list \<Rightarrow> 's tcpip_protocol \<Rightarrow> sockaddr_tcpip option \<Rightarrow>
   sockaddr_tcpip \<Rightarrow> nat option \<Rightarrow> nat option \<Rightarrow> 's \<times> unit result" where
  "tcpip_tx nets s iobuf protocol st_src st_dest netdev trans_csum =
     (case tcpip_net_protocol nets (st_family st_dest) of
        Some net \<Rightarrow> tn_tx net s iobuf protocol st_src st_dest netdev trans_csum
      | None \<Rightarrow> (s, Inl EAFNOSUPPORT))"

definition tcpip_netdev :: "'s tcpip_net_protocol_t list \<Rightarrow> 's \<Rightarrow> sockaddr_tcpip \<Rightarrow> nat option" where
  "tcpip_netdev nets s st_dest =
     (case tcpip_net_protocol nets (st_family st_dest) of
        Some net \<Rightarrow> tn_netdev net s st_dest
      | None \<Rightarrow> None)"

text \<open>The maximum transmission unit of a device is an argument.  The difference wraps around.\<close>

definition tcpip_mtu :: "'s tcpip_net_protocol_t list \<Rightarrow> ('s \<Rightarrow> nat \<Rightarrow> nat) \<Rightarrow> 's \<Rightarrow> sockaddr_tcpip \<Rightarrow> nat" where
  "tcpip_mtu nets netdev_mtu s st_dest =
     (case tcpip_net_protocol nets (st_family st_dest) of
        None \<Rightarrow> 0
      | Some net \<Rightarrow>
          (case tn_netdev net s st_dest of
             None \<Rightarrow> 0
           | Some netdev \<Rightarrow>
               unat (word_of_nat (netdev_mtu s netdev) - word_of_nat (tn_header_len net) :: u64)))"

section \<open>The checksum\<close>

text \<open>
  The loop over the bytes; \<open>i\<close> is the index of the next byte.  An odd byte is swapped within its
  sixteen bits.
\<close>

fun chksum_loop :: "u32 \<Rightarrow> nat \<Rightarrow> u8 list \<Rightarrow> u32" where
  "chksum_loop cksum i [] = cksum"
| "chksum_loop cksum i (b # data) =
     (let v = (if odd i then push_bit 8 (ucast b) else ucast b);
          cksum = cksum + v;
          cksum = (if cksum > 0xffff then cksum - 0xffff else cksum)
      in chksum_loop cksum (i + 1) data)"

definition generic_tcpip_continue_chksum :: "u16 \<Rightarrow> u8 list \<Rightarrow> u16" where
  "generic_tcpip_continue_chksum partial data =
     ucast (NOT (chksum_loop (NOT (ucast partial) AND 0xffff) 0 data))"

definition tcpip_chksum :: "u8 list \<Rightarrow> u16" where
  "tcpip_chksum data = generic_tcpip_continue_chksum TCPIP_EMPTY_CSUM data"

section \<open>Binding to a port\<close>

fun bind_loop :: "(u16 \<Rightarrow> u16 result) \<Rightarrow> u16 \<Rightarrow> u16 \<Rightarrow> u32 \<Rightarrow> u32 list \<Rightarrow> u16 result" where
  "bind_loop available min_port max_port offset [] = Inl EADDRINUSE"
| "bind_loop available min_port max_port offset (i # is) =
     (let try_port = ucast ((i + offset) AND ucast max_port)
      in if try_port < min_port then bind_loop available min_port max_port offset is
         else case available try_port of
                Inl _ \<Rightarrow> bind_loop available min_port max_port offset is
              | Inr _ \<Rightarrow> Inr try_port)"

definition tcpip_bind :: "u32 \<Rightarrow> sockaddr_tcpip option \<Rightarrow> (u16 \<Rightarrow> u16 result) \<Rightarrow> u16 result" where
  "tcpip_bind random st_local available =
     (let (flags, try_port) = (case st_local of Some st \<Rightarrow> (st_flags st, st_port st) | None \<Rightarrow> (0, 0))
      in if try_port \<noteq> 0 then available try_port
         else
           let min_port = (NOT flags AND TCPIP_BIND_PRIVILEGED) + 1;
               max_port = (flags AND TCPIP_BIND_PRIVILEGED) - 1
           in bind_loop available min_port max_port random (map word_of_nat [0..<unat max_port + 1]))"

section \<open>Arithmetic of the checksum\<close>

text \<open>The sum of the sixteen-bit words of the data, the first byte of each the low one.\<close>

definition byte_value :: "nat \<Rightarrow> u8 \<Rightarrow> nat" where
  "byte_value i b = (if odd i then 256 * unat b else unat b)"

fun word_sum :: "nat \<Rightarrow> u8 list \<Rightarrow> nat" where
  "word_sum i [] = 0"
| "word_sum i (b # data) = byte_value i b + word_sum (i + 1) data"

lemma word_sum_append: "word_sum i (xs @ ys) = word_sum i xs + word_sum (i + length xs) ys"
  by (induction xs arbitrary: i) simp_all

lemma word_sum_even: "word_sum (2 + i) xs = word_sum i xs"
proof (induction xs arbitrary: i)
  case (Cons b xs)
  have "word_sum (2 + i + 1) xs = word_sum (2 + (i + 1)) xs" by (simp add: add.assoc)
  then show ?case using Cons.IH [of "i + 1"] by (simp add: byte_value_def)
qed simp

lemma word_sum_even_offset: "even n \<Longrightarrow> word_sum n xs = word_sum 0 xs"
proof (induction n rule: less_induct)
  case (less n)
  show ?case
  proof (cases "n = 0")
    case False
    then have n: "n = 2 + (n - 2)" and small: "n - 2 < n" and even: "even (n - 2)"
      using less.prems by (cases "n = 1"; simp)+
    have "word_sum n xs = word_sum (2 + (n - 2)) xs" using n by argo
    also have "\<dots> = word_sum (n - 2) xs" by (rule word_sum_even)
    finally show ?thesis using less.IH [OF small even] by simp
  qed simp
qed

lemma unat_byte_value:
  "unat (if odd i then push_bit 8 (ucast b) else ucast b :: u32) = byte_value i b"
proof -
  have b: "unat b < 256" by (rule unat_u8_less)
  have "unat b mod 4294967296 = unat b" "unat b * 256 mod 4294967296 = unat b * 256"
    using b by (intro mod_less; linarith)+
  then have "unat (push_bit 8 (ucast b :: u32)) = 256 * unat b"
    unfolding unsigned_push_bit_eq by (simp add: push_bit_eq_mult take_bit_eq_mod unsigned_ucast_eq)
  moreover have "unat (ucast b :: u32) = unat b"
    using \<open>unat b mod 4294967296 = unat b\<close> by (simp add: unsigned_ucast_eq take_bit_eq_mod)
  ultimately show ?thesis by (simp add: byte_value_def)
qed

lemma byte_value_bound: "byte_value i b \<le> 65280"
proof -
  have "unat b < 256" by (rule unat_u8_less)
  then have "unat b \<le> 255" "unat b \<le> 65280" by linarith+
  then show ?thesis by (simp add: byte_value_def)
qed

lemma chksum_loop_spec:
  assumes "1 \<le> unat c" and "unat c \<le> 65535"
  shows "1 \<le> unat (chksum_loop c i data) \<and> unat (chksum_loop c i data) \<le> 65535 \<and>
    unat (chksum_loop c i data) mod 65535 = (unat c + word_sum i data) mod 65535"
  using assms
proof (induction data arbitrary: c i)
  case (Cons b data)
  define v :: u32 where "v = (if odd i then push_bit 8 (ucast b) else ucast b)"
  define c' where "c' = (if c + v > 0xffff then c + v - 0xffff else c + v)"
  have v: "unat v = byte_value i b" unfolding v_def by (rule unat_byte_value)
  have vb: "unat v \<le> 65280" unfolding v by (rule byte_value_bound)
  have sum: "unat (c + v) = unat c + unat v" using Cons.prems vb by (intro unat_add_lem [THEN iffD1]) simp
  have c': "unat c' = (if unat c + unat v > 65535 then unat c + unat v - 65535 else unat c + unat v)"
  proof (cases "c + v > 0xffff")
    case True
    then have "unat (c + v - 0xffff) = unat (c + v) - unat (0xffff :: u32)" by (intro unat_sub) simp
    then show ?thesis using True sum by (simp add: c'_def word_less_nat_alt)
  next
    case False
    then show ?thesis using sum by (simp add: c'_def word_less_nat_alt)
  qed
  then have "1 \<le> unat c'" "unat c' \<le> 65535" using Cons.prems vb by auto
  moreover have "(unat c' + n) mod 65535 = (unat c + unat v + n) mod 65535" for n
  proof (cases "unat c + unat v > 65535")
    case True
    then have "unat c + unat v + n = unat c' + n + 65535" using c' by simp
    then show ?thesis by (simp only: mod_add_self2)
  next
    case False
    then show ?thesis using c' by simp
  qed
  moreover have "chksum_loop c i (b # data) = chksum_loop c' (i + 1) data" by (simp add: v_def c'_def)
  ultimately show ?case using Cons.IH [of c' "i + 1"] by (simp add: v add.assoc)
qed simp

lemma unat_not_u16: "unat (x :: u32) \<le> 65535 \<Longrightarrow> unat (ucast (NOT x) :: u16) = 65535 - unat x"
proof -
  assume x: "unat x \<le> 65535"
  have "NOT x = - 1 - x" by (simp add: not_eq_complement)
  moreover have "unat (- 1 - x) = unat (- 1 :: u32) - unat x" by (rule unat_sub) simp
  ultimately have "unat (NOT x) = 4294967295 - unat x" by (simp add: unsigned_minus_1_eq_mask mask_eq_exp_minus_1)
  then have "unat (ucast (NOT x) :: u16) = (4294967295 - unat x) mod 65536"
    by (simp add: unsigned_ucast_eq take_bit_eq_mod)
  also have "\<dots> = 65535 - unat x"
  proof -
    have "4294967295 - unat x = (65535 - unat x) + 65535 * 65536" using x by simp
    moreover have "65535 - unat x < 65536" by simp
    ultimately show ?thesis by (simp only: mod_mult_self1 mod_less)
  qed
  finally show ?thesis .
qed

lemma continue_chksum_spec:
  assumes "partial \<noteq> 0xffff"
  shows "unat (generic_tcpip_continue_chksum partial data) < 65535"
    and "(65535 - unat (generic_tcpip_continue_chksum partial data)) mod 65535 =
         (65535 - unat partial + word_sum 0 data) mod 65535"
proof -
  define c :: u32 where "c = NOT (ucast partial) AND 0xffff"
  have p: "unat partial < 65535"
  proof -
    have "unat partial \<noteq> 65535" using assms by (auto simp: word_unat_eq_iff)
    then show ?thesis using unat_u16_less [of partial] by linarith
  qed
  then have "unat (ucast partial :: u32) = unat partial" by (simp add: unsigned_ucast_eq take_bit_eq_mod)
  then have "unat (ucast (NOT (ucast partial :: u32)) :: u16) = 65535 - unat partial"
    using p unat_not_u16 [of "ucast partial"] by simp
  moreover have "c = take_bit 16 (NOT (ucast partial :: u32))"
    unfolding c_def take_bit_eq_mask by (simp add: mask_eq_exp_minus_1)
  ultimately have c: "unat c = 65535 - unat partial"
    by (simp only: unsigned_take_bit_eq unsigned_ucast_eq) simp
  then have "1 \<le> unat c" "unat c \<le> 65535" using p by simp_all
  note spec = chksum_loop_spec [OF this, of 0 data]
  have r: "unat (generic_tcpip_continue_chksum partial data) = 65535 - unat (chksum_loop c 0 data)"
    unfolding generic_tcpip_continue_chksum_def c_def [symmetric] using spec by (intro unat_not_u16) simp
  show "unat (generic_tcpip_continue_chksum partial data) < 65535" using r spec by linarith
  show "(65535 - unat (generic_tcpip_continue_chksum partial data)) mod 65535 =
         (65535 - unat partial + word_sum 0 data) mod 65535"
    using r spec c by simp
qed

lemma continue_chksum_cong:
  assumes "p \<noteq> 0xffff" and "q \<noteq> 0xffff"
    and "(65535 - unat p + word_sum 0 xs) mod 65535 = (65535 - unat q + word_sum 0 ys) mod 65535"
  shows "generic_tcpip_continue_chksum p xs = generic_tcpip_continue_chksum q ys"
proof -
  define a b where "a = unat (generic_tcpip_continue_chksum p xs)"
    and "b = unat (generic_tcpip_continue_chksum q ys)"
  have ab: "a < 65535" "b < 65535" "(65535 - a) mod 65535 = (65535 - b) mod 65535"
    using continue_chksum_spec [OF assms(1), of xs] continue_chksum_spec [OF assms(2), of ys] assms(3)
    by (simp_all add: a_def b_def)
  have "a = b" using ab by (cases "a = 0"; cases "b = 0") simp_all
  then show ?thesis by (simp add: a_def b_def word_unat_eq_iff)
qed

lemma continue_chksum_eq_0:
  "p \<noteq> 0xffff \<Longrightarrow>
   generic_tcpip_continue_chksum p xs = 0 \<longleftrightarrow> 65535 dvd (65535 - unat p + word_sum 0 xs)"
  using continue_chksum_spec [of p xs]
  by (cases "unat (generic_tcpip_continue_chksum p xs) = 0") (auto simp: dvd_eq_mod_eq_0 unat_eq_zero)

lemma continue_chksum_not_ffff: "p \<noteq> 0xffff \<Longrightarrow> generic_tcpip_continue_chksum p xs \<noteq> 0xffff"
  using continue_chksum_spec(1) [of p xs] by auto

lemma continue_chksum_append:
  assumes "p \<noteq> 0xffff" and "even (length xs)"
  shows "generic_tcpip_continue_chksum p (xs @ ys) =
         generic_tcpip_continue_chksum (generic_tcpip_continue_chksum p xs) ys"
proof (rule continue_chksum_cong [OF assms(1)])
  show "generic_tcpip_continue_chksum p xs \<noteq> 0xffff" by (rule continue_chksum_not_ffff [OF assms(1)])
  define q where "q = generic_tcpip_continue_chksum p xs"
  have "(65535 - unat p + word_sum 0 xs + word_sum 0 ys) mod 65535 = (65535 - unat q + word_sum 0 ys) mod 65535"
    by (rule mod_add_cong [OF continue_chksum_spec(2) [OF assms(1), of xs, folded q_def, symmetric] refl])
  then show "(65535 - unat p + word_sum 0 (xs @ ys)) mod 65535 = (65535 - unat q + word_sum 0 ys) mod 65535"
    using word_sum_even_offset [OF assms(2), of ys] by (simp only: word_sum_append add_0 add.assoc)
qed

lemma word_sum_update:
  "i < length xs \<Longrightarrow>
   word_sum n (xs[i := b]) + byte_value (n + i) (xs ! i) = word_sum n xs + byte_value (n + i) b"
proof (induction xs arbitrary: n i)
  case (Cons x xs)
  show ?case
  proof (cases i)
    case (Suc j)
    then show ?thesis using Cons.IH [of j "n + 1"] Cons.prems by simp
  qed simp
qed simp

text \<open>A sixteen-bit value is stored low byte first.\<close>

definition store_u16 :: "nat \<Rightarrow> u16 \<Rightarrow> u8 list \<Rightarrow> u8 list" where
  "store_u16 k v xs = xs[k := ucast v, k + 1 := ucast (drop_bit 8 v)]"

lemma byte_value_u16:
  "even k \<Longrightarrow> byte_value k (ucast v) + byte_value (k + 1) (ucast (drop_bit 8 v)) = unat (v :: u16)"
proof -
  have v: "unat v < 65536" by (rule unat_u16_less)
  have "unat (ucast v :: u8) = unat v mod 256" by (simp add: unsigned_ucast_eq take_bit_eq_mod)
  moreover have "unat (ucast (drop_bit 8 v) :: u8) = unat v div 256"
  proof -
    have "unat v div 256 < 256" using v by linarith
    moreover have "unat (drop_bit 8 v) = unat v div 256" unfolding unsigned_drop_bit_eq
      using v by (simp add: drop_bit_eq_div take_bit_eq_mod)
    ultimately show ?thesis unfolding unsigned_ucast_eq by (simp only: take_bit_eq_mod) simp
  qed
  ultimately show "even k \<Longrightarrow> ?thesis" by (simp add: byte_value_def)
qed

lemma byte_value_0: "byte_value i 0 = 0"
  by (simp add: byte_value_def)

lemma word_sum_store_u16:
  assumes "even k" and "k + 1 < length xs" and "xs ! k = 0" and "xs ! (k + 1) = 0"
  shows "word_sum 0 (store_u16 k v xs) = word_sum 0 xs + unat v"
proof -
  have "word_sum 0 (xs[k := ucast v]) = word_sum 0 xs + byte_value k (ucast v)"
    using word_sum_update [of k xs 0 "ucast v"] assms by (simp add: byte_value_0)
  moreover have "word_sum 0 (store_u16 k v xs) =
      word_sum 0 (xs[k := ucast v]) + byte_value (k + 1) (ucast (drop_bit 8 v))"
    unfolding store_u16_def
    using word_sum_update [of "k + 1" "xs[k := ucast v]" 0 "ucast (drop_bit 8 v)"] assms
    by (simp add: byte_value_0)
  ultimately show ?thesis using byte_value_u16 [OF assms(1), of v] by linarith
qed

lemma byte_value_inj_mod:
  assumes "i + byte_value n a = j + byte_value n b" and "65535 dvd (m + i)" and "65535 dvd (m + j)"
  shows "a = b"
proof -
  define d where "d = int (byte_value n a) - int (byte_value n b)"
  have "(65535 :: int) dvd int (m + j) - int (m + i)"
    using assms(2,3) by (intro dvd_diff) (simp_all only: int_dvd_int_iff [symmetric] of_nat_numeral)
  moreover have "int (m + j) - int (m + i) = d" using assms(1) unfolding d_def by linarith
  ultimately have "65535 dvd d" by simp
  moreover have "byte_value n a \<le> 65280" "byte_value n b \<le> 65280" by (rule byte_value_bound)+
  then have "\<bar>d\<bar> < 65535" unfolding d_def by linarith
  ultimately have "d = 0" using zdvd_not_zless [of "\<bar>d\<bar>" 65535] by fastforce
  then show ?thesis unfolding d_def byte_value_def by (auto simp: word_unat_eq_iff split: if_splits)
qed

text \<open>
  C12: The checksum of a packet protects it.  A packet whose checksum field (two bytes at an even
  offset) is zero is summed on top of a partial checksum, as the sender does with the
  pseudo-header, and the result is stored in the field.  The receiver's sum over the packet as sent
  is then zero; the receiver's sum is different from zero when any one byte of the packet is
  changed; and summing the packet in two parts, split at any even offset, gives the same
  result as summing it at once.  The negative zero \<open>0xffff\<close> is never returned.
\<close>

theorem tcpip_checksum_protects:
  fixes packet :: "u8 list" and partial :: u16 and k :: nat
  defines "csum \<equiv> generic_tcpip_continue_chksum partial packet"
  defines "sent \<equiv> store_u16 k csum packet"
  assumes "partial \<noteq> 0xffff" and "even k" and "k + 1 < length packet"
    and "packet ! k = 0" and "packet ! (k + 1) = 0"
  shows "csum \<noteq> 0xffff \<and> generic_tcpip_continue_chksum partial sent = 0 \<and>
    (\<forall>i b. i < length packet \<longrightarrow> b \<noteq> sent ! i \<longrightarrow>
       generic_tcpip_continue_chksum partial (sent[i := b]) \<noteq> 0) \<and>
    (\<forall>n. even n \<longrightarrow>
       generic_tcpip_continue_chksum (generic_tcpip_continue_chksum partial (take n packet)) (drop n packet) = csum)"
proof (intro conjI allI impI)
  show "csum \<noteq> 0xffff" unfolding csum_def by (rule continue_chksum_not_ffff [OF assms(3)])
  have "unat csum < 65535" and "(65535 - unat csum) mod 65535 = (65535 - unat partial + word_sum 0 packet) mod 65535"
    unfolding csum_def using continue_chksum_spec [OF assms(3)] by simp_all
  then have "(65535 - unat partial + word_sum 0 packet + unat csum) mod 65535 = (65535 - unat csum + unat csum) mod 65535"
    by (intro mod_add_cong) simp_all
  then have zero: "65535 dvd 65535 - unat partial + word_sum 0 sent"
    using \<open>unat csum < 65535\<close>
    unfolding sent_def word_sum_store_u16 [OF assms(4-7)] by (simp add: dvd_eq_mod_eq_0 add.assoc)
  then show "generic_tcpip_continue_chksum partial sent = 0" by (simp add: continue_chksum_eq_0 [OF assms(3)])
  fix i b assume "i < length packet" and b: "b \<noteq> sent ! i"
  then have "word_sum 0 (sent[i := b]) + byte_value i (sent ! i) = word_sum 0 sent + byte_value i b"
    using word_sum_update [of i sent 0 b] by (simp add: sent_def store_u16_def)
  then have "\<not> 65535 dvd 65535 - unat partial + word_sum 0 (sent[i := b])"
    using byte_value_inj_mod [OF _ _ zero] b by blast
  then show "generic_tcpip_continue_chksum partial (sent[i := b]) \<noteq> 0"
    by (simp add: continue_chksum_eq_0 [OF assms(3)])
next
  fix n :: nat assume n: "even n"
  show "generic_tcpip_continue_chksum (generic_tcpip_continue_chksum partial (take n packet)) (drop n packet) = csum"
  proof (cases "n \<le> length packet")
    case True
    then show ?thesis using n continue_chksum_append [OF assms(3), of "take n packet" "drop n packet"]
      by (simp add: csum_def)
  next
    case False
    define q where "q = generic_tcpip_continue_chksum partial packet"
    have q: "q \<noteq> 0xffff" unfolding q_def by (rule continue_chksum_not_ffff [OF assms(3)])
    have "generic_tcpip_continue_chksum q [] = generic_tcpip_continue_chksum partial packet"
      by (rule continue_chksum_cong [OF q assms(3)])
        (use continue_chksum_spec(2) [OF assms(3), of packet, folded q_def] in simp)
    then show ?thesis using False by (simp add: csum_def q_def)
  qed
qed

theorem tcpip_checksum_protects_witness:
  "generic_tcpip_continue_chksum 0x1234 (store_u16 2
     (generic_tcpip_continue_chksum 0x1234 [0x45, 0x99, 0, 0, 0x7f]) [0x45, 0x99, 0, 0, 0x7f]) = 0 \<and>
   generic_tcpip_continue_chksum 0x1234 [0x45, 0x99, 0, 0, 0x7f] = 0x786f"
proof
  show "generic_tcpip_continue_chksum 0x1234 (store_u16 2
     (generic_tcpip_continue_chksum 0x1234 [0x45, 0x99, 0, 0, 0x7f]) [0x45, 0x99, 0, 0, 0x7f]) = 0"
    using tcpip_checksum_protects [of "0x1234" 2 "[0x45, 0x99, 0, 0, 0x7f]"] by simp
  show "generic_tcpip_continue_chksum 0x1234 [0x45, 0x99, 0, 0, 0x7f] = 0x786f" by code_simp
qed

section \<open>Binding to a port: correctness\<close>

lemma bind_loop_spec:
  "case bind_loop available min_port max_port offset js of
     Inr p \<Rightarrow> min_port \<le> p \<and> (\<exists>i \<in> set js. p = ucast ((i + offset) AND ucast max_port)) \<and> \<not> isl (available p)
   | Inl e \<Rightarrow> e = EADDRINUSE \<and>
       (\<forall>i \<in> set js. min_port \<le> ucast ((i + offset) AND ucast max_port) \<longrightarrow>
          isl (available (ucast ((i + offset) AND ucast max_port))))"
  by (induction js) (auto simp: Let_def not_less split: sum.splits)

lemma unat_mask: "n \<le> LENGTH('a) \<Longrightarrow> unat (mask n :: 'a::len word) = 2 ^ n - 1"
proof -
  assume n: "n \<le> LENGTH('a)"
  have "unat (mask n :: 'a word) = unat (take_bit n (- 1) :: 'a word)" by simp
  also have "\<dots> = take_bit n (mask LENGTH('a))" by (simp only: unsigned_take_bit_eq unsigned_minus_1_eq_mask)
  also have "\<dots> = mask n" using n by (auto intro!: bit_eqI simp: bit_simps)
  finally show ?thesis by (simp add: mask_eq_exp_minus_1)
qed

lemma take_bit_eq_self_mask: "n \<le> LENGTH('a) \<Longrightarrow> take_bit n w = w \<longleftrightarrow> w \<le> mask n" for w :: "'a::len word"
proof -
  assume n: "n \<le> LENGTH('a)"
  have "take_bit n w = w \<longleftrightarrow> take_bit n (unat w) = unat w"
    by (metis unsigned_take_bit_eq unsigned_word_eqI)
  also have "\<dots> \<longleftrightarrow> unat w < 2 ^ n" by (rule take_bit_nat_eq_self_iff)
  also have "\<dots> \<longleftrightarrow> unat w \<le> unat (mask n :: 'a word)"
    using n by (simp add: unat_mask) (metis Suc_pred' less_Suc_eq_le zero_less_power zero_less_numeral One_nat_def)
  finally show ?thesis by (simp add: word_le_nat_alt)
qed

text \<open>The ports that are tried are those of the mask, wherever the search starts.\<close>

lemma bind_ports:
  fixes offset :: u32 and p :: u16
  assumes "n \<le> 16" and "p \<le> mask n"
  shows "\<exists>i \<in> set (map word_of_nat [0..<unat (mask n :: u16) + 1]). p = ucast ((i + offset) AND ucast (mask n :: u16))"
proof -
  define i where "i = take_bit n (ucast p - offset)"
  have mask: "ucast (mask n :: u16) = (mask n :: u32)"
    using assms(1) by (auto intro!: bit_word_eqI simp: bit_simps)
  have "(i + offset) AND ucast (mask n :: u16) = take_bit n (offset + take_bit n (ucast p - offset))"
    by (simp add: mask i_def take_bit_eq_mask add.commute)
  also have "\<dots> = take_bit n (ucast p)"
    using assms(1) by (subst take_bit_add_word) simp_all
  finally have "ucast ((i + offset) AND ucast (mask n :: u16)) = take_bit n p"
    using assms(1) by (auto intro!: bit_word_eqI simp: bit_simps)
  moreover have "take_bit n p = p"
    using assms by (simp add: take_bit_eq_self_mask)
  moreover have "i \<in> set (map word_of_nat [0..<unat (mask n :: u16) + 1])"
  proof -
    have "i \<le> mask n" unfolding i_def using assms(1) by (simp add: take_bit_eq_self_mask [symmetric])
    then have "unat i \<le> unat (mask n :: u16)"
      unfolding word_le_nat_alt using assms(1) by (simp add: unat_mask)
    then have "unat i \<in> set [0..<unat (mask n :: u16) + 1]" unfolding set_upt by simp
    then show ?thesis unfolding set_map by (rule image_eqI [rotated]) simp
  qed
  ultimately show ?thesis by metis
qed

text \<open>The range of ports that the flags ask for.\<close>

definition bind_range :: "u16 \<Rightarrow> u16 \<Rightarrow> bool" where
  "bind_range flags p \<longleftrightarrow>
     (if flags AND TCPIP_BIND_PRIVILEGED = 0 then 1025 \<le> p else 1 \<le> p \<and> p \<le> 1023)"

lemma and_single_bit:
  fixes w p :: u16
  assumes "\<And>n. bit p n \<longleftrightarrow> n = k"
  shows "w AND p = (if bit w k then p else 0)"
  by (rule bit_word_eqI) (auto simp: bit_and_iff assms)

lemma bit_privileged: "bit TCPIP_BIND_PRIVILEGED n \<longleftrightarrow> n = 10"
proof -
  have "TCPIP_BIND_PRIVILEGED = push_bit 10 1" by (simp add: TCPIP_BIND_PRIVILEGED_def)
  then have "bit TCPIP_BIND_PRIVILEGED n \<longleftrightarrow> bit (push_bit 10 1 :: u16) n" by (rule arg_cong)
  also have "\<dots> \<longleftrightarrow> n = 10" unfolding bit_push_bit_iff bit_1_iff by (auto simp: possible_bit_word)
  finally show ?thesis .
qed

lemmas and_privileged = and_single_bit [OF bit_privileged]

lemma bind_range_mask:
  fixes flags :: u16
  shows "\<exists>n \<le> 16. (flags AND TCPIP_BIND_PRIVILEGED) - 1 = mask n \<and>
    (\<forall>p. bind_range flags p \<longleftrightarrow> (NOT flags AND TCPIP_BIND_PRIVILEGED) + 1 \<le> p \<and> p \<le> mask n)"
proof (cases "bit flags 10")
  case True
  then have *: "flags AND TCPIP_BIND_PRIVILEGED = TCPIP_BIND_PRIVILEGED"
      "NOT flags AND TCPIP_BIND_PRIVILEGED = 0"
    by (simp_all add: and_privileged bit_not_iff)
  have m: "(0x400 :: u16) - 1 = mask 10" "mask 10 = (1023 :: u16)"
    by (simp_all add: mask_eq_exp_minus_1)
  have "bind_range flags p \<longleftrightarrow> 1 \<le> p \<and> p \<le> 1023" for p
    unfolding bind_range_def * by (simp add: TCPIP_BIND_PRIVILEGED_def)
  then show ?thesis unfolding * unfolding TCPIP_BIND_PRIVILEGED_def m(1)
    by (intro exI [of _ 10]) (simp add: m(2))
next
  case False
  then have *: "flags AND TCPIP_BIND_PRIVILEGED = 0"
      "NOT flags AND TCPIP_BIND_PRIVILEGED = TCPIP_BIND_PRIVILEGED"
    by (simp_all add: and_privileged bit_not_iff)
  have m: "(0 :: u16) - 1 = mask 16" by (simp add: mask_eq_exp_minus_1)
  have le: "p \<le> mask 16" for p :: u16
    using take_bit_eq_self_mask [of 16 p] take_bit_length_eq [of p] by simp
  have "bind_range flags p \<longleftrightarrow> 1025 \<le> p" for p
    unfolding bind_range_def * by simp
  then show ?thesis unfolding * m unfolding TCPIP_BIND_PRIVILEGED_def
    by (intro exI [of _ 16]) (simp add: le del: mask_numeral)
qed

lemma bind_search:
  fixes flags :: u16
  defines "min_port \<equiv> (NOT flags AND TCPIP_BIND_PRIVILEGED) + 1"
    and "max_port \<equiv> (flags AND TCPIP_BIND_PRIVILEGED) - 1"
  shows "case bind_loop available min_port max_port random (map word_of_nat [0..<unat max_port + 1]) of
     Inr p \<Rightarrow> bind_range flags p \<and> \<not> isl (available p)
   | Inl e \<Rightarrow> e = EADDRINUSE \<and> (\<forall>p. bind_range flags p \<longrightarrow> isl (available p))"
proof -
  obtain n where n: "n \<le> 16" "max_port = mask n"
    and range: "\<And>p. bind_range flags p \<longleftrightarrow> min_port \<le> p \<and> p \<le> mask n"
    unfolding min_port_def max_port_def using bind_range_mask [of flags] by blast
  have le: "ucast (x AND ucast (mask n :: u16)) \<le> (mask n :: u16)" for x :: u32
  proof -
    have "take_bit n (ucast (x AND ucast (mask n :: u16))) = (ucast (x AND ucast (mask n :: u16)) :: u16)"
      by (auto intro!: bit_word_eqI simp: bit_simps)
    then show ?thesis using n(1) by (simp add: take_bit_eq_self_mask)
  qed
  define js where "js = map (word_of_nat :: nat \<Rightarrow> u32) [0..<unat max_port + 1]"
  show ?thesis
  proof (cases "bind_loop available min_port max_port random js")
    case (Inl e)
    note spec = bind_loop_spec [where available = available and min_port = min_port and max_port = max_port
      and offset = random and js = js]
    then have none: "isl (available (ucast ((i + random) AND ucast max_port)))"
      if "i \<in> set js" "min_port \<le> ucast ((i + random) AND ucast max_port)" for i
      using Inl that by simp
    have "isl (available p)" if r: "bind_range flags p" for p
    proof -
      obtain i where "i \<in> set js" "p = ucast ((i + random) AND ucast max_port)"
        using bind_ports [OF n(1) conjunct2 [OF range [THEN iffD1, OF r]], of random]
        unfolding js_def n(2) by (rule bexE)
      then show ?thesis using none r range by metis
    qed
    then show ?thesis using Inl spec unfolding js_def [symmetric] by simp
  next
    case (Inr p)
    then obtain i where "min_port \<le> p" "p = ucast ((i + random) AND ucast max_port)" "\<not> isl (available p)"
      using bind_loop_spec [where available = available and min_port = min_port and max_port = max_port
      and offset = random and js = js] by auto
    then show ?thesis using Inr le [of "i + random"] unfolding js_def [symmetric] by (simp add: range n(2))
  qed
qed

text \<open>
  C31: Binding to a local port.  An explicit port is used exactly when it is available.  Without
  one, the port that is returned is available and lies in the range that the flags ask for, 1 to
  1023 or 1025 to 65535, for every starting point of the search; and the address is reported to be
  in use only when no port of that range is available.
\<close>

theorem tcpip_bind_correct:
  "case st_local of
     Some st \<Rightarrow>
       if st_port st \<noteq> 0 then tcpip_bind random st_local available = available (st_port st)
       else (case tcpip_bind random st_local available of
               Inr p \<Rightarrow> bind_range (st_flags st) p \<and> \<not> isl (available p)
             | Inl e \<Rightarrow> e = EADDRINUSE \<and> {p. bind_range (st_flags st) p} \<subseteq> {p. isl (available p)})
   | None \<Rightarrow>
       (case tcpip_bind random st_local available of
          Inr p \<Rightarrow> 1025 \<le> p \<and> \<not> isl (available p)
        | Inl e \<Rightarrow> e = EADDRINUSE \<and> {p. 1025 \<le> p} \<subseteq> {p. isl (available p)})"
proof (cases st_local)
  case None
  then show ?thesis using bind_search [where flags = 0 and available = available and random = random]
    by (auto simp: tcpip_bind_def bind_range_def Let_def split: sum.splits)
next
  case (Some st)
  then show ?thesis using bind_search [where flags = "st_flags st" and available = available and random = random]
    by (auto simp: tcpip_bind_def Let_def split: sum.splits)
qed

end
