(* ===== verification/Retry.thy ===== *)
theory Retry
  imports Prelude
begin

text \<open>
  Retry timers (\<^verbatim>\<open>net/retry.c\<close>, \<^verbatim>\<open>include/ipxe/retry.h\<close>).  The current time
  \<open>currticks()\<close> is the argument \<open>now\<close>, an \<open>unsigned long\<close> that wraps around.  The list of
  running timers is a list of the model; the callback and the reference count of a timer belong to
  the component that owns it.
\<close>

definition TICKS_PER_SEC :: u64 where
  "TICKS_PER_SEC = 1024"

definition MIN_TIMEOUT :: u64 where
  "MIN_TIMEOUT = 7"

definition DEFAULT_MIN_TIMEOUT :: u64 where
  "DEFAULT_MIN_TIMEOUT = TICKS_PER_SEC div 4"

definition DEFAULT_MAX_TIMEOUT :: u64 where
  "DEFAULT_MAX_TIMEOUT = 10 * TICKS_PER_SEC"

record retry_timer =
  running :: bool
  timeout :: u64
  tmin :: u64
  tmax :: u64
  tstart :: u64
  tcount :: u32

text \<open>A timer as the allocation of its owner leaves it, all zero.\<close>

definition timer_init :: retry_timer where
  "timer_init = \<lparr>running = False, timeout = 0, tmin = 0, tmax = 0, tstart = 0, tcount = 0\<rparr>"

definition set_timer_limits :: "retry_timer \<Rightarrow> u64 \<Rightarrow> u64 \<Rightarrow> retry_timer" where
  "set_timer_limits timer mn mx = timer\<lparr>tmin := mn, tmax := mx\<rparr>"

definition start_timer_fixed :: "u64 \<Rightarrow> retry_timer \<Rightarrow> u64 \<Rightarrow> retry_timer" where
  "start_timer_fixed now timer t = timer\<lparr>running := True, tstart := now, timeout := t\<rparr>"

definition start_timer_nodelay :: "u64 \<Rightarrow> retry_timer \<Rightarrow> retry_timer" where
  "start_timer_nodelay now timer = start_timer_fixed now timer 0"

definition start_timer :: "u64 \<Rightarrow> retry_timer \<Rightarrow> retry_timer" where
  "start_timer now timer =
     (let mn = (if tmin timer \<noteq> 0 then tmin timer else DEFAULT_MIN_TIMEOUT);
          mn = (if mn < MIN_TIMEOUT then MIN_TIMEOUT else mn);
          t = (if timeout timer < mn then mn else timeout timer)
      in start_timer_fixed now timer t)"

definition stop_timer :: "u64 \<Rightarrow> retry_timer \<Rightarrow> retry_timer" where
  "stop_timer now timer =
     (if \<not> running timer then timer
      else
        let runtime = now - tstart timer;
            timer = timer\<lparr>running := False\<rparr>
        in if tcount timer \<noteq> 0 then timer\<lparr>tcount := tcount timer - 1\<rparr>
           else timer\<lparr>timeout := timeout timer - drop_bit 3 (timeout timer) + drop_bit 1 runtime\<rparr>)"

text \<open>The second component is the failure indicator that is passed to the callback.\<close>

definition timer_expired :: "retry_timer \<Rightarrow> retry_timer \<times> bool" where
  "timer_expired timer =
     (let mx = (if tmax timer \<noteq> 0 then tmax timer else DEFAULT_MAX_TIMEOUT);
          t = push_bit 1 (timeout timer);
          fail = t > mx
      in (timer\<lparr>running := False, tcount := tcount timer + 1, timeout := (if fail then mx else t)\<rparr>, fail))"

text \<open>
  One poll of the list of running timers: at most one timer expires and leaves the list; it is
  returned with its failure indicator.
\<close>

fun retry_poll :: "u64 \<Rightarrow> retry_timer list \<Rightarrow> retry_timer list \<times> (retry_timer \<times> bool) option" where
  "retry_poll now [] = ([], None)"
| "retry_poll now (timer # timers) =
     (if now - tstart timer \<ge> timeout timer then (timers, Some (timer_expired timer))
      else case retry_poll now timers of (timers, r) \<Rightarrow> (timer # timers, r))"

lemma running_simps [simp]:
  "running (start_timer_fixed now timer t)"
  "running (start_timer_nodelay now timer)"
  "running (start_timer now timer)"
  "\<not> running (stop_timer now timer)"
  "\<not> running (fst (timer_expired timer))"
  "\<not> running timer_init"
  by (simp_all add: start_timer_fixed_def start_timer_nodelay_def start_timer_def stop_timer_def
      timer_expired_def timer_init_def Let_def)

section \<open>Polling\<close>

text \<open>A poll reports an expiry exactly when some timer has run for its timeout; it takes the first one.\<close>

lemma retry_poll_spec:
  "case retry_poll now timers of
     (timers', None) \<Rightarrow> timers' = timers \<and> (\<forall>timer \<in> set timers. now - tstart timer < timeout timer)
   | (timers', Some (timer', fail)) \<Rightarrow>
       \<exists>before timer after. timers = before @ timer # after \<and> timers' = before @ after \<and>
         (\<forall>t \<in> set before. now - tstart t < timeout t) \<and> now - tstart timer \<ge> timeout timer \<and>
         timer_expired timer = (timer', fail)"
proof (induction timers)
  case (Cons timer timers)
  show ?case
  proof (cases "now - tstart timer \<ge> timeout timer")
    case True
    then show ?thesis by (cases "timer_expired timer") (auto intro!: exI [of _ "[]"])
  next
    case False
    obtain timers' r where poll: "retry_poll now timers = (timers', r)" by (cases "retry_poll now timers")
    show ?thesis
    proof (cases r)
      case None
      then show ?thesis using Cons.IH False poll by (auto simp: not_le)
    next
      case (Some tf)
      then obtain timer' fail where tf: "r = Some (timer', fail)" by (cases tf) simp
      then obtain before t after where "timers = before @ t # after" "timers' = before @ after"
        "\<forall>t \<in> set before. now - tstart t < timeout t" "now - tstart t \<ge> timeout t"
        "timer_expired t = (timer', fail)"
        using Cons.IH poll by auto
      then have "timer # timers = (timer # before) @ t # after \<and> timer # timers' = (timer # before) @ after \<and>
         (\<forall>t \<in> set (timer # before). now - tstart t < timeout t) \<and> now - tstart t \<ge> timeout t \<and>
         timer_expired t = (timer', fail)"
        using False by (simp add: not_le)
      then have "\<exists>before t after. timer # timers = before @ t # after \<and> timer # timers' = before @ after \<and>
         (\<forall>t \<in> set before. now - tstart t < timeout t) \<and> now - tstart t \<ge> timeout t \<and>
         timer_expired t = (timer', fail)"
        by (intro exI)
      then show ?thesis using False poll tf by simp
    qed
  qed
qed simp

section \<open>Giving up\<close>

text \<open>
  A timer that expires, is restarted by its owner and expires again: the failure indicators of the
  first \<open>n\<close> expiries, with the time of each restart.
\<close>

fun expiries :: "(nat \<Rightarrow> u64) \<Rightarrow> nat \<Rightarrow> retry_timer \<Rightarrow> bool list" where
  "expiries clock 0 timer = []"
| "expiries clock (Suc n) timer =
     (case timer_expired (start_timer (clock n) timer) of
        (timer, fail) \<Rightarrow> fail # expiries clock n timer)"

text \<open>The limits that apply to a timer.\<close>

definition min_timeout :: "retry_timer \<Rightarrow> u64" where
  "min_timeout timer =
     max MIN_TIMEOUT (if tmin timer \<noteq> 0 then tmin timer else DEFAULT_MIN_TIMEOUT)"

definition max_timeout :: "retry_timer \<Rightarrow> u64" where
  "max_timeout timer = (if tmax timer \<noteq> 0 then tmax timer else DEFAULT_MAX_TIMEOUT)"

lemma start_timer_eq:
  "start_timer now timer = start_timer_fixed now timer (max (min_timeout timer) (timeout timer))"
  by (simp add: start_timer_def min_timeout_def max_def Let_def not_le)

lemma timer_expired_eq:
  "timer_expired timer =
     (timer\<lparr>running := False, tcount := tcount timer + 1,
            timeout := min (max_timeout timer) (push_bit 1 (timeout timer))\<rparr>,
      push_bit 1 (timeout timer) > max_timeout timer)"
  by (simp add: timer_expired_def max_timeout_def min_def Let_def not_le)

lemma unat_double: "unat (t :: u64) < 2 ^ 63 \<Longrightarrow> unat (push_bit 1 t) = 2 * unat t"
  by (simp add: push_bit_eq_mult unat_word_ariths)

text \<open>One restart and expiry, on natural numbers.\<close>

lemma expiry_step:
  fixes timer :: retry_timer
  defines "m \<equiv> max (unat (min_timeout timer)) (unat (timeout timer))"
  assumes "m < 2 ^ 63" and "timer_expired (start_timer now timer) = (timer', fail)"
  shows "fail \<longleftrightarrow> 2 * m > unat (max_timeout timer)" and "unat (timeout timer') = min (unat (max_timeout timer)) (2 * m)"
    and "min_timeout timer' = min_timeout timer" and "max_timeout timer' = max_timeout timer"
proof -
  define t where "t = max (min_timeout timer) (timeout timer)"
  have "unat t = m" by (simp add: t_def m_def max_def word_le_nat_alt)
  then have "unat (push_bit 1 t) = 2 * m" using assms(2) unat_double [of t] by (simp only:)
  moreover have "start_timer now timer = start_timer_fixed now timer t" by (simp add: start_timer_eq t_def)
  ultimately show "fail \<longleftrightarrow> 2 * m > unat (max_timeout timer)"
    "unat (timeout timer') = min (unat (max_timeout timer)) (2 * m)"
    "min_timeout timer' = min_timeout timer" "max_timeout timer' = max_timeout timer"
    using assms(3) unfolding timer_expired_eq
    by (auto simp: start_timer_fixed_def max_timeout_def min_timeout_def min_def word_less_nat_alt word_le_nat_alt)
qed

lemma expiries_fail:
  assumes "max (unat (min_timeout timer)) (unat (timeout timer)) * 2 ^ n > unat (max_timeout timer)"
    and "max (unat (min_timeout timer)) (unat (timeout timer)) < 2 ^ 63"
    and "unat (max_timeout timer) < 2 ^ 63" and "0 < n"
  shows "True \<in> set (expiries clock n timer)"
  using assms
proof (induction n arbitrary: timer)
  case (Suc n)
  define m where "m = max (unat (min_timeout timer)) (unat (timeout timer))"
  obtain timer' fail where e: "timer_expired (start_timer (clock n) timer) = (timer', fail)" by fastforce
  note step = expiry_step [OF Suc.prems(2) e, folded m_def]
  show ?case
  proof (cases fail)
    case False
    then have small: "2 * m \<le> unat (max_timeout timer)" using step(1) by simp
    then have t': "unat (timeout timer') = 2 * m" using step(2) by simp
    have "0 < n" using small Suc.prems(1) by (cases n) (auto simp: m_def)
    moreover have m': "max (unat (min_timeout timer')) (unat (timeout timer')) = 2 * m"
      using t' step(3) by (simp add: m_def)
    moreover have "2 * m * 2 ^ n > unat (max_timeout timer)"
      using Suc.prems(1) by (simp add: m_def [symmetric] mult.assoc mult.left_commute)
    moreover have "2 * m < 2 ^ 63" using small Suc.prems(3) by simp
    ultimately have "True \<in> set (expiries clock n timer')"
      using Suc.prems(3) step(4) by (intro Suc.IH) simp_all
    then show ?thesis using e by simp
  qed (simp add: e)
qed simp

lemma default_expiry:
  fixes t :: u64
  shows "timer_expired (start_timer now \<lparr>running = r, timeout = t, tmin = 0, tmax = 0, tstart = s, tcount = k\<rparr>) =
    (let u = push_bit 1 (if t < 256 then 256 else t)
     in (\<lparr>running = False, timeout = (if u > 10240 then 10240 else u), tmin = 0, tmax = 0, tstart = now,
          tcount = k + 1\<rparr>, u > 10240))"
  by (simp add: timer_expired_def start_timer_def start_timer_fixed_def DEFAULT_MIN_TIMEOUT_def
      DEFAULT_MAX_TIMEOUT_def MIN_TIMEOUT_def TICKS_PER_SEC_def Let_def)

lemma new_timer_expiries: "expiries clock 6 timer_init = [False, False, False, False, False, True]"
proof -
  have six: "(6 :: nat) = Suc (Suc (Suc (Suc (Suc (Suc 0)))))" by simp
  show ?thesis unfolding six timer_init_def by (simp add: default_expiry)
qed



text \<open>
  Stopping a timer keeps its timeout at seven ticks or more, the theoretical minimum that the source
  states.
\<close>

lemma stop_timer_minimum:
  assumes "MIN_TIMEOUT \<le> timeout timer" and "unat (timeout timer) < 2 ^ 63"
  shows "MIN_TIMEOUT \<le> timeout (stop_timer now timer)"
proof -
  define t r where "t = unat (timeout timer)" and "r = unat (drop_bit 1 (now - tstart timer))"
  have t: "7 \<le> t" "t < 2 ^ 63" using assms by (simp_all add: t_def MIN_TIMEOUT_def word_le_nat_alt)
  have r: "r < 2 ^ 63" unfolding r_def unsigned_drop_bit_eq
    using unat_word_less_power [of "now - tstart timer"] by (simp add: drop_bit_eq_div take_bit_eq_mod less_mult_imp_div_less)
  have d: "unat (drop_bit 3 (timeout timer)) = t div 8"
    unfolding unsigned_drop_bit_eq t_def using unat_word_less_power [of "timeout timer"]
    by (simp add: drop_bit_eq_div take_bit_eq_mod)
  have "unat (timeout timer - drop_bit 3 (timeout timer)) = t - t div 8"
    unfolding t_def d [unfolded t_def, symmetric]
    by (rule unat_sub) (simp add: word_le_nat_alt d [unfolded t_def])
  then have "unat (timeout timer - drop_bit 3 (timeout timer) + drop_bit 1 (now - tstart timer)) = t - t div 8 + r"
    using t r by (simp add: unat_word_ariths r_def)
  moreover have "7 \<le> t - t div 8" using t(1) by linarith
  ultimately show ?thesis using assms(1)
    by (auto simp: stop_timer_def MIN_TIMEOUT_def word_le_nat_alt Let_def)
qed

end
