(* ===== verification/Tcp.thy ===== *)
theory Tcp
  imports Tcpip Retry "HOL-Library.Sublist"
begin

text \<open>
  The TCP protocol (\<^verbatim>\<open>net/tcp.c\<close>, \<^verbatim>\<open>include/ipxe/tcp.h\<close>): the connection, its state word, the
  transmit and the receive path, the timers, and the list of connections.

  The contents of the I/O buffers on the two queues are byte lists.  The world around a connection is
  explicit: the data transfer interface is a record of what was delivered through it and whether it
  was closed, the packets handed to the network layer are logged in the connection, and what the
  environment answers (the time, whether an allocation succeeds and how many cached packets it
  discarded on the way, the application's window, the result of a transmission) is an argument of the
  handlers.  The application may send and close while data is being delivered to it, and so
  may re-enter the connection.  Debug messages, profiling and reference counts are left out.
\<close>

section \<open>Byte order\<close>

definition be16 :: "u16 \<Rightarrow> u8 list" where
  "be16 v = [ucast (drop_bit 8 v), ucast v]"

definition be32 :: "u32 \<Rightarrow> u8 list" where
  "be32 v = [ucast (drop_bit 24 v), ucast (drop_bit 16 v), ucast (drop_bit 8 v), ucast v]"

definition rd16 :: "u8 list \<Rightarrow> nat \<Rightarrow> u16" where
  "rd16 bs i = push_bit 8 (ucast (bs ! i)) OR ucast (bs ! (i + 1))"

definition rd32 :: "u8 list \<Rightarrow> nat \<Rightarrow> u32" where
  "rd32 bs i = push_bit 24 (ucast (bs ! i)) OR push_bit 16 (ucast (bs ! (i + 1))) OR
     push_bit 8 (ucast (bs ! (i + 2))) OR ucast (bs ! (i + 3))"

section \<open>Constants\<close>

named_theorems tcp_consts \<open>constants of the TCP header file\<close>

definition TCP_OPTION_END :: u8 where [tcp_consts]: "TCP_OPTION_END = 0"

definition TCP_OPTION_NOP :: u8 where [tcp_consts]: "TCP_OPTION_NOP = 1"

definition TCP_OPTION_MSS :: u8 where [tcp_consts]: "TCP_OPTION_MSS = 2"

definition TCP_OPTION_WS :: u8 where [tcp_consts]: "TCP_OPTION_WS = 3"

definition TCP_RX_WINDOW_SCALE :: u8 where [tcp_consts]: "TCP_RX_WINDOW_SCALE = 9"

definition TCP_OPTION_SACK_PERMITTED :: u8 where [tcp_consts]: "TCP_OPTION_SACK_PERMITTED = 4"

definition TCP_OPTION_SACK :: u8 where [tcp_consts]: "TCP_OPTION_SACK = 5"

definition TCP_SACK_MAX :: nat where [tcp_consts]: "TCP_SACK_MAX = 3"

definition TCP_OPTION_TS :: u8 where [tcp_consts]: "TCP_OPTION_TS = 8"

definition TCP_ACK :: u32 where [tcp_consts]: "TCP_ACK = 0x10"

definition TCP_PSH :: u32 where [tcp_consts]: "TCP_PSH = 0x08"

definition TCP_RST :: u32 where [tcp_consts]: "TCP_RST = 0x04"

definition TCP_SYN :: u32 where [tcp_consts]: "TCP_SYN = 0x02"

definition TCP_FIN :: u32 where [tcp_consts]: "TCP_FIN = 0x01"

definition TCP_STATE_SENT :: "u32 \<Rightarrow> u32" where [tcp_consts]: "TCP_STATE_SENT f = f"

definition TCP_FLAGS_SENT :: "u32 \<Rightarrow> u32" where [tcp_consts]: "TCP_FLAGS_SENT st = st AND 0xff"

definition TCP_STATE_ACKED :: "u32 \<Rightarrow> u32" where [tcp_consts]: "TCP_STATE_ACKED f = push_bit 8 f"

definition TCP_FLAGS_ACKED :: "u32 \<Rightarrow> u32" where [tcp_consts]: "TCP_FLAGS_ACKED st = drop_bit 8 st AND 0xff"

definition TCP_STATE_RCVD :: "u32 \<Rightarrow> u32" where [tcp_consts]: "TCP_STATE_RCVD f = push_bit 16 f"

definition TCP_FLAGS_RCVD :: "u32 \<Rightarrow> u32" where [tcp_consts]: "TCP_FLAGS_RCVD st = drop_bit 16 st AND 0xff"

definition TCP_FLAGS_SENDING :: "u32 \<Rightarrow> u32" where [tcp_consts]:
  "TCP_FLAGS_SENDING st = TCP_FLAGS_SENT st AND NOT (TCP_FLAGS_ACKED st)"

definition TCP_CLOSED :: u32 where [tcp_consts]: "TCP_CLOSED = TCP_RST"

definition TCP_LISTEN :: u32 where [tcp_consts]: "TCP_LISTEN = 0"

definition TCP_SYN_SENT :: u32 where [tcp_consts]: "TCP_SYN_SENT = TCP_STATE_SENT TCP_SYN"

definition TCP_SYN_RCVD :: u32 where [tcp_consts]:
  "TCP_SYN_RCVD = TCP_STATE_SENT (TCP_SYN OR TCP_ACK) OR TCP_STATE_RCVD TCP_SYN"

definition TCP_ESTABLISHED :: u32 where [tcp_consts]:
  "TCP_ESTABLISHED = TCP_STATE_SENT (TCP_SYN OR TCP_ACK) OR TCP_STATE_ACKED TCP_SYN OR TCP_STATE_RCVD TCP_SYN"

definition TCP_FIN_WAIT_1 :: u32 where [tcp_consts]:
  "TCP_FIN_WAIT_1 = TCP_STATE_SENT (TCP_SYN OR TCP_ACK OR TCP_FIN) OR TCP_STATE_ACKED TCP_SYN OR
     TCP_STATE_RCVD TCP_SYN"

definition TCP_FIN_WAIT_2 :: u32 where [tcp_consts]:
  "TCP_FIN_WAIT_2 = TCP_STATE_SENT (TCP_SYN OR TCP_ACK OR TCP_FIN) OR TCP_STATE_ACKED (TCP_SYN OR TCP_FIN) OR
     TCP_STATE_RCVD TCP_SYN"

definition TCP_CLOSING_OR_LAST_ACK :: u32 where [tcp_consts]:
  "TCP_CLOSING_OR_LAST_ACK = TCP_STATE_SENT (TCP_SYN OR TCP_ACK OR TCP_FIN) OR TCP_STATE_ACKED TCP_SYN OR
     TCP_STATE_RCVD (TCP_SYN OR TCP_FIN)"

definition TCP_TIME_WAIT :: u32 where [tcp_consts]:
  "TCP_TIME_WAIT = TCP_STATE_SENT (TCP_SYN OR TCP_ACK OR TCP_FIN) OR TCP_STATE_ACKED (TCP_SYN OR TCP_FIN) OR
     TCP_STATE_RCVD (TCP_SYN OR TCP_FIN)"

definition TCP_CLOSE_WAIT :: u32 where [tcp_consts]:
  "TCP_CLOSE_WAIT = TCP_STATE_SENT (TCP_SYN OR TCP_ACK) OR TCP_STATE_ACKED TCP_SYN OR
     TCP_STATE_RCVD (TCP_SYN OR TCP_FIN)"

definition TCP_CAN_SEND_DATA :: "u32 \<Rightarrow> bool" where [tcp_consts]:
  "TCP_CAN_SEND_DATA st \<longleftrightarrow>
     st AND (TCP_STATE_ACKED TCP_SYN OR TCP_STATE_SENT TCP_FIN) = TCP_STATE_ACKED TCP_SYN"

definition TCP_HAS_BEEN_ESTABLISHED :: "u32 \<Rightarrow> bool" where [tcp_consts]:
  "TCP_HAS_BEEN_ESTABLISHED st \<longleftrightarrow>
     st AND (TCP_STATE_ACKED TCP_SYN OR TCP_STATE_RCVD TCP_SYN) =
       (TCP_STATE_ACKED TCP_SYN OR TCP_STATE_RCVD TCP_SYN)"

definition TCP_CLOSED_GRACEFULLY :: "u32 \<Rightarrow> bool" where [tcp_consts]:
  "TCP_CLOSED_GRACEFULLY st \<longleftrightarrow>
     st AND (TCP_STATE_ACKED TCP_FIN OR TCP_STATE_RCVD TCP_FIN) =
       (TCP_STATE_ACKED TCP_FIN OR TCP_STATE_RCVD TCP_FIN)"

definition TCP_MAX_WINDOW_SIZE :: u32 where [tcp_consts]: "TCP_MAX_WINDOW_SIZE = 2048 * 1024"

definition TCP_PATH_MTU :: nat where [tcp_consts]: "TCP_PATH_MTU = 1280 - 40 - 20 - 12"

definition TCP_MSL :: u64 where [tcp_consts]: "TCP_MSL = 2 * 60 * TICKS_PER_SEC"

definition TCP_KEEPALIVE_DELAY :: u64 where [tcp_consts]: "TCP_KEEPALIVE_DELAY = 15 * TICKS_PER_SEC"

definition MAX_LL_NET_HEADER_LEN :: nat where [tcp_consts]: "MAX_LL_NET_HEADER_LEN = 64 + 40"

definition TCP_MAX_HEADER_LEN :: nat where [tcp_consts]:
  "TCP_MAX_HEADER_LEN = MAX_LL_NET_HEADER_LEN + 20 + 4 + 4 + 12"

definition TCP_XFER_CLOSED :: u32 where [tcp_consts]: "TCP_XFER_CLOSED = 0x0001"

definition TCP_TS_ENABLED :: u32 where [tcp_consts]: "TCP_TS_ENABLED = 0x0002"

definition TCP_ACK_PENDING :: u32 where [tcp_consts]: "TCP_ACK_PENDING = 0x0004"

definition TCP_SACK_ENABLED :: u32 where [tcp_consts]: "TCP_SACK_ENABLED = 0x0008"

text \<open>Comparison of sequence numbers: the difference as a signed number.\<close>

definition tcp_cmp :: "u32 \<Rightarrow> u32 \<Rightarrow> int" where
  "tcp_cmp seq1 seq2 = sint (seq1 - seq2)"

definition tcp_in_window :: "u32 \<Rightarrow> u32 \<Rightarrow> u32 \<Rightarrow> bool" where
  "tcp_in_window seq start len \<longleftrightarrow> seq - start < len"

section \<open>The connection\<close>

type_synonym tcp_sack_block = "u32 \<times> u32"

text \<open>A packet on the receive queue: its internal header and its data.\<close>

record tcp_rx_queued =
  q_seq :: u32
  q_nxt :: u32
  q_flags :: u32
  q_data :: "u8 list"

text \<open>
  The data transfer interface, as the history of what went through it in both directions.  Once it is
  closed, by the application or by the connection, nothing goes through it any more.
\<close>

datatype xfer_status = Xfer_open | Xfer_closed_by_app | Xfer_shutdown "unit result"

record xfer_intf =
  xf_status :: xfer_status
  xf_delivered :: "u8 list"
  xf_sent :: "u8 list"
  xf_window_changed :: nat

definition intf_shutdown :: "xfer_intf \<Rightarrow> unit result \<Rightarrow> xfer_intf" where
  "intf_shutdown xf rc = (if xf_status xf = Xfer_open then xf\<lparr>xf_status := Xfer_shutdown rc\<rparr> else xf)"

record tcp_connection =
  tcp_flags :: u32
  tcp_xfer :: xfer_intf
  tcp_peer :: sockaddr_tcpip
  local_port :: u32
  tcp_mss :: u64
  tcp_state :: u32
  prev_tcp_state :: u32
  snd_seq :: u32
  snd_sent :: u32
  snd_win :: u32
  rcv_ack :: u32
  rcv_win :: u32
  ts_val :: u32
  ts_recent :: u32
  snd_win_scale :: u8
  rcv_win_scale :: u8
  sack_list :: "tcp_sack_block list"
  tx_queue :: "u8 list list"
  rx_queue :: "tcp_rx_queued list"
  tcp_process :: bool
  retry :: retry_timer
  keepalive :: retry_timer
  wait_timer :: retry_timer
  pending_flags :: nat
  pending_data :: nat
  listed :: bool
  tcp_sent :: "u8 list list"
  tcp_resets :: "u8 list list"

definition tcp_dump_state :: "tcp_connection \<Rightarrow> tcp_connection" where
  "tcp_dump_state tcp = tcp\<lparr>prev_tcp_state := tcp_state tcp\<rparr>"

text \<open>The counters of pending operations; releasing one that is not pending has no effect.\<close>

definition pending_get :: "nat \<Rightarrow> nat" where
  "pending_get n = n + 1"

definition pending_put :: "nat \<Rightarrow> nat" where
  "pending_put n = (if n \<noteq> 0 then n - 1 else n)"

section \<open>The transmit queue\<close>

definition tcp_xmit_win :: "tcp_connection \<Rightarrow> nat" where
  "tcp_xmit_win tcp =
     (if \<not> TCP_CAN_SEND_DATA (tcp_state tcp) then 0
      else if unat (snd_win tcp) > TCP_PATH_MTU then TCP_PATH_MTU
      else unat (snd_win tcp))"

definition tcp_xfer_window :: "tcp_connection \<Rightarrow> nat" where
  "tcp_xfer_window tcp = (if tx_queue tcp \<noteq> [] then 0 else tcp_xmit_win tcp)"

text \<open>
  The loop over the transmit queue: the queue afterwards, the data copied, its length, and the number
  of pending operations that were completed.
\<close>

fun process_tx_loop ::
  "bool \<Rightarrow> u8 list list \<Rightarrow> nat \<Rightarrow> nat \<Rightarrow> u8 list list \<times> u8 list \<times> nat \<times> nat" where
  "process_tx_loop remove [] max_len pending = ([], [], 0, pending)"
| "process_tx_loop remove (iobuf # queue) max_len pending =
     (let frag_len = (if length iobuf > max_len then max_len else length iobuf);
          iobuf' = (if remove then drop frag_len iobuf else iobuf);
          deleted = remove \<and> iobuf' = [];
          (queue, dest, len, pending) =
            process_tx_loop remove queue (max_len - frag_len) (if deleted then pending_put pending else pending)
      in (if deleted then queue else iobuf' # queue, take frag_len iobuf @ dest, frag_len + len, pending))"

definition tcp_process_tx_queue ::
  "tcp_connection \<Rightarrow> nat \<Rightarrow> bool \<Rightarrow> tcp_connection \<times> u8 list \<times> nat" where
  "tcp_process_tx_queue tcp max_len remove =
     (case process_tx_loop remove (tx_queue tcp) max_len (pending_data tcp) of
        (queue, dest, len, pending) \<Rightarrow> (tcp\<lparr>tx_queue := queue, pending_data := pending\<rparr>, dest, len))"

section \<open>Received acknowledgements\<close>

text \<open>New data has been acknowledged.\<close>

definition tcp_acked :: "u64 \<Rightarrow> tcp_connection \<Rightarrow> u32 \<Rightarrow> tcp_connection" where
  "tcp_acked now tcp ack =
     (let ack_len = ack - snd_seq tcp;
          tcp = tcp\<lparr>retry := stop_timer now (retry tcp)\<rparr>;
          acked_flags = TCP_FLAGS_SENDING (tcp_state tcp) AND (TCP_SYN OR TCP_FIN);
          len = (if acked_flags \<noteq> 0 then unat ack_len - 1 else unat ack_len);
          tcp = (if acked_flags \<noteq> 0 then tcp\<lparr>pending_flags := pending_put (pending_flags tcp)\<rparr> else tcp);
          tcp = tcp\<lparr>snd_seq := ack, snd_sent := 0\<rparr>;
          tcp = fst (tcp_process_tx_queue tcp len True);
          tcp = (if acked_flags \<noteq> 0
                 then tcp\<lparr>tcp_state := tcp_state tcp OR TCP_STATE_ACKED acked_flags\<rparr> else tcp)
      in if tx_queue tcp = [] \<and> tcp_flags tcp AND TCP_XFER_CLOSED \<noteq> 0 \<and>
            tcp_state tcp AND TCP_STATE_SENT TCP_FIN = 0
         then tcp\<lparr>tcp_state := tcp_state tcp OR TCP_STATE_SENT TCP_FIN,
                  pending_flags := pending_get (pending_flags tcp)\<rparr>
         else tcp)"

definition tcp_rx_ack :: "u64 \<Rightarrow> tcp_connection \<Rightarrow> u32 \<Rightarrow> u32 \<Rightarrow> tcp_connection \<times> unit result" where
  "tcp_rx_ack now tcp ack win =
     (let ack_len = ack - snd_seq tcp
      in if ack_len > snd_sent tcp then
           (if TCP_HAS_BEEN_ESTABLISHED (tcp_state tcp) then (tcp, Inr ()) else (tcp, Inl EINVAL))
         else
           let tcp = tcp\<lparr>snd_win := win\<rparr>;
               tcp = (if tcp_state tcp AND TCP_STATE_SENT TCP_FIN = 0
                      then tcp\<lparr>keepalive := start_timer_fixed now (keepalive tcp) TCP_KEEPALIVE_DELAY\<rparr>
                      else tcp)
           in if ack_len = 0 then (tcp, Inr ()) else (tcp_acked now tcp ack, Inr ()))"

section \<open>Closing\<close>

text \<open>The end of a connection that is in CLOSED or has not yet received a SYN.\<close>

definition tcp_delete :: "u64 \<Rightarrow> tcp_connection \<Rightarrow> tcp_connection" where
  "tcp_delete now tcp =
     (let tcp = tcp_dump_state (tcp\<lparr>tcp_state := TCP_CLOSED\<rparr>);
          pending = fold (\<lambda>_. pending_put) (tx_queue tcp) (pending_data tcp)
      in tcp\<lparr>rx_queue := [], tx_queue := [], pending_data := pending,
             pending_flags := pending_put (pending_put (pending_flags tcp)),
             tcp_process := False, retry := stop_timer now (retry tcp),
             keepalive := stop_timer now (keepalive tcp),
             wait_timer := stop_timer now (wait_timer tcp), listed := False\<rparr>)"

definition tcp_close :: "u64 \<Rightarrow> tcp_connection \<Rightarrow> unit result \<Rightarrow> tcp_connection" where
  "tcp_close now tcp rc =
     (let tcp = tcp\<lparr>tcp_xfer := intf_shutdown (tcp_xfer tcp) rc, tcp_flags := tcp_flags tcp OR TCP_XFER_CLOSED\<rparr>
      in if tcp_state tcp AND TCP_STATE_RCVD TCP_SYN = 0 then tcp_delete now tcp
         else
           let tcp = (if tcp_state tcp AND TCP_STATE_ACKED TCP_SYN = 0
                      then fst (tcp_rx_ack now tcp (snd_seq tcp + 1) 0) else tcp);
               tcp = tcp\<lparr>keepalive := stop_timer now (keepalive tcp)\<rparr>
           in if tx_queue tcp = [] \<and> tcp_state tcp AND TCP_STATE_SENT TCP_FIN = 0
              then (tcp_dump_state (tcp\<lparr>tcp_state := tcp_state tcp OR TCP_STATE_SENT TCP_FIN\<rparr>))
                     \<lparr>tcp_process := True, pending_flags := pending_get (pending_flags tcp)\<rparr>
              else tcp)"

section \<open>Selective acknowledgement\<close>

text \<open>The scan of the receive queue for the highest block that does not start after \<open>seq\<close>.\<close>

fun sack_scan :: "u32 \<Rightarrow> tcp_rx_queued list \<Rightarrow> u32 \<Rightarrow> u32 \<Rightarrow> u32 \<times> u32" where
  "sack_scan seq [] left right = (left, right)"
| "sack_scan seq (q # queue) left right =
     (if tcp_cmp (q_seq q) right > 0 \<and> tcp_cmp (q_seq q) seq > 0 then (left, right)
      else
        let left = (if tcp_cmp (q_seq q) right > 0 then q_seq q else left);
            right = (if tcp_cmp (q_nxt q) right > 0 then q_nxt q else right)
        in sack_scan seq queue left right)"

text \<open>The length of the block and the block; the length is zero when there is none.\<close>

definition tcp_sack_block :: "tcp_connection \<Rightarrow> u32 \<Rightarrow> u32 \<times> tcp_sack_block" where
  "tcp_sack_block tcp seq =
     (case sack_scan seq (rx_queue tcp) (rcv_ack tcp) (rcv_ack tcp) of
        (left, right) \<Rightarrow> if tcp_cmp right seq < 0 then (0, (0, 0)) else (right - left, (left, right)))"

fun sack_loop ::
  "tcp_connection \<Rightarrow> tcp_sack_block list \<Rightarrow> tcp_sack_block list \<Rightarrow> tcp_sack_block list" where
  "sack_loop tcp [] new = new"
| "sack_loop tcp ((left, right) # old) new =
     (if length new = TCP_SACK_MAX then new
      else if left = right then sack_loop tcp old new
      else case tcp_sack_block tcp left of
             (len, block) \<Rightarrow>
               if len = 0 then sack_loop tcp old new
               else if fst block \<in> set (map fst new) then sack_loop tcp old new
               else sack_loop tcp old (new @ [block]))"

text \<open>The list is updated; the blocks in use come first.\<close>

definition tcp_sack :: "tcp_connection \<Rightarrow> u32 \<Rightarrow> tcp_connection \<times> nat" where
  "tcp_sack tcp seq =
     (let new = (case tcp_sack_block tcp seq of (len, block) \<Rightarrow> if len \<noteq> 0 then [block] else []);
          new = sack_loop tcp (sack_list tcp) new
      in (tcp\<lparr>sack_list := new @ replicate (TCP_SACK_MAX - length new) (0, 0)\<rparr>, length new))"

section \<open>Transmission\<close>

text \<open>What the environment answers during one transmission.\<close>

record xmit_env =
  xe_now :: u64
  xe_discards :: nat
  xe_alloc :: bool
  xe_window :: u64
  xe_tx :: "unit result"

text \<open>One packet is dropped from the end of the receive queue each time cached data is discarded.\<close>

definition discard_rx :: "tcp_connection \<Rightarrow> tcp_connection" where
  "discard_rx tcp = tcp\<lparr>rx_queue := butlast (rx_queue tcp)\<rparr>"

definition expand_rcv_win :: "u64 \<Rightarrow> tcp_connection \<Rightarrow> tcp_connection" where
  "expand_rcv_win window tcp =
     (let max_rcv_win = ucast window :: u32;
          max_rcv_win = (if max_rcv_win > TCP_MAX_WINDOW_SIZE then TCP_MAX_WINDOW_SIZE else max_rcv_win);
          max_representable_win = push_bit (unat (rcv_win_scale tcp)) 0xffff;
          max_rcv_win = (if max_rcv_win > max_representable_win then max_representable_win else max_rcv_win);
          max_rcv_win = max_rcv_win AND NOT 0x03
      in if rcv_win tcp < max_rcv_win then tcp\<lparr>rcv_win := max_rcv_win\<rparr> else tcp)"

definition mss_option :: "tcp_connection \<Rightarrow> u8 list" where
  "mss_option tcp = [TCP_OPTION_MSS, 4] @ be16 (ucast (tcp_mss tcp))"

definition ws_option :: "u8 list" where
  "ws_option = [TCP_OPTION_NOP, TCP_OPTION_WS, 3, TCP_RX_WINDOW_SCALE]"

definition sp_option :: "u8 list" where
  "sp_option = [TCP_OPTION_NOP, TCP_OPTION_NOP, TCP_OPTION_SACK_PERMITTED, 2]"

definition ts_option :: "u32 \<Rightarrow> u32 \<Rightarrow> u8 list" where
  "ts_option tsval tsecr = [TCP_OPTION_NOP, TCP_OPTION_NOP, TCP_OPTION_TS, 10] @ be32 tsval @ be32 tsecr"

definition sack_option :: "tcp_sack_block list \<Rightarrow> u8 list" where
  "sack_option blocks =
     [TCP_OPTION_NOP, TCP_OPTION_NOP, TCP_OPTION_SACK, word_of_nat (2 + 8 * length blocks)] @
     concat (map (\<lambda>(left, right). be32 left @ be32 right) blocks)"

text \<open>The options, in the order in which they appear in the packet; the last one is pushed first.\<close>

definition xmit_options :: "xmit_env \<Rightarrow> tcp_connection \<Rightarrow> u32 \<Rightarrow> u32 \<Rightarrow> tcp_connection \<times> u8 list" where
  "xmit_options env tcp flags sack_seq =
     (let syn = (if flags AND TCP_SYN \<noteq> 0 then sp_option @ ws_option @ mss_option tcp else []);
          ts = (if flags AND TCP_SYN \<noteq> 0 \<or> tcp_flags tcp AND TCP_TS_ENABLED \<noteq> 0
                then ts_option (ucast (xe_now env)) (ts_recent tcp) else []);
          (tcp, sack) =
            (if tcp_flags tcp AND TCP_SACK_ENABLED \<noteq> 0 \<and> rx_queue tcp \<noteq> []
             then case tcp_sack tcp sack_seq of
                    (tcp, sack_count) \<Rightarrow>
                      (tcp, if sack_count \<noteq> 0 then sack_option (take sack_count (sack_list tcp)) else [])
             else (tcp, []))
      in (tcp, sack @ ts @ syn))"

text \<open>
  A segment: the header, with the checksum over the whole packet stored in it, the options and the
  payload.
\<close>

definition tcp_segment ::
  "u16 \<Rightarrow> u16 \<Rightarrow> u32 \<Rightarrow> u32 \<Rightarrow> u32 \<Rightarrow> u16 \<Rightarrow> u8 list \<Rightarrow> u8 list \<Rightarrow> u8 list" where
  "tcp_segment src dest seq ack flags win options payload =
     (let hlen = push_bit 2 (word_of_nat (20 + length options));
          packet = be16 src @ be16 dest @ be32 seq @ be32 ack @ [hlen, ucast flags] @ be16 win @
                   be16 0 @ be16 0 @ options @ payload
      in store_u16 16 (tcpip_chksum packet) packet)"

text \<open>The payload length and the length in sequence space of the next transmission.\<close>

definition xmit_len :: "tcp_connection \<Rightarrow> nat" where
  "xmit_len tcp =
     (if TCP_CAN_SEND_DATA (tcp_state tcp)
      then snd (snd (tcp_process_tx_queue tcp (tcp_xmit_win tcp) False)) else 0)"

definition xmit_seq_len :: "tcp_connection \<Rightarrow> u32" where
  "xmit_seq_len tcp =
     (if TCP_FLAGS_SENDING (tcp_state tcp) AND (TCP_SYN OR TCP_FIN) \<noteq> 0
      then word_of_nat (xmit_len tcp) + 1 else word_of_nat (xmit_len tcp))"

text \<open>The packet is filled in and handed to the network layer.\<close>

definition xmit_packet :: "xmit_env \<Rightarrow> tcp_connection \<Rightarrow> nat \<Rightarrow> u32 \<Rightarrow> tcp_connection" where
  "xmit_packet env tcp len sack_seq =
     (let flags = TCP_FLAGS_SENDING (tcp_state tcp);
          payload = fst (snd (tcp_process_tx_queue tcp len False));
          tcp = expand_rcv_win (xe_window env) tcp;
          (tcp, options) = xmit_options env tcp flags sack_seq;
          flags = (if len \<noteq> 0 then flags OR TCP_PSH else flags);
          packet = tcp_segment (ucast (local_port tcp)) (st_port (tcp_peer tcp)) (snd_seq tcp)
            (rcv_ack tcp) flags (ucast (drop_bit (unat (rcv_win_scale tcp)) (rcv_win tcp)))
            options payload;
          tcp = tcp\<lparr>tcp_sent := tcp_sent tcp @ [packet]\<rparr>
      in case xe_tx env of
           Inl rc \<Rightarrow> tcp
         | Inr _ \<Rightarrow> tcp\<lparr>tcp_flags := tcp_flags tcp AND NOT TCP_ACK_PENDING\<rparr>)"

definition tcp_xmit_sack :: "xmit_env \<Rightarrow> tcp_connection \<Rightarrow> u32 \<Rightarrow> tcp_connection" where
  "tcp_xmit_sack env tcp sack_seq =
     (if running (retry tcp) then tcp
      else
        let len = xmit_len tcp;
            seq_len = xmit_seq_len tcp;
            tcp = tcp\<lparr>snd_sent := seq_len\<rparr>
        in if seq_len = 0 \<and> tcp_flags tcp AND TCP_ACK_PENDING = 0 then tcp
           else
             let tcp = (if seq_len \<noteq> 0 then tcp\<lparr>retry := start_timer (xe_now env) (retry tcp)\<rparr> else tcp);
                 tcp = (discard_rx ^^ xe_discards env) tcp
             in if \<not> xe_alloc env then tcp else xmit_packet env tcp len sack_seq)"

definition tcp_xmit :: "xmit_env \<Rightarrow> tcp_connection \<Rightarrow> tcp_connection" where
  "tcp_xmit env tcp = tcp_xmit_sack env tcp (rcv_ack tcp)"

text \<open>The process that transmits is scheduled once: it is removed before it runs.\<close>

definition tcp_step_process :: "xmit_env \<Rightarrow> tcp_connection \<Rightarrow> tcp_connection" where
  "tcp_step_process env tcp = tcp_xmit env (tcp\<lparr>tcp_process := False\<rparr>)"

section \<open>Timers\<close>

text \<open>The callbacks; the timer has been stopped by the time its callback runs.\<close>

definition tcp_expired :: "xmit_env \<Rightarrow> tcp_connection \<Rightarrow> bool \<Rightarrow> tcp_connection" where
  "tcp_expired env tcp over =
     (if over
      then tcp_close (xe_now env) (tcp_dump_state (tcp\<lparr>tcp_state := TCP_CLOSED\<rparr>)) (Inl ETIMEDOUT)
      else tcp_xmit env tcp)"

definition tcp_expired_ok :: "u32 \<Rightarrow> bool" where
  "tcp_expired_ok st \<longleftrightarrow>
     st = TCP_SYN_SENT \<or> st = TCP_SYN_RCVD \<or> st = TCP_ESTABLISHED \<or> st = TCP_FIN_WAIT_1 \<or>
     st = TCP_CLOSE_WAIT \<or> st = TCP_CLOSING_OR_LAST_ACK"

definition tcp_keepalive_expired :: "xmit_env \<Rightarrow> tcp_connection \<Rightarrow> tcp_connection" where
  "tcp_keepalive_expired env tcp =
     tcp_xmit env
       (tcp\<lparr>keepalive := start_timer_fixed (xe_now env) (keepalive tcp) TCP_KEEPALIVE_DELAY,
            tcp_flags := tcp_flags tcp OR TCP_ACK_PENDING\<rparr>)"

definition tcp_wait_expired :: "u64 \<Rightarrow> tcp_connection \<Rightarrow> tcp_connection" where
  "tcp_wait_expired now tcp =
     tcp_close now (tcp_dump_state (tcp\<lparr>tcp_state := TCP_CLOSED\<rparr>)) (Inr ())"

definition retry_fires :: "xmit_env \<Rightarrow> tcp_connection \<Rightarrow> tcp_connection" where
  "retry_fires env tcp =
     (case timer_expired (retry tcp) of (timer, over) \<Rightarrow> tcp_expired env (tcp\<lparr>retry := timer\<rparr>) over)"

definition keepalive_fires :: "xmit_env \<Rightarrow> tcp_connection \<Rightarrow> tcp_connection" where
  "keepalive_fires env tcp = tcp_keepalive_expired env (tcp\<lparr>keepalive := fst (timer_expired (keepalive tcp))\<rparr>)"

definition wait_fires :: "u64 \<Rightarrow> tcp_connection \<Rightarrow> tcp_connection" where
  "wait_fires now tcp = tcp_wait_expired now (tcp\<lparr>wait_timer := fst (timer_expired (wait_timer tcp))\<rparr>)"

section \<open>The application's side of the interface\<close>

definition tcp_xfer_close :: "xmit_env \<Rightarrow> tcp_connection \<Rightarrow> unit result \<Rightarrow> tcp_connection" where
  "tcp_xfer_close env tcp rc =
     tcp_xmit env (tcp_close (xe_now env)
       (tcp\<lparr>tcp_xfer := (tcp_xfer tcp)\<lparr>xf_status := Xfer_closed_by_app\<rparr>\<rparr>) rc)"

definition tcp_xfer_deliver :: "xmit_env \<Rightarrow> tcp_connection \<Rightarrow> u8 list \<Rightarrow> tcp_connection" where
  "tcp_xfer_deliver env tcp iobuf =
     tcp_xmit env
       (tcp\<lparr>tcp_xfer := (tcp_xfer tcp)\<lparr>xf_sent := xf_sent (tcp_xfer tcp) @ iobuf\<rparr>,
            tx_queue := tx_queue tcp @ [iobuf], pending_data := pending_get (pending_data tcp)\<rparr>)"

definition tcp_progress :: "tcp_connection \<Rightarrow> cstring option" where
  "tcp_progress tcp = (if \<not> TCP_HAS_BEEN_ESTABLISHED (tcp_state tcp) then Some (cs ''connecting'') else None)"

text \<open>
  What the application does while it is called: it may send and close, as long as the interface is
  open.
\<close>

datatype app_action = App_send "u8 list" | App_close "unit result"

fun app_act :: "tcp_connection \<Rightarrow> app_action \<times> xmit_env \<Rightarrow> tcp_connection" where
  "app_act tcp (a, env) =
     (if xf_status (tcp_xfer tcp) \<noteq> Xfer_open then tcp
      else case a of
             App_send iobuf \<Rightarrow> tcp_xfer_deliver env tcp iobuf
           | App_close rc \<Rightarrow> tcp_xfer_close env tcp rc)"

definition app_run :: "(app_action \<times> xmit_env) list \<Rightarrow> tcp_connection \<Rightarrow> tcp_connection" where
  "app_run acts tcp = foldl app_act tcp acts"

text \<open>The application as seen from the connection: its reactions to data and to a changed window.\<close>

record app_env =
  ap_deliver :: "tcp_connection \<Rightarrow> u8 list \<Rightarrow> (app_action \<times> xmit_env) list \<times> unit result"
  ap_window :: "tcp_connection \<Rightarrow> (app_action \<times> xmit_env) list"

definition xfer_deliver_iob :: "app_env \<Rightarrow> tcp_connection \<Rightarrow> u8 list \<Rightarrow> tcp_connection \<times> unit result" where
  "xfer_deliver_iob app tcp iobuf =
     (if xf_status (tcp_xfer tcp) \<noteq> Xfer_open then (tcp, Inl EPIPE)
      else
        let tcp = tcp\<lparr>tcp_xfer := (tcp_xfer tcp)\<lparr>xf_delivered := xf_delivered (tcp_xfer tcp) @ iobuf\<rparr>\<rparr>;
            (acts, rc) = ap_deliver app tcp iobuf
        in (app_run acts tcp, rc))"

definition xfer_window_changed :: "app_env \<Rightarrow> tcp_connection \<Rightarrow> tcp_connection" where
  "xfer_window_changed app tcp =
     (if xf_status (tcp_xfer tcp) \<noteq> Xfer_open then tcp
      else
        let tcp = tcp\<lparr>tcp_xfer := (tcp_xfer tcp)\<lparr>xf_window_changed := xf_window_changed (tcp_xfer tcp) + 1\<rparr>\<rparr>
        in app_run (ap_window app tcp) tcp)"

section \<open>Reception\<close>

definition tcp_xmit_reset :: "xmit_env \<Rightarrow> tcp_connection \<Rightarrow> u16 \<Rightarrow> u16 \<Rightarrow> u32 \<Rightarrow> u32 \<Rightarrow> tcp_connection \<times> unit result" where
  "tcp_xmit_reset env tcp in_src in_dest in_seq in_ack =
     (let tcp = (discard_rx ^^ xe_discards env) tcp
      in if \<not> xe_alloc env then (tcp, Inl ENOMEM)
         else
           let packet = tcp_segment in_dest in_src in_ack in_seq (TCP_RST OR TCP_ACK) 0 [] []
           in (tcp\<lparr>tcp_resets := tcp_resets tcp @ [packet]\<rparr>, xe_tx env))"

text \<open>The options of a received segment that are used: window scale, SACK permitted, timestamp.\<close>

record tcp_options =
  wsopt :: "u8 option"
  spopt :: bool
  tsopt :: "u32 option"

definition option_min :: "u8 \<Rightarrow> nat" where
  "option_min kind = (if kind = TCP_OPTION_WS then 3 else if kind = TCP_OPTION_SACK_PERMITTED then 2
     else if kind = TCP_OPTION_TS then 10 else 2)"

function tcp_rx_opts_loop :: "u8 list \<Rightarrow> tcp_options \<Rightarrow> tcp_options result" where
  "tcp_rx_opts_loop [] options = Inr options"
| "tcp_rx_opts_loop (kind # rest) options =
     (let data = kind # rest; remaining = length data; mn = option_min kind; len = unat (data ! 1)
      in if kind = TCP_OPTION_END then Inr options
         else if kind = TCP_OPTION_NOP then tcp_rx_opts_loop rest options
         else if remaining < mn then Inl EINVAL
         else if len < mn then Inl EINVAL
         else if len > remaining then Inl EINVAL
         else
           let options =
             (if kind = TCP_OPTION_WS then options\<lparr>wsopt := Some (data ! 2)\<rparr>
              else if kind = TCP_OPTION_SACK_PERMITTED then options\<lparr>spopt := True\<rparr>
              else if kind = TCP_OPTION_TS then options\<lparr>tsopt := Some (rd32 data 2)\<rparr>
              else options)
           in tcp_rx_opts_loop (drop len data) options)"
  by pat_completeness auto

termination
  by (relation "measure (length \<circ> fst)") (auto simp: option_min_def split: if_splits)

definition tcp_rx_opts :: "u8 list \<Rightarrow> tcp_options result" where
  "tcp_rx_opts data = tcp_rx_opts_loop data \<lparr>wsopt = None, spopt = False, tsopt = None\<rparr>"

definition sack_advance :: "u32 \<Rightarrow> tcp_sack_block \<Rightarrow> tcp_sack_block" where
  "sack_advance ack b =
     (case b of (left, right) \<Rightarrow>
        if left = right then b
        else (if tcp_cmp left ack < 0 then ack else left, if tcp_cmp right ack < 0 then ack else right))"

definition tcp_rx_seq :: "tcp_connection \<Rightarrow> u32 \<Rightarrow> tcp_connection" where
  "tcp_rx_seq tcp seq_len =
     (let ack = rcv_ack tcp + seq_len
      in tcp\<lparr>rcv_ack := ack,
             rcv_win := (if rcv_win tcp > seq_len then rcv_win tcp - seq_len else 0),
             ts_recent := ts_val tcp,
             sack_list := map (sack_advance ack) (sack_list tcp),
             tcp_flags := tcp_flags tcp OR TCP_ACK_PENDING\<rparr>)"

definition tcp_rx_syn :: "tcp_connection \<Rightarrow> u32 \<Rightarrow> tcp_options \<Rightarrow> tcp_connection" where
  "tcp_rx_syn tcp seq options =
     (let tcp =
        (if tcp_state tcp AND TCP_STATE_RCVD TCP_SYN = 0
         then
           let tcp = tcp\<lparr>rcv_ack := seq\<rparr>;
               tcp = (if tsopt options \<noteq> None then tcp\<lparr>tcp_flags := tcp_flags tcp OR TCP_TS_ENABLED\<rparr> else tcp);
               tcp = (if spopt options then tcp\<lparr>tcp_flags := tcp_flags tcp OR TCP_SACK_ENABLED\<rparr> else tcp)
           in (case wsopt options of
                 Some scale \<Rightarrow> tcp\<lparr>snd_win_scale := scale, rcv_win_scale := TCP_RX_WINDOW_SCALE\<rparr>
               | None \<Rightarrow> tcp)
         else tcp)
      in if seq \<noteq> rcv_ack tcp then tcp
         else
           let tcp = tcp_rx_seq tcp 1
           in tcp\<lparr>tcp_state := tcp_state tcp OR (TCP_STATE_SENT TCP_ACK OR TCP_STATE_RCVD TCP_SYN)\<rparr>)"

definition tcp_rx_data :: "app_env \<Rightarrow> tcp_connection \<Rightarrow> u32 \<Rightarrow> u8 list \<Rightarrow> tcp_connection \<times> unit result" where
  "tcp_rx_data app tcp seq iobuf =
     (let already_rcvd = rcv_ack tcp - seq;
          len = word_of_nat (length iobuf) :: u32
      in if already_rcvd \<ge> len then (tcp, Inr ())
         else
           let tcp = tcp_rx_seq tcp (len - already_rcvd)
           in xfer_deliver_iob app tcp (drop (unat already_rcvd) iobuf))"

definition tcp_rx_fin :: "u64 \<Rightarrow> tcp_connection \<Rightarrow> u32 \<Rightarrow> tcp_connection" where
  "tcp_rx_fin now tcp seq =
     (if seq \<noteq> rcv_ack tcp then tcp
      else
        let tcp = tcp_rx_seq tcp 1;
            tcp = tcp\<lparr>tcp_state := tcp_state tcp OR TCP_STATE_RCVD TCP_FIN\<rparr>
        in tcp_close now tcp (Inr ()))"

definition tcp_rx_rst :: "u64 \<Rightarrow> tcp_connection \<Rightarrow> u32 \<Rightarrow> tcp_connection \<times> unit result" where
  "tcp_rx_rst now tcp seq =
     (if (if tcp_state tcp AND TCP_STATE_RCVD TCP_SYN \<noteq> 0
          then \<not> tcp_in_window seq (rcv_ack tcp) (rcv_win tcp)
          else tcp_state tcp AND TCP_STATE_ACKED TCP_SYN = 0)
      then (tcp, Inr ())
      else
        (tcp_close now (tcp_dump_state (tcp\<lparr>tcp_state := TCP_CLOSED\<rparr>)) (Inl ECONNRESET), Inl ECONNRESET))"

text \<open>A packet is put on the receive queue before the first packet with a later sequence number.\<close>

fun enqueue_rx :: "tcp_rx_queued \<Rightarrow> tcp_rx_queued list \<Rightarrow> tcp_rx_queued list" where
  "enqueue_rx p [] = [p]"
| "enqueue_rx p (q # queue) =
     (if tcp_cmp (q_seq p) (q_seq q) < 0 then p # q # queue else q # enqueue_rx p queue)"

definition tcp_rx_enqueue :: "tcp_connection \<Rightarrow> u32 \<Rightarrow> u32 \<Rightarrow> u8 list \<Rightarrow> tcp_connection" where
  "tcp_rx_enqueue tcp seq flags iobuf =
     (let flags = flags AND TCP_FIN;
          seq_len = word_of_nat (length iobuf) + (if flags \<noteq> 0 then 1 else 0);
          nxt = seq + seq_len
      in if tcp_state tcp AND TCP_STATE_RCVD TCP_SYN = 0 \<or>
            tcp_cmp seq (rcv_ack tcp + rcv_win tcp) \<ge> 0 \<or>
            tcp_cmp nxt (rcv_ack tcp) < 0 \<or>
            seq_len = 0
         then tcp
         else tcp\<lparr>rx_queue := enqueue_rx \<lparr>q_seq = seq, q_nxt = nxt, q_flags = flags, q_data = iobuf\<rparr> (rx_queue tcp)\<rparr>)"

text \<open>Everything that runs while the queue is processed leaves a prefix of the queue.\<close>

lemma prefix_butlast: "prefix (butlast xs) xs"
  by (simp add: butlast_conv_take take_is_prefix)

lemma discard_rx_cases:
  obtains q where "(discard_rx ^^ n) tcp = tcp\<lparr>rx_queue := q\<rparr>" and "prefix q (rx_queue tcp)"
proof (induction n arbitrary: thesis)
  case 0
  show ?case by (rule 0 [of "rx_queue tcp"]) simp_all
next
  case (Suc n)
  obtain q where q: "(discard_rx ^^ n) tcp = tcp\<lparr>rx_queue := q\<rparr>" "prefix q (rx_queue tcp)" by (rule Suc.IH)
  have "(discard_rx ^^ Suc n) tcp = discard_rx (tcp\<lparr>rx_queue := q\<rparr>)" by (simp add: q)
  also have "\<dots> = tcp\<lparr>rx_queue := butlast q\<rparr>" by (simp add: discard_rx_def)
  finally show ?case by (rule Suc.prems) (rule prefix_order.order_trans [OF prefix_butlast q(2)])
qed

lemma expand_rcv_win_eq: "expand_rcv_win x tcp = tcp\<lparr>rcv_win := rcv_win (expand_rcv_win x tcp)\<rparr>"
  by (simp add: expand_rcv_win_def Let_def)

lemma rcv_win_expand_cong:
  "rcv_win tcp = rcv_win tcp' \<Longrightarrow> rcv_win_scale tcp = rcv_win_scale tcp' \<Longrightarrow>
   rcv_win (expand_rcv_win x tcp) = rcv_win (expand_rcv_win x tcp')"
  by (simp add: expand_rcv_win_def Let_def)

lemma tcp_sack_block_cong:
  "rx_queue tcp = rx_queue tcp' \<Longrightarrow> rcv_ack tcp = rcv_ack tcp' \<Longrightarrow> tcp_sack_block tcp = tcp_sack_block tcp'"
  by (rule ext) (simp add: tcp_sack_block_def)

lemma sack_loop_cong:
  "tcp_sack_block tcp = tcp_sack_block tcp' \<Longrightarrow> sack_loop tcp old new = sack_loop tcp' old new"
  by (induction tcp old new rule: sack_loop.induct) (auto split: prod.split)

lemma tcp_sack_cong:
  "rx_queue tcp = rx_queue tcp' \<Longrightarrow> rcv_ack tcp = rcv_ack tcp' \<Longrightarrow> sack_list tcp = sack_list tcp' \<Longrightarrow>
   sack_list (fst (tcp_sack tcp seq)) = sack_list (fst (tcp_sack tcp' seq)) \<and>
   snd (tcp_sack tcp seq) = snd (tcp_sack tcp' seq)"
  using tcp_sack_block_cong [of tcp tcp'] sack_loop_cong [of tcp tcp'] by (simp add: tcp_sack_def Let_def)

lemma payload_cong:
  "tx_queue tcp = tx_queue tcp' \<Longrightarrow> pending_data tcp = pending_data tcp' \<Longrightarrow>
   snd (tcp_process_tx_queue tcp n r) = snd (tcp_process_tx_queue tcp' n r)"
  by (simp add: tcp_process_tx_queue_def split: prod.split)

lemma tcp_sack_eq: "tcp_sack tcp seq = (tcp\<lparr>sack_list := sack_list (fst (tcp_sack tcp seq))\<rparr>, snd (tcp_sack tcp seq))"
  by (simp add: tcp_sack_def Let_def)

text \<open>The SACK list after the options have been filled in, and the part of the options it gives.\<close>

definition xmit_sacks :: "tcp_connection \<Rightarrow> u32 \<Rightarrow> tcp_sack_block list \<times> u8 list" where
  "xmit_sacks tcp seq =
     (if tcp_flags tcp AND TCP_SACK_ENABLED \<noteq> 0 \<and> rx_queue tcp \<noteq> []
      then (let l = sack_list (fst (tcp_sack tcp seq)); n = snd (tcp_sack tcp seq)
            in (l, if n \<noteq> 0 then sack_option (take n l) else []))
      else (sack_list tcp, []))"

lemma xmit_options_eq:
  "xmit_options env tcp flags seq =
     (tcp\<lparr>sack_list := fst (xmit_sacks tcp seq)\<rparr>,
      snd (xmit_sacks tcp seq) @
      (if flags AND TCP_SYN \<noteq> 0 \<or> tcp_flags tcp AND TCP_TS_ENABLED \<noteq> 0
       then ts_option (ucast (xe_now env)) (ts_recent tcp) else []) @
      (if flags AND TCP_SYN \<noteq> 0 then sp_option @ ws_option @ mss_option tcp else []))"
proof (cases "tcp_flags tcp AND TCP_SACK_ENABLED \<noteq> 0 \<and> rx_queue tcp \<noteq> []")
  case True
  obtain l n where l: "tcp_sack tcp seq = (tcp\<lparr>sack_list := l\<rparr>, n)" using tcp_sack_eq [of tcp seq] by metis
  show ?thesis unfolding xmit_options_def xmit_sacks_def Let_def if_P [OF True] l by simp
next
  case False
  show ?thesis unfolding xmit_options_def xmit_sacks_def Let_def if_not_P [OF False] by simp
qed

lemma xmit_sacks_cong:
  "rx_queue tcp = rx_queue tcp' \<Longrightarrow> rcv_ack tcp = rcv_ack tcp' \<Longrightarrow> sack_list tcp = sack_list tcp' \<Longrightarrow>
   tcp_flags tcp = tcp_flags tcp' \<Longrightarrow> xmit_sacks tcp seq = xmit_sacks tcp' seq"
  using tcp_sack_cong [of tcp tcp' seq] by (simp add: xmit_sacks_def Let_def)

text \<open>The segment that is transmitted, given the receive queue and the window at that moment.\<close>

definition xmit_segment :: "xmit_env \<Rightarrow> tcp_connection \<Rightarrow> nat \<Rightarrow> u32 \<Rightarrow> u8 list" where
  "xmit_segment env tcp len seq =
     tcp_segment (ucast (local_port tcp)) (st_port (tcp_peer tcp)) (snd_seq tcp) (rcv_ack tcp)
       (if len \<noteq> 0 then TCP_FLAGS_SENDING (tcp_state tcp) OR TCP_PSH else TCP_FLAGS_SENDING (tcp_state tcp))
       (ucast (drop_bit (unat (rcv_win_scale tcp)) (rcv_win (expand_rcv_win (xe_window env) tcp))))
       (snd (xmit_options env tcp (TCP_FLAGS_SENDING (tcp_state tcp)) seq))
       (fst (snd (tcp_process_tx_queue tcp len False)))"

lemma xmit_packet_eq:
  "xmit_packet env tcp len seq =
     tcp\<lparr>rcv_win := rcv_win (expand_rcv_win (xe_window env) tcp), sack_list := fst (xmit_sacks tcp seq),
         tcp_flags := (if isl (xe_tx env) then tcp_flags tcp else tcp_flags tcp AND NOT TCP_ACK_PENDING),
         tcp_sent := tcp_sent tcp @ [xmit_segment env tcp len seq]\<rparr>"
proof -
  define w where "w = rcv_win (expand_rcv_win (xe_window env) tcp)"
  have e: "expand_rcv_win (xe_window env) tcp = tcp\<lparr>rcv_win := w\<rparr>" unfolding w_def by (rule expand_rcv_win_eq)
  have s: "xmit_sacks (tcp\<lparr>rcv_win := w\<rparr>) seq = xmit_sacks tcp seq" by (rule xmit_sacks_cong) simp_all
  show ?thesis
    unfolding xmit_packet_def xmit_segment_def e Let_def xmit_options_eq s
    by (simp add: mss_option_def split: sum.split)
qed

text \<open>A transmission changes nothing else.\<close>

lemma tcp_xmit_sack_cases:
  obtains (quiet) sent where "tcp_xmit_sack env tcp seq = tcp\<lparr>snd_sent := sent\<rparr>"
      and "if running (retry tcp) then sent = snd_sent tcp else sent = 0 \<and> xmit_seq_len tcp = 0"
  | (no_memory) timer q where
      "tcp_xmit_sack env tcp seq = tcp\<lparr>snd_sent := xmit_seq_len tcp, retry := timer, rx_queue := q\<rparr>"
      and "\<not> running (retry tcp)" and "running timer = (xmit_seq_len tcp \<noteq> 0)" and "prefix q (rx_queue tcp)"
  | (packet) timer q where
      "tcp_xmit_sack env tcp seq =
         tcp\<lparr>snd_sent := xmit_seq_len tcp, retry := timer, rx_queue := q,
             rcv_win := rcv_win (expand_rcv_win (xe_window env) tcp),
             sack_list := fst (xmit_sacks (tcp\<lparr>rx_queue := q\<rparr>) seq),
             tcp_flags := (if isl (xe_tx env) then tcp_flags tcp else tcp_flags tcp AND NOT TCP_ACK_PENDING),
             tcp_sent := tcp_sent tcp @ [xmit_segment env (tcp\<lparr>rx_queue := q\<rparr>) (xmit_len tcp) seq]\<rparr>"
      and "\<not> running (retry tcp)" and "running timer = (xmit_seq_len tcp \<noteq> 0)" and "prefix q (rx_queue tcp)"
proof (cases "running (retry tcp) \<or> xmit_seq_len tcp = 0 \<and> tcp_flags tcp AND TCP_ACK_PENDING = 0")
  case True
  then show ?thesis by (intro quiet [of "if running (retry tcp) then snd_sent tcp else 0"]) (auto simp: tcp_xmit_sack_def Let_def)
next
  case False
  define timer where "timer = (if xmit_seq_len tcp \<noteq> 0 then start_timer (xe_now env) (retry tcp) else retry tcp)"
  define tcp' where "tcp' = tcp\<lparr>snd_sent := xmit_seq_len tcp, retry := timer\<rparr>"
  obtain q where q: "(discard_rx ^^ xe_discards env) tcp' = tcp'\<lparr>rx_queue := q\<rparr>" "prefix q (rx_queue tcp')"
    by (rule discard_rx_cases)
  have eq: "tcp_xmit_sack env tcp seq =
      (if \<not> xe_alloc env then tcp'\<lparr>rx_queue := q\<rparr> else xmit_packet env (tcp'\<lparr>rx_queue := q\<rparr>) (xmit_len tcp) seq)"
    unfolding q(1) [symmetric] using False
    by (cases "xmit_seq_len tcp = 0") (simp_all add: tcp_xmit_sack_def Let_def tcp'_def timer_def)
  have timer: "running timer = (xmit_seq_len tcp \<noteq> 0)" using False by (simp add: timer_def)
  show ?thesis
  proof (cases "xe_alloc env")
    case True
    let ?t = "tcp'\<lparr>rx_queue := q\<rparr>"
    have sacks: "xmit_sacks ?t seq = xmit_sacks (tcp\<lparr>rx_queue := q\<rparr>) seq"
      by (rule xmit_sacks_cong) (simp_all add: tcp'_def)
    have win: "rcv_win (expand_rcv_win x ?t) = rcv_win (expand_rcv_win x tcp)"
      "rcv_win (expand_rcv_win x (tcp\<lparr>rx_queue := q\<rparr>)) = rcv_win (expand_rcv_win x tcp)" for x
      by (rule rcv_win_expand_cong; simp add: tcp'_def)+
    have pay: "snd (tcp_process_tx_queue ?t n r) = snd (tcp_process_tx_queue (tcp\<lparr>rx_queue := q\<rparr>) n r)" for n r
      by (rule payload_cong) (simp_all add: tcp'_def)
    have "xmit_segment env ?t (xmit_len tcp) seq = xmit_segment env (tcp\<lparr>rx_queue := q\<rparr>) (xmit_len tcp) seq"
      unfolding xmit_segment_def xmit_options_eq sacks win pay by (simp add: tcp'_def mss_option_def)
    then show ?thesis using True False q(2) timer
      by (intro packet [where timer = timer and q = q]) (simp_all add: eq xmit_packet_eq sacks win, simp_all add: tcp'_def)
  next
    case F: False
    then show ?thesis using False q(2) timer by (intro no_memory [where timer = timer and q = q]) (simp_all add: eq tcp'_def)
  qed
qed

lemma tcp_xmit_sack_prefix: "prefix (rx_queue (tcp_xmit_sack env tcp seq)) (rx_queue tcp)"
  by (cases rule: tcp_xmit_sack_cases [of env tcp seq]) simp_all

lemma rx_queue_process_tx [simp]: "rx_queue (fst (tcp_process_tx_queue tcp n r)) = rx_queue tcp"
  by (simp add: tcp_process_tx_queue_def split: prod.split)

lemma rx_queue_rx_ack [simp]: "rx_queue (fst (tcp_rx_ack now tcp ack win)) = rx_queue tcp"
  by (simp add: tcp_rx_ack_def tcp_acked_def Let_def)

lemma tcp_close_prefix: "prefix (rx_queue (tcp_close now tcp rc)) (rx_queue tcp)"
  by (simp add: tcp_close_def tcp_delete_def tcp_dump_state_def Let_def)

lemma app_act_prefix: "prefix (rx_queue (app_act tcp act)) (rx_queue tcp)"
proof (cases act)
  case (Pair a env)
  show ?thesis
  proof (cases a)
    case (App_send iobuf)
    then show ?thesis using tcp_xmit_sack_prefix
        [of env "tcp\<lparr>tcp_xfer := (tcp_xfer tcp)\<lparr>xf_sent := xf_sent (tcp_xfer tcp) @ iobuf\<rparr>,
            tx_queue := tx_queue tcp @ [iobuf], pending_data := pending_get (pending_data tcp)\<rparr>" "rcv_ack tcp"]
      by (simp add: Pair tcp_xfer_deliver_def tcp_xmit_def)
  next
    case (App_close rc)
    let ?t = "tcp\<lparr>tcp_xfer := (tcp_xfer tcp)\<lparr>xf_status := Xfer_closed_by_app\<rparr>\<rparr>"
    have "prefix (rx_queue (tcp_close (xe_now env) ?t rc)) (rx_queue tcp)"
      using tcp_close_prefix [of "xe_now env" ?t rc] by simp
    then show ?thesis
      using prefix_order.order_trans [OF tcp_xmit_sack_prefix]
      by (simp add: Pair App_close tcp_xfer_close_def tcp_xmit_def)
  qed
qed

lemma app_run_prefix: "prefix (rx_queue (app_run acts tcp)) (rx_queue tcp)"
proof (induction acts arbitrary: tcp)
  case (Cons a acts)
  then show ?case using prefix_order.order_trans [OF Cons.IH app_act_prefix] by (simp add: app_run_def)
qed (simp add: app_run_def)

lemma xfer_deliver_iob_prefix: "prefix (rx_queue (fst (xfer_deliver_iob app tcp iobuf))) (rx_queue tcp)"
  using app_run_prefix
    [of _ "tcp\<lparr>tcp_xfer := (tcp_xfer tcp)\<lparr>xf_delivered := xf_delivered (tcp_xfer tcp) @ iobuf\<rparr>\<rparr>"]
  by (simp add: xfer_deliver_iob_def Let_def split: prod.split)

lemma tcp_rx_seq_simps [simp]:
  "rcv_ack (tcp_rx_seq tcp n) = rcv_ack tcp + n"
  "rcv_win (tcp_rx_seq tcp n) = (if rcv_win tcp > n then rcv_win tcp - n else 0)"
  "sack_list (tcp_rx_seq tcp n) = map (sack_advance (rcv_ack tcp + n)) (sack_list tcp)"
  "tcp_flags (tcp_rx_seq tcp n) = tcp_flags tcp OR TCP_ACK_PENDING"
  "tcp_xfer (tcp_rx_seq tcp n) = tcp_xfer tcp"
  "tcp_state (tcp_rx_seq tcp n) = tcp_state tcp"
  "snd_seq (tcp_rx_seq tcp n) = snd_seq tcp"
  "snd_sent (tcp_rx_seq tcp n) = snd_sent tcp"
  "tx_queue (tcp_rx_seq tcp n) = tx_queue tcp"
  "rx_queue (tcp_rx_seq tcp n) = rx_queue tcp"
  "retry (tcp_rx_seq tcp n) = retry tcp"
  "keepalive (tcp_rx_seq tcp n) = keepalive tcp"
  "wait_timer (tcp_rx_seq tcp n) = wait_timer tcp"
  "pending_flags (tcp_rx_seq tcp n) = pending_flags tcp"
  "pending_data (tcp_rx_seq tcp n) = pending_data tcp"
  "tcp_process (tcp_rx_seq tcp n) = tcp_process tcp"
  "listed (tcp_rx_seq tcp n) = listed tcp"
  "tcp_sent (tcp_rx_seq tcp n) = tcp_sent tcp"
  "rcv_win_scale (tcp_rx_seq tcp n) = rcv_win_scale tcp"
  by (simp_all add: tcp_rx_seq_def Let_def)

lemma tcp_rx_data_prefix: "prefix (rx_queue (fst (tcp_rx_data app tcp seq iobuf))) (rx_queue tcp)"
  using xfer_deliver_iob_prefix [of app "tcp_rx_seq tcp x" d for x d]
  by (simp add: tcp_rx_data_def Let_def)

lemma tcp_rx_fin_prefix: "prefix (rx_queue (tcp_rx_fin now tcp seq)) (rx_queue tcp)"
proof -
  let ?t = "(tcp_rx_seq tcp 1)\<lparr>tcp_state := tcp_state (tcp_rx_seq tcp 1) OR TCP_STATE_RCVD TCP_FIN\<rparr>"
  have "prefix (rx_queue (tcp_close now ?t (Inr ()))) (rx_queue ?t)" by (rule tcp_close_prefix)
  then show ?thesis by (simp add: tcp_rx_fin_def Let_def)
qed

section \<open>The receive queue\<close>

text \<open>One iteration: the first packet is removed, its data and its FIN are handled.\<close>

definition process_rx_packet :: "app_env \<Rightarrow> u64 \<Rightarrow> tcp_connection \<Rightarrow> tcp_rx_queued \<Rightarrow> tcp_connection" where
  "process_rx_packet app now tcp q =
     (let tcp = tcp\<lparr>rx_queue := tl (rx_queue tcp)\<rparr>;
          tcp = fst (tcp_rx_data app tcp (q_seq q) (q_data q));
          seq = q_seq q + word_of_nat (length (q_data q))
      in if q_flags q AND TCP_FIN \<noteq> 0 then tcp_rx_fin now tcp seq else tcp)"

lemma process_rx_packet_prefix:
  "prefix (rx_queue (process_rx_packet app now tcp q)) (tl (rx_queue tcp))"
proof -
  let ?t = "fst (tcp_rx_data app (tcp\<lparr>rx_queue := tl (rx_queue tcp)\<rparr>) (q_seq q) (q_data q))"
  have "prefix (rx_queue ?t) (tl (rx_queue tcp))"
    using tcp_rx_data_prefix [of app "tcp\<lparr>rx_queue := tl (rx_queue tcp)\<rparr>"] by simp
  then show ?thesis
    using prefix_order.order_trans [OF tcp_rx_fin_prefix]
    by (simp add: process_rx_packet_def Let_def)
qed

function tcp_process_rx_queue :: "app_env \<Rightarrow> u64 \<Rightarrow> tcp_connection \<Rightarrow> tcp_connection" where
  "tcp_process_rx_queue app now tcp =
     (case rx_queue tcp of
        [] \<Rightarrow> tcp
      | q # _ \<Rightarrow>
          if tcp_cmp (q_seq q) (rcv_ack tcp) > 0 then tcp
          else tcp_process_rx_queue app now (process_rx_packet app now tcp q))"
  by pat_completeness auto

termination
proof (relation "measure (\<lambda>(app, now, tcp). length (rx_queue tcp))", goal_cases)
  case (2 app now tcp q queue)
  then show ?case using process_rx_packet_prefix [of app now tcp q] by (auto dest: prefix_length_le)
qed simp

declare tcp_process_rx_queue.simps [simp del]

section \<open>Received segments\<close>

text \<open>The fields of a received segment, and what the environment answers while it is handled.\<close>

record tcp_header =
  th_src :: u16
  th_dest :: u16
  th_seq :: u32
  th_ack :: u32
  th_flags :: u32
  th_win :: u16

record rx_env =
  rx_now :: u64
  rx_app :: app_env
  rx_xmit :: xmit_env

text \<open>
  The window is shifted by the scale the peer announced; a shift by 32 or more, which the source does
  not exclude, acts as one by the remainder, as the processor does it.
\<close>

definition scale_win :: "u16 \<Rightarrow> u8 \<Rightarrow> u32" where
  "scale_win raw_win scale = push_bit (unat scale mod 32) (ucast raw_win)"

text \<open>The part of the receive handler after the connection has been found.\<close>

definition tcp_rx_connection ::
  "rx_env \<Rightarrow> tcp_connection \<Rightarrow> tcp_header \<Rightarrow> tcp_options \<Rightarrow> u8 list \<Rightarrow> tcp_connection \<times> unit result" where
  "tcp_rx_connection env tcp hdr options iobuf =
     (let old_xfer_window = tcp_xfer_window tcp;
          (tcp, rc) =
            (if th_flags hdr AND TCP_ACK \<noteq> 0
             then tcp_rx_ack (rx_now env) tcp (th_ack hdr) (scale_win (th_win hdr) (snd_win_scale tcp))
             else (tcp, Inr ()))
      in case rc of
           Inl e \<Rightarrow>
             (fst (tcp_xmit_reset (rx_xmit env) tcp (th_src hdr) (th_dest hdr) (th_seq hdr) (th_ack hdr)), Inl e)
         | Inr _ \<Rightarrow>
             let seq = th_seq hdr;
                 tcp = (if tcp_state tcp AND TCP_STATE_RCVD TCP_SYN \<noteq> 0 \<and> seq \<noteq> rcv_ack tcp
                        then tcp\<lparr>tcp_flags := tcp_flags tcp OR TCP_ACK_PENDING\<rparr> else tcp);
                 (tcp, seq) = (if th_flags hdr AND TCP_SYN \<noteq> 0 then (tcp_rx_syn tcp seq options, seq + 1) else (tcp, seq));
                 (tcp, rc) = (if th_flags hdr AND TCP_RST \<noteq> 0 then tcp_rx_rst (rx_now env) tcp seq else (tcp, Inr ()))
             in case rc of
                  Inl e \<Rightarrow> (tcp, Inl e)
                | Inr _ \<Rightarrow>
                    let tcp = tcp_rx_enqueue tcp seq (th_flags hdr) iobuf;
                        tcp = tcp_process_rx_queue (rx_app env) (rx_now env) tcp;
                        tcp = tcp_dump_state tcp;
                        tcp = (if rx_queue tcp = [] then tcp\<lparr>tcp_process := True\<rparr>
                               else tcp_xmit_sack (rx_xmit env) tcp seq);
                        tcp = (if TCP_CLOSED_GRACEFULLY (tcp_state tcp)
                               then tcp\<lparr>wait_timer := start_timer_fixed (rx_now env)
                                          (stop_timer (rx_now env) (wait_timer tcp)) (2 * TCP_MSL)\<rparr>
                               else tcp);
                        tcp = (if tcp_xfer_window tcp \<noteq> old_xfer_window then xfer_window_changed (rx_app env) tcp
                               else tcp)
                    in (tcp, Inr ()))"

section \<open>The list of connections\<close>

text \<open>A connection is named by its position in the list; one that is no longer listed is removed.\<close>

fun tcp_demux :: "tcp_connection list \<Rightarrow> u32 \<Rightarrow> nat option" where
  "tcp_demux [] port = None"
| "tcp_demux (tcp # conns) port =
     (if local_port tcp = port then Some 0 else map_option Suc (tcp_demux conns port))"

definition put_connection :: "tcp_connection list \<Rightarrow> nat \<Rightarrow> tcp_connection \<Rightarrow> tcp_connection list" where
  "put_connection conns i tcp =
     (if listed tcp then conns[i := tcp] else take i conns @ drop (i + 1) conns)"

definition tcp_port_available :: "tcp_connection list \<Rightarrow> u16 \<Rightarrow> u16 result" where
  "tcp_port_available conns port =
     (case tcp_demux conns (ucast port) of Some _ \<Rightarrow> Inl EADDRINUSE | None \<Rightarrow> Inr port)"

definition parse_header :: "u8 list \<Rightarrow> tcp_header" where
  "parse_header data =
     \<lparr>th_src = rd16 data 0, th_dest = rd16 data 2, th_seq = rd32 data 4, th_ack = rd32 data 8,
      th_flags = ucast (data ! 13), th_win = rd16 data 14\<rparr>"

definition rx_timestamp :: "tcp_connection \<Rightarrow> tcp_options \<Rightarrow> tcp_connection" where
  "rx_timestamp tcp options = (case tsopt options of Some tsval \<Rightarrow> tcp\<lparr>ts_val := tsval\<rparr> | None \<Rightarrow> tcp)"

definition tcp_rx ::
  "rx_env \<Rightarrow> tcp_connection list \<Rightarrow> u8 list \<Rightarrow> u16 \<Rightarrow> tcp_connection list \<times> unit result" where
  "tcp_rx env conns iobuf pshdr_csum =
     (if length iobuf < 20 then (conns, Inl EINVAL)
      else
        let hlen = unat (iobuf ! 12 AND 0xf0) div 16 * 4
        in if hlen < 20 then (conns, Inl EINVAL)
           else if hlen > length iobuf then (conns, Inl EINVAL)
           else if generic_tcpip_continue_chksum pshdr_csum iobuf \<noteq> 0 then (conns, Inl EINVAL)
           else
             let hdr = parse_header iobuf;
                 conn = tcp_demux conns (ucast (th_dest hdr))
             in case tcp_rx_opts (take (hlen - 20) (drop 20 iobuf)) of
                  Inl e \<Rightarrow> (conns, Inl e)
                | Inr options \<Rightarrow>
                    (case conn of
                       None \<Rightarrow> (conns, Inl ENOTCONN)
                     | Some i \<Rightarrow>
                         let (tcp, rc) = tcp_rx_connection env (rx_timestamp (conns ! i) options) hdr options
                               (drop hlen iobuf)
                         in (put_connection conns i tcp, rc)))"

text \<open>
  Opening a connection.  The environment answers whether the allocation succeeds, the random numbers
  and the tables of network protocols with the devices' transmission units.
\<close>

definition new_connection :: "sockaddr_tcpip \<Rightarrow> u32 \<Rightarrow> tcp_connection" where
  "new_connection peer seq =
     \<lparr>tcp_flags = 0, tcp_xfer = \<lparr>xf_status = Xfer_open, xf_delivered = [], xf_sent = [], xf_window_changed = 0\<rparr>,
      tcp_peer = peer, local_port = 0, tcp_mss = 0, tcp_state = TCP_STATE_SENT TCP_SYN,
      prev_tcp_state = TCP_STATE_SENT TCP_SYN, snd_seq = seq, snd_sent = 0, snd_win = 0, rcv_ack = 0,
      rcv_win = 0, ts_val = 0, ts_recent = 0, snd_win_scale = 0, rcv_win_scale = 0,
      sack_list = replicate TCP_SACK_MAX (0, 0), tx_queue = [], rx_queue = [], tcp_process = False,
      retry = timer_init, keepalive = timer_init, wait_timer = timer_init, pending_flags = 0,
      pending_data = 0, listed = False, tcp_sent = [], tcp_resets = []\<rparr>"

definition tcp_open ::
  "bool \<Rightarrow> u64 \<Rightarrow> u32 \<Rightarrow> u32 \<Rightarrow> 's tcpip_net_protocol_t list \<Rightarrow> ('s \<Rightarrow> nat \<Rightarrow> nat) \<Rightarrow> 's \<Rightarrow>
   tcp_connection list \<Rightarrow> sockaddr_tcpip \<Rightarrow> sockaddr_tcpip option \<Rightarrow> tcp_connection list \<times> unit result" where
  "tcp_open alloc now random_seq random_port nets netdev_mtu s conns peer st_local =
     (if \<not> alloc then (conns, Inl ENOMEM)
      else
        let tcp = new_connection peer random_seq;
            mtu = tcpip_mtu nets netdev_mtu s peer
        in if mtu = 0 then (conns, Inl ENETUNREACH)
           else
             let tcp = tcp\<lparr>tcp_mss := word_of_nat mtu - 20\<rparr>
             in case tcpip_bind random_port st_local (tcp_port_available conns) of
                  Inl rc \<Rightarrow> (conns, Inl rc)
                | Inr port \<Rightarrow>
                    (tcp\<lparr>local_port := ucast port, retry := start_timer_nodelay now (retry tcp),
                         pending_flags := pending_get (pending_flags tcp), listed := True\<rparr> # conns, Inr ()))"

text \<open>One packet is dropped from the receive queue of each connection that has one.\<close>

definition tcp_discard :: "tcp_connection list \<Rightarrow> tcp_connection list \<times> nat" where
  "tcp_discard conns =
     (map discard_rx conns, length (filter (\<lambda>tcp. rx_queue tcp \<noteq> []) conns))"

section \<open>Shutdown\<close>

fun tcp_first :: "(tcp_connection \<Rightarrow> bool) \<Rightarrow> tcp_connection list \<Rightarrow> nat option" where
  "tcp_first p [] = None"
| "tcp_first p (tcp # conns) = (if p tcp then Some 0 else map_option Suc (tcp_first p conns))"

definition tcp_first_unclosed :: "tcp_connection list \<Rightarrow> nat option" where
  "tcp_first_unclosed = tcp_first (\<lambda>tcp. tcp_flags tcp AND TCP_XFER_CLOSED = 0)"

definition tcp_first_unfinished :: "tcp_connection list \<Rightarrow> nat option" where
  "tcp_first_unfinished = tcp_first (\<lambda>tcp. \<not> TCP_CLOSED_GRACEFULLY (tcp_state tcp) \<or> tcp_process tcp)"

lemma tcp_first_Some:
  "tcp_first p conns = Some i \<Longrightarrow> i < length conns \<and> p (conns ! i)"
  by (induction conns arbitrary: i) (auto split: if_splits)

lemma tcp_flags_process_tx [simp]: "tcp_flags (fst (tcp_process_tx_queue tcp n r)) = tcp_flags tcp"
  by (simp add: tcp_process_tx_queue_def split: prod.split)

lemma tcp_flags_rx_ack [simp]: "tcp_flags (fst (tcp_rx_ack now tcp ack win)) = tcp_flags tcp"
  by (simp add: tcp_rx_ack_def tcp_acked_def Let_def)

lemma tcp_flags_close [simp]: "tcp_flags (tcp_close now tcp rc) = tcp_flags tcp OR TCP_XFER_CLOSED"
  by (simp add: tcp_close_def tcp_delete_def tcp_dump_state_def Let_def)

lemma or_and_absorb: "(a OR b) AND b = b" for a b :: "'a::len word"
proof (rule bit_word_eqI)
  fix n
  show "bit ((a OR b) AND b) n \<longleftrightarrow> bit b n" unfolding bit_and_iff bit_or_iff by blast
qed

text \<open>The number of connections that satisfy a predicate drops when one of them is replaced.\<close>

lemma put_connection_filter:
  assumes "i < length conns" and "p (conns ! i)" and "\<not> p tcp"
  shows "length (filter p (put_connection conns i tcp)) < length (filter p conns)"
proof -
  have "conns = take i conns @ conns ! i # drop (i + 1) conns"
    using id_take_nth_drop [OF assms(1)] by simp
  then have "filter p conns = filter p (take i conns @ conns ! i # drop (i + 1) conns)" by (rule arg_cong)
  then have "length (filter p conns) = length (filter p (take i conns)) + 1 + length (filter p (drop (i + 1) conns))"
    using assms(2) by simp
  then show ?thesis using assms(1,3)
    by (simp add: put_connection_def upd_conv_take_nth_drop)
qed

text \<open>The connections are closed one after the other; the list may change meanwhile.\<close>

function shutdown_close :: "u64 \<Rightarrow> tcp_connection list \<Rightarrow> tcp_connection list" where
  "shutdown_close now conns =
     (case tcp_first_unclosed conns of
        None \<Rightarrow> conns
      | Some i \<Rightarrow> shutdown_close now (put_connection conns i (tcp_close now (conns ! i) (Inl ECANCELED))))"
  by pat_completeness auto

termination
proof (relation "measure (\<lambda>(now, conns). length (filter (\<lambda>tcp. tcp_flags tcp AND TCP_XFER_CLOSED = 0) conns))", goal_cases)
  case (2 now conns i)
  then have "i < length conns" "tcp_flags (conns ! i) AND TCP_XFER_CLOSED = 0"
    using tcp_first_Some [of _ conns i] by (auto simp: tcp_first_unclosed_def)
  moreover have "tcp_flags (tcp_close now (conns ! i) (Inl ECANCELED)) AND TCP_XFER_CLOSED \<noteq> 0"
    by (simp add: or_and_absorb) (simp add: TCP_XFER_CLOSED_def)
  ultimately show ?case
    using put_connection_filter [of i conns "\<lambda>tcp. tcp_flags tcp AND TCP_XFER_CLOSED = 0"] by simp
qed simp

declare shutdown_close.simps [simp del]

text \<open>The steps of the other processes until the time is up, as functions on the list of connections.\<close>

fun shutdown_wait :: "(tcp_connection list \<Rightarrow> tcp_connection list) list \<Rightarrow> tcp_connection list \<Rightarrow> tcp_connection list" where
  "shutdown_wait [] conns = conns"
| "shutdown_wait (step # steps) conns =
     (if tcp_first_unfinished conns = None then conns else shutdown_wait steps (step conns))"

lemma tcp_close_CLOSED:
  "listed (tcp_close now (tcp_dump_state (tcp\<lparr>tcp_state := TCP_CLOSED\<rparr>)) rc) = False"
  by (simp add: tcp_close_def tcp_delete_def tcp_dump_state_def Let_def tcp_consts)

text \<open>The first connection of the list is closed by force until there is none.\<close>

function shutdown_force :: "u64 \<Rightarrow> tcp_connection list \<Rightarrow> tcp_connection list" where
  "shutdown_force now [] = []"
| "shutdown_force now (tcp # conns) =
     shutdown_force now
       (put_connection (tcp # conns) 0
          (tcp_close now (tcp_dump_state (tcp\<lparr>tcp_state := TCP_CLOSED\<rparr>)) (Inl ECANCELED)))"
  by pat_completeness auto

termination
  by (relation "measure (length \<circ> snd)") (simp_all add: put_connection_def tcp_close_CLOSED)

definition tcp_shutdown ::
  "u64 \<Rightarrow> u64 \<Rightarrow> (tcp_connection list \<Rightarrow> tcp_connection list) list \<Rightarrow> tcp_connection list \<Rightarrow>
   tcp_connection list" where
  "tcp_shutdown now later steps conns = shutdown_force later (shutdown_wait steps (shutdown_close now conns))"

lemma tcp_shutdown_empty: "tcp_shutdown now later steps conns = []"
proof -
  have "shutdown_force now conns = []" for now conns
    by (induction now conns rule: shutdown_force.induct) simp_all
  then show ?thesis by (simp add: tcp_shutdown_def)
qed

section \<open>Events\<close>

text \<open>
  Everything that can happen to a connection: a segment that was demultiplexed to it (with its
  timestamp), an expired timer, its process, an action of the application, and memory pressure.
\<close>

datatype tcp_input =
    In_segment rx_env tcp_header tcp_options "u8 list"
  | In_retry xmit_env
  | In_keepalive xmit_env
  | In_wait u64
  | In_process xmit_env
  | In_app app_action xmit_env
  | In_discard

fun tcp_enabled :: "tcp_connection \<Rightarrow> tcp_input \<Rightarrow> bool" where
  "tcp_enabled tcp (In_segment env hdr options iobuf) \<longleftrightarrow> listed tcp"
| "tcp_enabled tcp (In_retry env) \<longleftrightarrow> running (retry tcp)"
| "tcp_enabled tcp (In_keepalive env) \<longleftrightarrow> running (keepalive tcp)"
| "tcp_enabled tcp (In_wait now) \<longleftrightarrow> running (wait_timer tcp)"
| "tcp_enabled tcp (In_process env) \<longleftrightarrow> tcp_process tcp"
| "tcp_enabled tcp (In_app act env) \<longleftrightarrow> xf_status (tcp_xfer tcp) = Xfer_open"
| "tcp_enabled tcp In_discard \<longleftrightarrow> listed tcp"

fun tcp_handle :: "tcp_connection \<Rightarrow> tcp_input \<Rightarrow> tcp_connection" where
  "tcp_handle tcp (In_segment env hdr options iobuf) =
     fst (tcp_rx_connection env (rx_timestamp tcp options) hdr options iobuf)"
| "tcp_handle tcp (In_retry env) = retry_fires env tcp"
| "tcp_handle tcp (In_keepalive env) = keepalive_fires env tcp"
| "tcp_handle tcp (In_wait now) = wait_fires now tcp"
| "tcp_handle tcp (In_process env) = tcp_step_process env tcp"
| "tcp_handle tcp (In_app act env) = app_act tcp (act, env)"
| "tcp_handle tcp In_discard = discard_rx tcp"

text \<open>A connection as it has just been opened.\<close>

definition opened_connection :: "sockaddr_tcpip \<Rightarrow> u32 \<Rightarrow> u64 \<Rightarrow> u16 \<Rightarrow> u64 \<Rightarrow> tcp_connection" where
  "opened_connection peer seq mss port now =
     (new_connection peer seq)\<lparr>tcp_mss := mss, local_port := ucast port,
        retry := start_timer_nodelay now timer_init, pending_flags := 1, listed := True\<rparr>"

lemma tcp_open_opened:
  assumes "tcp_open alloc now random_seq random_port nets netdev_mtu s conns peer st_local = (conns', Inr ())"
  shows "\<exists>mss port. conns' = opened_connection peer random_seq mss port now # conns \<and>
     tcpip_bind random_port st_local (tcp_port_available conns) = Inr port"
  using assms
  by (auto simp: tcp_open_def opened_connection_def new_connection_def pending_get_def Let_def
      split: if_splits sum.splits)

end
