(* ===== verification/TcpAck.thy ===== *)
theory TcpAck
  imports Tcp
begin

text \<open>
  The transmit queue of a TCP connection and the handler of acknowledgements in closed form, for the
  theories on the states and on the data of a connection.
\<close>

section \<open>The transmit queue\<close>

lemma process_tx_loop_data:
  "process_tx_loop r queue n pending = (queue', dest, len, pending') \<Longrightarrow>
   dest = take n (concat queue) \<and> len = min n (length (concat queue))"
proof (induction queue arbitrary: n pending queue' dest len pending')
  case (Cons iobuf queue)
  define frag_len where "frag_len = (if length iobuf > n then n else length iobuf)"
  obtain p q d l p' where rec: "process_tx_loop r queue (n - frag_len) p = (q, d, l, p')"
    and out: "dest = take frag_len iobuf @ d" "len = frag_len + l"
    using Cons.prems by (auto simp: Let_def frag_len_def [symmetric] split: prod.splits)
  have "d = take (n - frag_len) (concat queue)" "l = min (n - frag_len) (length (concat queue))"
    using Cons.IH [OF rec] by simp_all
  then show ?case using out by (cases "n < length iobuf") (auto simp: frag_len_def min_def)
qed simp

lemma process_tx_loop_keep:
  "process_tx_loop False queue n pending = (queue', dest, len, pending') \<Longrightarrow> queue' = queue \<and> pending' = pending"
proof (induction "False" queue n pending arbitrary: queue' dest len pending' rule: process_tx_loop.induct)
  case (2 iobuf queue n pending)
  then show ?case by (auto simp: Let_def split: prod.splits)
qed simp

lemma process_tx_loop_remove:
  "process_tx_loop True queue n pending = (queue', dest, len, pending') \<Longrightarrow>
   concat queue' = drop n (concat queue) \<and> (pending = k + length queue \<longrightarrow> pending' = k + length queue')"
proof (induction queue arbitrary: n pending queue' dest len pending' k)
  case (Cons iobuf queue)
  show ?case
  proof (cases "length iobuf \<le> n")
    case True
    then obtain d l where "process_tx_loop True queue (n - length iobuf) (pending_put pending) = (queue', d, l, pending')"
      using Cons.prems by (auto simp: Let_def split: prod.splits if_splits)
    then have "concat queue' = drop (n - length iobuf) (concat queue)"
      "pending_put pending = k + length queue \<longrightarrow> pending' = k + length queue'" using Cons.IH by blast+
    then show ?thesis using True by (auto simp: pending_put_def)
  next
    case False
    then obtain q d l where "process_tx_loop True queue 0 pending = (q, d, l, pending')"
      "queue' = drop n iobuf # q"
      using Cons.prems by (auto simp: Let_def split: prod.splits if_splits)
    moreover from this(1) have "concat q = drop 0 (concat queue)"
      "pending = Suc k + length queue \<longrightarrow> pending' = Suc k + length q" using Cons.IH by blast+
    ultimately show ?thesis using False by auto
  qed
qed simp

lemma process_tx_queue_payload:
  "fst (snd (tcp_process_tx_queue tcp n False)) = take n (concat (tx_queue tcp))"
  "snd (snd (tcp_process_tx_queue tcp n r)) = min n (length (concat (tx_queue tcp)))"
  using process_tx_loop_data [of False "tx_queue tcp" n "pending_data tcp"]
    process_tx_loop_data [of r "tx_queue tcp" n "pending_data tcp"]
  by (auto simp: tcp_process_tx_queue_def split: prod.split)

lemma xmit_len_eq: "xmit_len tcp = (if TCP_CAN_SEND_DATA (tcp_state tcp) then min (tcp_xmit_win tcp) (length (concat (tx_queue tcp))) else 0)"
  by (simp add: xmit_len_def process_tx_queue_payload)

lemma xmit_len_bounds: "xmit_len tcp \<le> TCP_PATH_MTU" "xmit_len tcp \<le> unat (snd_win tcp)"
    "xmit_len tcp \<le> length (concat (tx_queue tcp))"
  by (auto simp: xmit_len_eq tcp_xmit_win_def)

text \<open>What is left of the transmit queue, and its pending count, when \<open>n\<close> bytes are removed.\<close>

definition acked_queue :: "tcp_connection \<Rightarrow> nat \<Rightarrow> u8 list list \<times> nat" where
  "acked_queue tcp n = (case process_tx_loop True (tx_queue tcp) n (pending_data tcp) of (q, _, _, p) \<Rightarrow> (q, p))"

lemma acked_queue_spec:
  assumes "acked_queue tcp n = (q, p)"
  shows "concat q = drop n (concat (tx_queue tcp))" and "pending_data tcp = length (tx_queue tcp) \<Longrightarrow> p = length q"
  using assms process_tx_loop_remove [of "tx_queue tcp" n "pending_data tcp" _ _ _ _ 0]
  by (auto simp: acked_queue_def split: prod.splits)

lemma process_tx_queue_remove:
  "fst (tcp_process_tx_queue tcp n True) =
     tcp\<lparr>tx_queue := fst (acked_queue tcp n), pending_data := snd (acked_queue tcp n)\<rparr>"
  by (simp add: tcp_process_tx_queue_def acked_queue_def split: prod.split)

lemma acked_queue_cong:
  "tx_queue tcp = tx_queue tcp' \<Longrightarrow> pending_data tcp = pending_data tcp' \<Longrightarrow> acked_queue tcp n = acked_queue tcp' n"
  by (simp add: acked_queue_def)

section \<open>Acknowledgements\<close>

definition acked_flags :: "u32 \<Rightarrow> u32" where
  "acked_flags st = TCP_FLAGS_SENDING st AND (TCP_SYN OR TCP_FIN)"

text \<open>The state after an acknowledgement of new data, and whether the FIN is sent as a consequence.\<close>

definition acked_state :: "u32 \<Rightarrow> u32" where
  "acked_state st = st OR TCP_STATE_ACKED (acked_flags st)"

definition starts_fin :: "tcp_connection \<Rightarrow> u8 list list \<Rightarrow> bool" where
  "starts_fin tcp q \<longleftrightarrow> q = [] \<and> tcp_flags tcp AND TCP_XFER_CLOSED \<noteq> 0 \<and>
     acked_state (tcp_state tcp) AND TCP_STATE_SENT TCP_FIN = 0"

text \<open>The part of the handler for an acknowledgement of new data, in closed form.\<close>

definition acked_len :: "tcp_connection \<Rightarrow> u32 \<Rightarrow> nat" where
  "acked_len tcp ack = (if acked_flags (tcp_state tcp) \<noteq> 0 then unat (ack - snd_seq tcp) - 1
     else unat (ack - snd_seq tcp))"

definition acked_pending :: "tcp_connection \<Rightarrow> nat" where
  "acked_pending tcp = (if acked_flags (tcp_state tcp) \<noteq> 0 then pending_put (pending_flags tcp) else pending_flags tcp)"

lemma tcp_acked_eq:
  assumes "acked_queue tcp (acked_len tcp ack) = (q, p)"
  shows "tcp_acked now tcp ack =
     tcp\<lparr>retry := stop_timer now (retry tcp),
         pending_flags := (if starts_fin tcp q then acked_pending tcp + 1 else acked_pending tcp),
         snd_seq := ack, snd_sent := 0, tx_queue := q, pending_data := p,
         tcp_state := (if starts_fin tcp q then acked_state (tcp_state tcp) OR TCP_STATE_SENT TCP_FIN
                       else acked_state (tcp_state tcp))\<rparr>"
proof -
  define t where "t = tcp\<lparr>retry := stop_timer now (retry tcp), pending_flags := acked_pending tcp,
      snd_seq := ack, snd_sent := 0\<rparr>"
  have aq: "acked_queue t (acked_len tcp ack) = (q, p)"
    using assms acked_queue_cong [of t tcp] by (simp add: t_def)
  have st: "acked_flags st = 0 \<Longrightarrow> acked_state st = st" for st
    by (simp add: acked_state_def TCP_STATE_ACKED_def)
  define u where "u = t\<lparr>tx_queue := q, pending_data := p, tcp_state := acked_state (tcp_state tcp)\<rparr>"
  have "tcp_acked now tcp ack =
      (if tx_queue u = [] \<and> tcp_flags u AND TCP_XFER_CLOSED \<noteq> 0 \<and> tcp_state u AND TCP_STATE_SENT TCP_FIN = 0
       then u\<lparr>tcp_state := tcp_state u OR TCP_STATE_SENT TCP_FIN, pending_flags := pending_get (pending_flags u)\<rparr>
       else u)"
  proof (cases "acked_flags (tcp_state tcp) = 0")
    case True
    then have u: "u = fst (tcp_process_tx_queue t (acked_len tcp ack) True)"
      by (simp add: u_def process_tx_queue_remove aq st) (simp add: t_def)
    show ?thesis unfolding u unfolding tcp_acked_def Let_def
      using True by (simp add: t_def acked_flags_def acked_len_def acked_pending_def)
  next
    case False
    then have u: "u = (fst (tcp_process_tx_queue t (acked_len tcp ack) True))\<lparr>tcp_state := tcp_state tcp OR TCP_STATE_ACKED (acked_flags (tcp_state tcp))\<rparr>"
      by (simp add: u_def process_tx_queue_remove aq acked_state_def)
    show ?thesis unfolding u unfolding tcp_acked_def Let_def
      using False by (simp add: t_def acked_flags_def acked_len_def acked_pending_def process_tx_queue_remove)
  qed
  then show ?thesis by (simp add: u_def t_def starts_fin_def pending_get_def)
qed

lemma tcp_rx_ack_cases:
  obtains (rejected) "tcp_rx_ack now tcp ack win = (tcp, Inl EINVAL)"
      and "ack - snd_seq tcp > snd_sent tcp" and "\<not> TCP_HAS_BEEN_ESTABLISHED (tcp_state tcp)"
  | (ignored) "tcp_rx_ack now tcp ack win = (tcp, Inr ())"
      and "ack - snd_seq tcp > snd_sent tcp" and "TCP_HAS_BEEN_ESTABLISHED (tcp_state tcp)"
  | (duplicate) k where "tcp_rx_ack now tcp ack win = (tcp\<lparr>snd_win := win, keepalive := k\<rparr>, Inr ())"
      and "ack = snd_seq tcp"
  | (acked) k q p where
      "tcp_rx_ack now tcp ack win =
         (tcp\<lparr>snd_win := win, keepalive := k, retry := stop_timer now (retry tcp),
              pending_flags := (if starts_fin tcp q then acked_pending tcp + 1 else acked_pending tcp),
              snd_seq := ack, snd_sent := 0, tx_queue := q, pending_data := p,
              tcp_state := (if starts_fin tcp q then acked_state (tcp_state tcp) OR TCP_STATE_SENT TCP_FIN
                            else acked_state (tcp_state tcp))\<rparr>, Inr ())"
      and "acked_queue tcp (acked_len tcp ack) = (q, p)"
      and "ack - snd_seq tcp \<le> snd_sent tcp" and "ack \<noteq> snd_seq tcp"
proof (cases "ack - snd_seq tcp > snd_sent tcp")
  case True
  then show ?thesis using rejected ignored by (cases "TCP_HAS_BEEN_ESTABLISHED (tcp_state tcp)") (simp_all add: tcp_rx_ack_def)
next
  case False
  define k where "k = (if tcp_state tcp AND TCP_STATE_SENT TCP_FIN = 0
      then start_timer_fixed now (keepalive tcp) TCP_KEEPALIVE_DELAY else keepalive tcp)"
  show ?thesis
  proof (cases "ack = snd_seq tcp")
    case True
    then show ?thesis by (intro duplicate [of k]) (simp_all add: tcp_rx_ack_def k_def Let_def)
  next
    case ne: False
    define t where "t = tcp\<lparr>snd_win := win, keepalive := k\<rparr>"
    obtain q p where qp: "acked_queue tcp (acked_len tcp ack) = (q, p)" by (metis surj_pair)
    have same: "acked_len t ack = acked_len tcp ack" "acked_pending t = acked_pending tcp"
        "starts_fin t q = starts_fin tcp q" "acked_queue t n = acked_queue tcp n" for n
      by (simp_all add: t_def acked_len_def acked_pending_def starts_fin_def acked_queue_def)
    have "tcp_rx_ack now tcp ack win = (tcp_acked now t ack, Inr ())"
      using False ne by (simp add: tcp_rx_ack_def t_def k_def)
    also have "tcp_acked now t ack =
         tcp\<lparr>snd_win := win, keepalive := k, retry := stop_timer now (retry tcp),
              pending_flags := (if starts_fin tcp q then acked_pending tcp + 1 else acked_pending tcp),
              snd_seq := ack, snd_sent := 0, tx_queue := q, pending_data := p,
              tcp_state := (if starts_fin tcp q then acked_state (tcp_state tcp) OR TCP_STATE_SENT TCP_FIN
                            else acked_state (tcp_state tcp))\<rparr>"
      using tcp_acked_eq [of t ack q p] qp unfolding same by (simp add: t_def)
    finally show ?thesis using False ne qp by (intro acked [where k = k and q = q and p = p]) simp_all
  qed
qed

end
