(* ===== verification/TcpState.thy ===== *)
theory TcpState
  imports TcpAck
begin

text \<open>
  The states of a TCP connection: the well-formedness of every connection that is reachable by events
  in any order, and with it the assertions of the source.
\<close>

section \<open>The named states\<close>

lemma state_num:
  "TCP_SYN_SENT = 2" "TCP_SYN_RCVD = 0x20012" "TCP_ESTABLISHED = 0x20212" "TCP_FIN_WAIT_1 = 0x20213"
  "TCP_FIN_WAIT_2 = 0x20313" "TCP_CLOSING_OR_LAST_ACK = 0x30213" "TCP_TIME_WAIT = 0x30313"
  "TCP_CLOSE_WAIT = 0x30212" "TCP_CLOSED = 4"
  by (simp_all add: tcp_consts)

lemma flag_num:
  "TCP_STATE_RCVD TCP_SYN = 0x20000" "TCP_STATE_RCVD TCP_FIN = 0x10000" "TCP_STATE_ACKED TCP_SYN = 0x200"
  "TCP_STATE_SENT TCP_FIN = 1" "TCP_STATE_SENT TCP_ACK = 0x10" "TCP_SYN OR TCP_FIN = 3"
  by (simp_all add: tcp_consts)

lemma acked_num [simp]:
  "acked_flags 2 = 2" "acked_flags 0x20012 = 2" "acked_flags 0x30012 = 2" "acked_flags 0x20212 = 0"
  "acked_flags 0x20213 = 1" "acked_flags 0x20313 = 0" "acked_flags 0x30213 = 1" "acked_flags 0x30313 = 0"
  "acked_flags 0x30212 = 0"
  "acked_state 2 = 0x202" "acked_state 0x20012 = 0x20212" "acked_state 0x30012 = 0x30212"
  "acked_state 0x20212 = 0x20212" "acked_state 0x20213 = 0x20313" "acked_state 0x20313 = 0x20313"
  "acked_state 0x30213 = 0x30313" "acked_state 0x30313 = 0x30313" "acked_state 0x30212 = 0x30212"
  by (simp_all add: acked_state_def acked_flags_def tcp_consts)

lemma sending_num:
  "TCP_FLAGS_SENDING 2 AND 3 = 2" "TCP_FLAGS_SENDING 0x20012 AND 3 = 2" "TCP_FLAGS_SENDING 0x20212 AND 3 = 0"
  "TCP_FLAGS_SENDING 0x20213 AND 3 = 1" "TCP_FLAGS_SENDING 0x20313 AND 3 = 0"
  "TCP_FLAGS_SENDING 0x30213 AND 3 = 1" "TCP_FLAGS_SENDING 0x30313 AND 3 = 0"
  "TCP_FLAGS_SENDING 0x30212 AND 3 = 0" "TCP_FLAGS_SENDING 4 AND 3 = 0"
  by (simp_all add: tcp_consts)

lemma can_send_num:
  "TCP_CAN_SEND_DATA st \<longleftrightarrow> st AND 0x201 = 0x200"
  by (simp add: tcp_consts)

text \<open>The flag that the data transfer interface has been closed is the lowest bit.\<close>

lemma xfer_closed_bit: "f AND TCP_XFER_CLOSED = 0 \<longleftrightarrow> \<not> bit f 0"
  by (simp add: TCP_XFER_CLOSED_def and_one_eq even_iff_mod_2_eq_zero bit_0)

lemma xfer_closed_flags [simp]:
  "bit (f OR TCP_XFER_CLOSED) 0" "bit (f OR TCP_ACK_PENDING) 0 = bit f 0" "bit (f AND NOT TCP_ACK_PENDING) 0 = bit f 0"
  "bit (f OR TCP_TS_ENABLED) 0 = bit f 0" "bit (f OR TCP_SACK_ENABLED) 0 = bit f 0"
  by (simp_all add: bit_or_iff bit_and_iff bit_not_iff tcp_consts)

definition tcp_states :: "u32 list" where
  "tcp_states = [TCP_SYN_SENT, TCP_SYN_RCVD, TCP_ESTABLISHED, TCP_FIN_WAIT_1, TCP_FIN_WAIT_2,
     TCP_CLOSING_OR_LAST_ACK, TCP_TIME_WAIT, TCP_CLOSE_WAIT, TCP_CLOSED]"

text \<open>
  The invariant without what concerns the data transfer interface; it also holds while a FIN that
  arrived before our SYN was acknowledged is being handled.
\<close>

definition tcp_inv0 :: "tcp_connection \<Rightarrow> bool" where
  "tcp_inv0 tcp \<longleftrightarrow>
     tcp_state tcp \<in> set (0x30012 # tcp_states) \<and>
     (running (retry tcp) \<longrightarrow> tcp_expired_ok (tcp_state tcp) \<or> tcp_state tcp = 0x30012) \<and>
     (running (wait_timer tcp) \<longrightarrow> tcp_state tcp = TCP_TIME_WAIT) \<and>
     pending_data tcp = length (tx_queue tcp) \<and>
     pending_flags tcp =
       (if tcp_state tcp \<in> {TCP_SYN_SENT, TCP_SYN_RCVD, 0x30012, TCP_FIN_WAIT_1, TCP_CLOSING_OR_LAST_ACK} then 1 else 0) \<and>
     (tcp_state tcp \<in> {TCP_FIN_WAIT_1, TCP_FIN_WAIT_2, TCP_CLOSING_OR_LAST_ACK, TCP_TIME_WAIT, TCP_CLOSED} \<longrightarrow>
        tx_queue tcp = []) \<and>
     (tcp_state tcp = TCP_SYN_SENT \<longrightarrow> snd_sent tcp \<le> 1) \<and>
     (tcp_state tcp \<in> {TCP_SYN_RCVD, 0x30012} \<longrightarrow> snd_sent tcp = 1) \<and>
     (tcp_state tcp \<in> {TCP_FIN_WAIT_1, TCP_CLOSING_OR_LAST_ACK} \<longrightarrow> snd_sent tcp \<le> 1) \<and>
     (tcp_state tcp \<in> {TCP_FIN_WAIT_2, TCP_TIME_WAIT} \<longrightarrow> snd_sent tcp = 0) \<and>
     (tcp_state tcp \<in> {TCP_ESTABLISHED, TCP_CLOSE_WAIT} \<longrightarrow> unat (snd_sent tcp) \<le> length (concat (tx_queue tcp))) \<and>
     (tcp_state tcp \<in> {TCP_SYN_SENT, TCP_CLOSED} \<longrightarrow> rx_queue tcp = []) \<and>
     (listed tcp \<longleftrightarrow> tcp_state tcp \<noteq> TCP_CLOSED) \<and>
     (tcp_state tcp = TCP_CLOSED \<longrightarrow> \<not> running (keepalive tcp) \<and> \<not> tcp_process tcp)"

definition tcp_inv :: "tcp_connection \<Rightarrow> bool" where
  "tcp_inv tcp \<longleftrightarrow> tcp_inv0 tcp \<and> tcp_state tcp \<noteq> 0x30012 \<and>
     (bit (tcp_flags tcp) 0 \<longleftrightarrow> xf_status (tcp_xfer tcp) \<noteq> Xfer_open) \<and>
     (tcp_state tcp \<in> {TCP_SYN_SENT, TCP_SYN_RCVD} \<longrightarrow> xf_status (tcp_xfer tcp) = Xfer_open) \<and>
     (tcp_state tcp \<notin> {TCP_SYN_SENT, TCP_SYN_RCVD, TCP_ESTABLISHED} \<longrightarrow> xf_status (tcp_xfer tcp) \<noteq> Xfer_open)"

lemmas inv_defs = tcp_inv_def tcp_inv0_def tcp_states_def tcp_expired_ok_def state_num

lemma tcp_inv_states:
  assumes "tcp_inv tcp"
  obtains "tcp_state tcp = 2" | "tcp_state tcp = 0x20012" | "tcp_state tcp = 0x20212" | "tcp_state tcp = 0x20213"
    | "tcp_state tcp = 0x20313" | "tcp_state tcp = 0x30213" | "tcp_state tcp = 0x30313" | "tcp_state tcp = 0x30212"
    | "tcp_state tcp = 4"
proof -
  have "tcp_state tcp \<in> set tcp_states"
    using assms unfolding tcp_inv_def tcp_inv0_def by (metis set_ConsD)
  then show ?thesis using that unfolding tcp_states_def state_num by (auto simp only: set_simps)
qed

text \<open>The invariant, state by state.\<close>

lemma inv_at:
  "tcp_state tcp = 2 \<Longrightarrow> tcp_inv tcp \<longleftrightarrow>
     \<not> running (wait_timer tcp) \<and> pending_data tcp = length (tx_queue tcp) \<and> pending_flags tcp = 1 \<and>
     snd_sent tcp \<le> 1 \<and> rx_queue tcp = [] \<and> listed tcp \<and>
     \<not> bit (tcp_flags tcp) 0 \<and> xf_status (tcp_xfer tcp) = Xfer_open"
  "tcp_state tcp = 0x20012 \<Longrightarrow> tcp_inv tcp \<longleftrightarrow>
     \<not> running (wait_timer tcp) \<and> pending_data tcp = length (tx_queue tcp) \<and> pending_flags tcp = 1 \<and>
     snd_sent tcp = 1 \<and> listed tcp \<and> \<not> bit (tcp_flags tcp) 0 \<and> xf_status (tcp_xfer tcp) = Xfer_open"
  "tcp_state tcp = 0x20212 \<Longrightarrow> tcp_inv tcp \<longleftrightarrow>
     \<not> running (wait_timer tcp) \<and> pending_data tcp = length (tx_queue tcp) \<and> pending_flags tcp = 0 \<and>
     unat (snd_sent tcp) \<le> length (concat (tx_queue tcp)) \<and> listed tcp \<and>
     (bit (tcp_flags tcp) 0 \<longleftrightarrow> xf_status (tcp_xfer tcp) \<noteq> Xfer_open)"
  "tcp_state tcp = 0x20213 \<Longrightarrow> tcp_inv tcp \<longleftrightarrow>
     \<not> running (wait_timer tcp) \<and> pending_data tcp = length (tx_queue tcp) \<and> pending_flags tcp = 1 \<and>
     tx_queue tcp = [] \<and> snd_sent tcp \<le> 1 \<and> listed tcp \<and>
     bit (tcp_flags tcp) 0 \<and> xf_status (tcp_xfer tcp) \<noteq> Xfer_open"
  "tcp_state tcp = 0x20313 \<Longrightarrow> tcp_inv tcp \<longleftrightarrow>
     \<not> running (retry tcp) \<and> \<not> running (wait_timer tcp) \<and>
     pending_data tcp = length (tx_queue tcp) \<and> pending_flags tcp = 0 \<and> tx_queue tcp = [] \<and>
     snd_sent tcp = 0 \<and> listed tcp \<and> bit (tcp_flags tcp) 0 \<and> xf_status (tcp_xfer tcp) \<noteq> Xfer_open"
  "tcp_state tcp = 0x30213 \<Longrightarrow> tcp_inv tcp \<longleftrightarrow>
     \<not> running (wait_timer tcp) \<and> pending_data tcp = length (tx_queue tcp) \<and> pending_flags tcp = 1 \<and>
     tx_queue tcp = [] \<and> snd_sent tcp \<le> 1 \<and> listed tcp \<and>
     bit (tcp_flags tcp) 0 \<and> xf_status (tcp_xfer tcp) \<noteq> Xfer_open"
  "tcp_state tcp = 0x30313 \<Longrightarrow> tcp_inv tcp \<longleftrightarrow>
     \<not> running (retry tcp) \<and> pending_data tcp = length (tx_queue tcp) \<and> pending_flags tcp = 0 \<and>
     tx_queue tcp = [] \<and> snd_sent tcp = 0 \<and> listed tcp \<and>
     bit (tcp_flags tcp) 0 \<and> xf_status (tcp_xfer tcp) \<noteq> Xfer_open"
  "tcp_state tcp = 0x30212 \<Longrightarrow> tcp_inv tcp \<longleftrightarrow>
     \<not> running (wait_timer tcp) \<and> pending_data tcp = length (tx_queue tcp) \<and> pending_flags tcp = 0 \<and>
     unat (snd_sent tcp) \<le> length (concat (tx_queue tcp)) \<and> listed tcp \<and>
     bit (tcp_flags tcp) 0 \<and> xf_status (tcp_xfer tcp) \<noteq> Xfer_open"
  "tcp_state tcp = 4 \<Longrightarrow> tcp_inv tcp \<longleftrightarrow>
     \<not> running (retry tcp) \<and> \<not> running (wait_timer tcp) \<and>
     pending_data tcp = length (tx_queue tcp) \<and> pending_flags tcp = 0 \<and> tx_queue tcp = [] \<and>
     rx_queue tcp = [] \<and> \<not> listed tcp \<and> \<not> running (keepalive tcp) \<and> \<not> tcp_process tcp \<and>
     bit (tcp_flags tcp) 0 \<and> xf_status (tcp_xfer tcp) \<noteq> Xfer_open"
  by (simp_all add: inv_defs, blast+)

lemma inv0_at:
  "tcp_state tcp = 2 \<Longrightarrow> tcp_inv0 tcp \<longleftrightarrow>
     \<not> running (wait_timer tcp) \<and> pending_data tcp = length (tx_queue tcp) \<and> pending_flags tcp = 1 \<and>
     snd_sent tcp \<le> 1 \<and> rx_queue tcp = [] \<and> listed tcp"
  "tcp_state tcp = 0x20012 \<Longrightarrow> tcp_inv0 tcp \<longleftrightarrow>
     \<not> running (wait_timer tcp) \<and> pending_data tcp = length (tx_queue tcp) \<and> pending_flags tcp = 1 \<and>
     snd_sent tcp = 1 \<and> listed tcp"
  "tcp_state tcp = 0x20212 \<Longrightarrow> tcp_inv0 tcp \<longleftrightarrow>
     \<not> running (wait_timer tcp) \<and> pending_data tcp = length (tx_queue tcp) \<and> pending_flags tcp = 0 \<and>
     unat (snd_sent tcp) \<le> length (concat (tx_queue tcp)) \<and> listed tcp"
  "tcp_state tcp = 0x20213 \<Longrightarrow> tcp_inv0 tcp \<longleftrightarrow>
     \<not> running (wait_timer tcp) \<and> pending_data tcp = length (tx_queue tcp) \<and> pending_flags tcp = 1 \<and>
     tx_queue tcp = [] \<and> snd_sent tcp \<le> 1 \<and> listed tcp"
  "tcp_state tcp = 0x20313 \<Longrightarrow> tcp_inv0 tcp \<longleftrightarrow>
     \<not> running (retry tcp) \<and> \<not> running (wait_timer tcp) \<and>
     pending_data tcp = length (tx_queue tcp) \<and> pending_flags tcp = 0 \<and> tx_queue tcp = [] \<and>
     snd_sent tcp = 0 \<and> listed tcp"
  "tcp_state tcp = 0x30213 \<Longrightarrow> tcp_inv0 tcp \<longleftrightarrow>
     \<not> running (wait_timer tcp) \<and> pending_data tcp = length (tx_queue tcp) \<and> pending_flags tcp = 1 \<and>
     tx_queue tcp = [] \<and> snd_sent tcp \<le> 1 \<and> listed tcp"
  "tcp_state tcp = 0x30313 \<Longrightarrow> tcp_inv0 tcp \<longleftrightarrow>
     \<not> running (retry tcp) \<and> pending_data tcp = length (tx_queue tcp) \<and> pending_flags tcp = 0 \<and>
     tx_queue tcp = [] \<and> snd_sent tcp = 0 \<and> listed tcp"
  "tcp_state tcp = 0x30212 \<Longrightarrow> tcp_inv0 tcp \<longleftrightarrow>
     \<not> running (wait_timer tcp) \<and> pending_data tcp = length (tx_queue tcp) \<and> pending_flags tcp = 0 \<and>
     unat (snd_sent tcp) \<le> length (concat (tx_queue tcp)) \<and> listed tcp"
  "tcp_state tcp = 4 \<Longrightarrow> tcp_inv0 tcp \<longleftrightarrow>
     \<not> running (retry tcp) \<and> \<not> running (wait_timer tcp) \<and>
     pending_data tcp = length (tx_queue tcp) \<and> pending_flags tcp = 0 \<and> tx_queue tcp = [] \<and>
     rx_queue tcp = [] \<and> \<not> listed tcp \<and> \<not> running (keepalive tcp) \<and> \<not> tcp_process tcp"
  "tcp_state tcp = 0x30012 \<Longrightarrow> tcp_inv0 tcp \<longleftrightarrow>
     \<not> running (wait_timer tcp) \<and> pending_data tcp = length (tx_queue tcp) \<and> pending_flags tcp = 1 \<and>
     snd_sent tcp = 1 \<and> listed tcp"
  by (simp_all add: inv_defs)

lemma pending_put_fold: "fold (\<lambda>_. pending_put) xs (length xs) = 0"
proof -
  have "fold (\<lambda>_. pending_put) xs (length xs + n) = n" for n
    by (induction xs arbitrary: n) (simp_all add: pending_put_def)
  from this [of 0] show ?thesis by simp
qed

text \<open>Deletion gives a closed connection.\<close>

lemma tcp_delete_inv:
  assumes "pending_data tcp = length (tx_queue tcp)" and "pending_flags tcp \<le> 2"
    and "bit (tcp_flags tcp) 0" and "xf_status (tcp_xfer tcp) \<noteq> Xfer_open"
  shows "tcp_inv (tcp_delete now tcp)"
proof -
  have "pending_put (pending_put (pending_flags tcp)) = 0" using assms(2) by (auto simp: pending_put_def)
  then show ?thesis using assms
    by (simp add: tcp_delete_def tcp_dump_state_def Let_def pending_put_fold state_num inv_at)
qed

lemma intf_shutdown_status [simp]: "xf_status (intf_shutdown xf rc) \<noteq> Xfer_open"
  by (simp add: intf_shutdown_def)

lemma tcp_close_CLOSED_inv:
  assumes "pending_data tcp = length (tx_queue tcp)" and "pending_flags tcp \<le> 2"
  shows "tcp_inv (tcp_close now (tcp_dump_state (tcp\<lparr>tcp_state := TCP_CLOSED\<rparr>)) rc)"
proof -
  have st: "TCP_CLOSED AND TCP_STATE_RCVD TCP_SYN = 0" by (simp add: tcp_consts)
  show ?thesis unfolding tcp_close_def Let_def tcp_dump_state_def
    using assms by (simp add: st) (intro tcp_delete_inv; simp)
qed

lemma tcp_inv_pending: "tcp_inv tcp \<Longrightarrow> pending_data tcp = length (tx_queue tcp) \<and> pending_flags tcp \<le> 2"
  by (simp add: inv_defs)

text \<open>An acknowledgement, except in SYN_SENT.\<close>

lemma tcp_rx_ack_inv:
  assumes inv: "tcp_inv tcp" and "listed tcp" and "tcp_state tcp \<noteq> 2"
  shows "tcp_inv (fst (tcp_rx_ack now tcp ack win))"
proof (cases rule: tcp_rx_ack_cases [of now tcp ack win])
  case (duplicate k)
  show ?thesis using inv unfolding duplicate(1) fst_conv
    by (rule tcp_inv_states) (use assms in \<open>simp_all add: inv_at\<close>)
next
  case (acked k q p)
  have p: "p = length q" using acked_queue_spec(2) [OF acked(2)] tcp_inv_pending [OF inv] by simp
  have q: "tx_queue tcp = [] \<Longrightarrow> q = []" using acked(2) by (auto simp: acked_queue_def)
  have fin: "starts_fin tcp q \<Longrightarrow> q = [] \<and> bit (tcp_flags tcp) 0 \<and> \<not> bit (acked_state (tcp_state tcp)) 0"
    by (simp add: starts_fin_def xfer_closed_bit flag_num and_one_eq even_iff_mod_2_eq_zero bit_0)
  show ?thesis unfolding acked(1) fst_conv
  proof (cases "starts_fin tcp q")
    case True
    then have "q = []" "bit (tcp_flags tcp) 0" "\<not> bit (acked_state (tcp_state tcp)) 0" using fin by auto
    note facts = this inv assms(2,3) True p
    show "tcp_inv (tcp\<lparr>snd_win := win, keepalive := k, retry := stop_timer now (retry tcp),
       pending_flags := (if starts_fin tcp q then acked_pending tcp + 1 else acked_pending tcp),
       snd_seq := ack, snd_sent := 0, tx_queue := q, pending_data := p,
       tcp_state := (if starts_fin tcp q then acked_state (tcp_state tcp) OR TCP_STATE_SENT TCP_FIN
                     else acked_state (tcp_state tcp))\<rparr>)"
      using inv
      by (rule tcp_inv_states) (use facts in \<open>simp_all add: inv_at acked_pending_def pending_put_def flag_num\<close>)
  next
    case False
    note facts = this inv assms(2,3) p q
    show "tcp_inv (tcp\<lparr>snd_win := win, keepalive := k, retry := stop_timer now (retry tcp),
       pending_flags := (if starts_fin tcp q then acked_pending tcp + 1 else acked_pending tcp),
       snd_seq := ack, snd_sent := 0, tx_queue := q, pending_data := p,
       tcp_state := (if starts_fin tcp q then acked_state (tcp_state tcp) OR TCP_STATE_SENT TCP_FIN
                     else acked_state (tcp_state tcp))\<rparr>)"
      using inv
      by (rule tcp_inv_states) (use facts in \<open>simp_all add: inv_at acked_pending_def pending_put_def flag_num\<close>)
  qed
qed (use inv in simp_all)

text \<open>
  Closing.  The state may be one in which the FIN of the peer has just been noted, so the invariant is
  not assumed as far as it concerns the interface.
\<close>

lemma starts_fin_empty:
  assumes "acked_queue tcp n = (q, p)" and "tx_queue tcp = []"
  shows "q = []"
  using assms by (auto simp: acked_queue_def)

text \<open>Before our SYN is acknowledged, the acknowledgement is taken for granted.\<close>

lemma pretend_ack:
  assumes "tcp_state tcp = 0x20012 \<or> tcp_state tcp = 0x30012" and "snd_sent tcp = 1"
    and "pending_data tcp = length (tx_queue tcp)" and "bit (tcp_flags tcp) 0" and "pending_flags tcp = 1"
  obtains k q where
    "fst (tcp_rx_ack now tcp (snd_seq tcp + 1) 0) =
       tcp\<lparr>snd_win := 0, keepalive := k, retry := stop_timer now (retry tcp),
           pending_flags := (if q = [] then 1 else 0), snd_seq := snd_seq tcp + 1, snd_sent := 0, tx_queue := q,
           pending_data := length q,
           tcp_state := (if q = [] then tcp_state tcp OR 0x201 else tcp_state tcp OR 0x200)\<rparr>"
    and "concat q = concat (tx_queue tcp)"
proof (cases rule: tcp_rx_ack_cases [of now tcp "snd_seq tcp + 1" 0])
  case (acked k q p)
  have "acked_len tcp (snd_seq tcp + 1) = 0" using assms(1) by (auto simp: acked_len_def)
  then have q: "p = length q" "concat q = concat (tx_queue tcp)"
    using acked_queue_spec [OF acked(2)] assms(3) by simp_all
  have "starts_fin tcp q \<longleftrightarrow> q = []"
    using assms(1,4) by (auto simp: starts_fin_def xfer_closed_bit flag_num)
  then show ?thesis using assms(1,5) q
    by (intro that [where k = k and q = q]) (auto simp: acked(1) acked_pending_def pending_put_def flag_num)
qed (use assms(2) in simp_all)

lemma tcp_close_inv:
  assumes inv: "tcp_inv0 tcp" and "tcp_state tcp \<noteq> 4"
  shows "tcp_inv (tcp_close now tcp rc)"
proof -
  define t where "t = tcp\<lparr>tcp_xfer := intf_shutdown (tcp_xfer tcp) rc, tcp_flags := tcp_flags tcp OR TCP_XFER_CLOSED\<rparr>"
  have t: "bit (tcp_flags t) 0" "xf_status (tcp_xfer t) \<noteq> Xfer_open" "tcp_state t = tcp_state tcp"
    "tx_queue t = tx_queue tcp" "pending_data t = pending_data tcp" "pending_flags t = pending_flags tcp"
    "snd_sent t = snd_sent tcp" "retry t = retry tcp" "wait_timer t = wait_timer tcp" "listed t = listed tcp"
    "snd_seq t = snd_seq tcp"
    by (simp_all add: t_def)
  have state: "tcp_state tcp = 0x30012 \<or> tcp_state tcp \<in> set tcp_states"
    using inv by (auto simp: tcp_inv0_def)
  consider "tcp_state tcp = 2" | "tcp_state tcp = 0x20012 \<or> tcp_state tcp = 0x30012"
    | "tcp_state tcp = 0x20212" | "tcp_state tcp = 0x30212"
    | "tcp_state tcp = 0x20213" | "tcp_state tcp = 0x20313" | "tcp_state tcp = 0x30213" | "tcp_state tcp = 0x30313"
    using state assms(2) unfolding tcp_states_def state_num by (auto simp only: set_simps)
  then show ?thesis
  proof cases
    case 1
    then have "tcp_close now tcp rc = tcp_delete now t" by (simp add: tcp_close_def t_def Let_def flag_num)
    moreover have "tcp_inv (tcp_delete now t)"
      using inv 1 t by (intro tcp_delete_inv) (simp_all add: inv0_at)
    ultimately show ?thesis by simp
  next
    case 2
    have pre: "snd_sent t = 1" "pending_data t = length (tx_queue t)" "pending_flags t = 1"
        "\<not> running (wait_timer t)" "listed t"
      using inv 2 t by (auto simp: inv0_at)
    obtain k q where ack: "fst (tcp_rx_ack now t (snd_seq t + 1) 0) =
       t\<lparr>snd_win := 0, keepalive := k, retry := stop_timer now (retry t),
           pending_flags := (if q = [] then 1 else 0), snd_seq := snd_seq t + 1, snd_sent := 0, tx_queue := q,
           pending_data := length q,
           tcp_state := (if q = [] then tcp_state t OR 0x201 else tcp_state t OR 0x200)\<rparr>"
      using 2 pre t by (metis pretend_ack)
    have "tcp_close now tcp rc =
        (let u = fst (tcp_rx_ack now t (snd_seq t + 1) 0); v = u\<lparr>keepalive := stop_timer now (keepalive u)\<rparr>
         in if tx_queue v = [] \<and> tcp_state v AND TCP_STATE_SENT TCP_FIN = 0
            then (tcp_dump_state (v\<lparr>tcp_state := tcp_state v OR TCP_STATE_SENT TCP_FIN\<rparr>))
                     \<lparr>tcp_process := True, pending_flags := pending_get (pending_flags v)\<rparr>
            else v)"
      unfolding tcp_close_def t_def [symmetric] Let_def using 2 t by (auto simp: flag_num)
    also have "tcp_inv \<dots>" unfolding ack
      using 2 t pre by (cases "q = []") (auto simp: Let_def flag_num inv_at)
    finally show ?thesis .
  next
    case 3
    then show ?thesis using inv t unfolding tcp_close_def t_def [symmetric] Let_def
      by (cases "tx_queue tcp = []") (simp_all add: flag_num inv0_at inv_at tcp_dump_state_def pending_get_def unat_eq_zero)
  next
    case 4
    then show ?thesis using inv t unfolding tcp_close_def t_def [symmetric] Let_def
      by (cases "tx_queue tcp = []") (simp_all add: flag_num inv0_at inv_at tcp_dump_state_def pending_get_def unat_eq_zero)
  qed (use inv t in \<open>simp add: tcp_close_def t_def [symmetric] Let_def flag_num inv0_at inv_at\<close>)+
qed

text \<open>Transmission.\<close>

lemma xmit_seq_len_num:
  "tcp_state tcp = 2 \<Longrightarrow> xmit_seq_len tcp = 1" "tcp_state tcp = 0x20012 \<Longrightarrow> xmit_seq_len tcp = 1"
  "tcp_state tcp = 0x20213 \<Longrightarrow> xmit_seq_len tcp = 1" "tcp_state tcp = 0x30213 \<Longrightarrow> xmit_seq_len tcp = 1"
  "tcp_state tcp = 0x20313 \<Longrightarrow> xmit_seq_len tcp = 0" "tcp_state tcp = 0x30313 \<Longrightarrow> xmit_seq_len tcp = 0"
  "tcp_state tcp = 4 \<Longrightarrow> xmit_seq_len tcp = 0"
  by (simp_all add: xmit_seq_len_def xmit_len_eq can_send_num flag_num sending_num)

lemma xmit_seq_len_data:
  assumes "tcp_state tcp = 0x20212 \<or> tcp_state tcp = 0x30212"
  shows "unat (xmit_seq_len tcp) = xmit_len tcp" and "xmit_len tcp \<le> length (concat (tx_queue tcp))"
proof -
  have "xmit_len tcp \<le> 1208" using xmit_len_bounds(1) [of tcp] by (simp add: tcp_consts)
  moreover have "xmit_seq_len tcp = word_of_nat (xmit_len tcp)"
    using assms by (auto simp: xmit_seq_len_def flag_num sending_num)
  ultimately show "unat (xmit_seq_len tcp) = xmit_len tcp" by (simp add: unat_of_nat_u32)
qed (rule xmit_len_bounds)

lemma tcp_xmit_sack_inv:
  assumes inv: "tcp_inv tcp"
  shows "tcp_inv (tcp_xmit_sack env tcp seq)"
proof -
  have sent: "unat (xmit_seq_len tcp) \<le> length (concat (tx_queue tcp))"
    if "tcp_state tcp = 0x20212 \<or> tcp_state tcp = 0x30212"
    using xmit_seq_len_data [OF that] by simp
  show ?thesis
  proof (cases rule: tcp_xmit_sack_cases [of env tcp seq])
    case (quiet sent)
    show ?thesis using inv unfolding quiet(1)
      by (rule tcp_inv_states) (use inv quiet(2) in \<open>simp_all add: inv_at xmit_seq_len_num split: if_splits\<close>)
  next
    case (no_memory timer q)
    show ?thesis using inv unfolding no_memory(1)
      by (rule tcp_inv_states) (use inv no_memory(2-) sent in \<open>simp_all add: inv_at xmit_seq_len_num\<close>)
  next
    case (packet timer q)
    show ?thesis using inv unfolding packet(1)
      by (rule tcp_inv_states) (use inv packet(2-) sent in \<open>simp_all add: inv_at xmit_seq_len_num\<close>)
  qed
qed

text \<open>The application.\<close>

lemma tcp_inv_inv0: "tcp_inv tcp \<Longrightarrow> tcp_inv0 tcp"
  by (simp add: tcp_inv_def)

lemma tcp_xfer_deliver_inv:
  assumes inv: "tcp_inv tcp" and open_: "xf_status (tcp_xfer tcp) = Xfer_open"
  shows "tcp_inv (tcp_xfer_deliver env tcp iobuf)"
  unfolding tcp_xfer_deliver_def tcp_xmit_def
proof (rule tcp_xmit_sack_inv)
  show "tcp_inv (tcp\<lparr>tcp_xfer := (tcp_xfer tcp)\<lparr>xf_sent := xf_sent (tcp_xfer tcp) @ iobuf\<rparr>,
            tx_queue := tx_queue tcp @ [iobuf], pending_data := pending_get (pending_data tcp)\<rparr>)"
    using inv by (rule tcp_inv_states) (use inv open_ in \<open>simp_all add: inv_at pending_get_def\<close>)
qed

lemma tcp_inv_closed: "tcp_inv tcp \<Longrightarrow> xf_status (tcp_xfer tcp) = Xfer_open \<Longrightarrow> tcp_state tcp \<noteq> 4"
  by (auto simp: inv_at)

lemma tcp_inv0_xfer: "tcp_inv0 (tcp\<lparr>tcp_xfer := x\<rparr>) = tcp_inv0 tcp"
  by (simp add: tcp_inv0_def)

lemma tcp_xfer_close_inv:
  assumes "tcp_inv tcp" and "xf_status (tcp_xfer tcp) = Xfer_open"
  shows "tcp_inv (tcp_xfer_close env tcp rc)"
  unfolding tcp_xfer_close_def tcp_xmit_def
  by (intro tcp_xmit_sack_inv tcp_close_inv)
    (use assms tcp_inv_closed in \<open>simp_all add: tcp_inv0_xfer tcp_inv_inv0\<close>)

lemma app_act_inv: "tcp_inv tcp \<Longrightarrow> tcp_inv (app_act tcp act)"
  by (cases act) (auto simp: tcp_xfer_deliver_inv tcp_xfer_close_inv split: app_action.split)

lemma app_run_inv: "tcp_inv tcp \<Longrightarrow> tcp_inv (app_run acts tcp)"
  by (induction acts arbitrary: tcp) (simp_all add: app_run_def app_act_inv)

section \<open>What the peer has sent\<close>

text \<open>The flags received from the peer are recorded in the upper half of the state word.\<close>

lemma rcvd_bits:
  "x AND TCP_STATE_RCVD TCP_SYN = 0 \<longleftrightarrow> \<not> bit x 17" "x AND TCP_STATE_RCVD TCP_FIN = 0 \<longleftrightarrow> \<not> bit x 16"
proof -
  have "(0x20000 :: u32) = 2 ^ 17" "(0x10000 :: u32) = 2 ^ 16" by simp_all
  then show "x AND TCP_STATE_RCVD TCP_SYN = 0 \<longleftrightarrow> \<not> bit x 17" "x AND TCP_STATE_RCVD TCP_FIN = 0 \<longleftrightarrow> \<not> bit x 16"
    unfolding flag_num by (simp_all only: and_exp_eq_0_iff_not_bit)
qed

lemma acked_state_rcvd [simp]: "10 \<le> n \<Longrightarrow> bit (acked_state st) n = bit st n"
proof -
  assume n: "10 \<le> n"
  have three: "bit (3 :: u32) m \<longleftrightarrow> m < 2" for m
  proof -
    have "(3 :: u32) = mask 2" by (simp add: mask_eq_exp_minus_1)
    then show ?thesis by (simp only: bit_mask_iff) auto
  qed
  show ?thesis
    unfolding acked_state_def acked_flags_def TCP_STATE_ACKED_def flag_num bit_or_iff bit_push_bit_iff bit_and_iff three
    using n by auto
qed

lemma or_one_rcvd [simp]: "10 \<le> n \<Longrightarrow> bit (st OR TCP_STATE_SENT TCP_FIN) n = bit st n" for st :: u32
  by (auto simp: flag_num bit_or_iff bit_1_iff)

lemma rx_ack_rcvd [simp]: "10 \<le> n \<Longrightarrow> bit (tcp_state (fst (tcp_rx_ack now tcp ack win))) n = bit (tcp_state tcp) n"
  by (cases rule: tcp_rx_ack_cases [of now tcp ack win]) simp_all

lemma tcp_close_rcvd:
  "bit (tcp_state tcp) 17 \<Longrightarrow> 10 \<le> n \<Longrightarrow> bit (tcp_state (tcp_close now tcp rc)) n = bit (tcp_state tcp) n"
  by (simp add: tcp_close_def Let_def rcvd_bits tcp_dump_state_def)

lemma tcp_xmit_sack_state [simp]: "tcp_state (tcp_xmit_sack env tcp seq) = tcp_state tcp"
  by (cases rule: tcp_xmit_sack_cases [of env tcp seq]) simp_all

lemma app_act_rcvd:
  "bit (tcp_state tcp) 17 \<Longrightarrow> 10 \<le> n \<Longrightarrow> bit (tcp_state (app_act tcp act)) n = bit (tcp_state tcp) n"
  by (cases act)
    (auto simp: tcp_xfer_deliver_def tcp_xfer_close_def tcp_xmit_def tcp_close_rcvd split: app_action.split)

lemma app_run_rcvd:
  "bit (tcp_state tcp) 17 \<Longrightarrow> 10 \<le> n \<Longrightarrow> bit (tcp_state (app_run acts tcp)) n = bit (tcp_state tcp) n"
  by (induction acts arbitrary: tcp) (simp_all add: app_run_def app_act_rcvd)

lemma xfer_deliver_rcvd:
  "bit (tcp_state tcp) 17 \<Longrightarrow> 10 \<le> n \<Longrightarrow>
   bit (tcp_state (fst (xfer_deliver_iob app tcp iobuf))) n = bit (tcp_state tcp) n"
  by (simp add: xfer_deliver_iob_def Let_def app_run_rcvd split: prod.split)

lemma tcp_rx_data_rcvd:
  "bit (tcp_state tcp) 17 \<Longrightarrow> 10 \<le> n \<Longrightarrow>
   bit (tcp_state (fst (tcp_rx_data app tcp seq iobuf))) n = bit (tcp_state tcp) n"
  by (simp add: tcp_rx_data_def Let_def xfer_deliver_rcvd)

lemma tcp_rx_fin_synced: "bit (tcp_state tcp) 17 \<Longrightarrow> bit (tcp_state (tcp_rx_fin now tcp seq)) 17"
  by (simp add: tcp_rx_fin_def Let_def tcp_close_rcvd bit_or_iff)

lemma process_rx_packet_synced:
  "bit (tcp_state tcp) 17 \<Longrightarrow> bit (tcp_state (process_rx_packet app now tcp q)) 17"
  by (simp add: process_rx_packet_def Let_def tcp_rx_fin_synced tcp_rx_data_rcvd)

lemma synced_num:
  "tcp_inv tcp \<Longrightarrow> bit (tcp_state tcp) 17 \<longleftrightarrow> tcp_state tcp \<noteq> 2 \<and> tcp_state tcp \<noteq> 4"
  by (erule tcp_inv_states) simp_all

section \<open>Reception\<close>

lemma tcp_rx_seq_inv: "tcp_inv (tcp_rx_seq tcp n) = tcp_inv tcp"
  by (simp add: tcp_inv_def tcp_inv0_def)

lemma tcp_inv_frame:
  "tcp_inv (tcp\<lparr>tcp_flags := tcp_flags tcp OR TCP_ACK_PENDING\<rparr>) = tcp_inv tcp"
  "tcp_inv (tcp\<lparr>prev_tcp_state := x\<rparr>) = tcp_inv tcp"
  "tcp_inv (tcp\<lparr>ts_val := y\<rparr>) = tcp_inv tcp"
  "tcp_inv (tcp\<lparr>tcp_resets := z\<rparr>) = tcp_inv tcp"
  "xf_status v = xf_status (tcp_xfer tcp) \<Longrightarrow> tcp_inv (tcp\<lparr>tcp_xfer := v\<rparr>) = tcp_inv tcp"
  by (simp_all add: tcp_inv_def tcp_inv0_def)

lemma tcp_inv_rx_queue:
  assumes inv: "tcp_inv tcp" and "bit (tcp_state tcp) 17 \<or> q = []"
  shows "tcp_inv (tcp\<lparr>rx_queue := q\<rparr>)"
  using inv by (rule tcp_inv_states) (use assms in \<open>auto simp: inv_at\<close>)

lemma xfer_deliver_inv: "tcp_inv tcp \<Longrightarrow> tcp_inv (fst (xfer_deliver_iob app tcp iobuf))"
  by (simp add: xfer_deliver_iob_def Let_def app_run_inv tcp_inv_frame split: prod.split)

lemma tcp_rx_data_inv: "tcp_inv tcp \<Longrightarrow> tcp_inv (fst (tcp_rx_data app tcp seq iobuf))"
  by (simp add: tcp_rx_data_def Let_def xfer_deliver_inv tcp_rx_seq_inv)

lemma tcp_rx_fin_inv:
  assumes inv: "tcp_inv tcp" and "bit (tcp_state tcp) 17"
  shows "tcp_inv (tcp_rx_fin now tcp seq)"
proof -
  define t where "t = (tcp_rx_seq tcp 1)\<lparr>tcp_state := tcp_state tcp OR TCP_STATE_RCVD TCP_FIN\<rparr>"
  have "tcp_inv0 t \<and> tcp_state t \<noteq> 4"
    using inv by (rule tcp_inv_states) (use assms in \<open>simp_all add: t_def flag_num inv_at inv0_at\<close>)
  then have "tcp_inv (tcp_close now t (Inr ()))" by (intro tcp_close_inv) simp_all
  then show ?thesis using inv by (simp add: tcp_rx_fin_def Let_def t_def)
qed

lemma process_rx_packet_inv:
  assumes "tcp_inv tcp" and "bit (tcp_state tcp) 17"
  shows "tcp_inv (process_rx_packet app now tcp q)"
  using assms by (simp add: process_rx_packet_def Let_def tcp_rx_fin_inv tcp_rx_data_inv tcp_rx_data_rcvd tcp_inv_rx_queue)

lemma tcp_process_rx_queue_inv: "tcp_inv tcp \<Longrightarrow> tcp_inv (tcp_process_rx_queue app now tcp)"
proof (induction app now tcp rule: tcp_process_rx_queue.induct)
  case (1 app now tcp)
  show ?case
  proof (cases "rx_queue tcp")
    case Nil
    then show ?thesis using 1(2) by (simp add: tcp_process_rx_queue.simps)
  next
    case (Cons q queue)
    show ?thesis
    proof (cases "tcp_cmp (q_seq q) (rcv_ack tcp) > 0")
      case True
      then show ?thesis using 1(2) Cons by (simp add: tcp_process_rx_queue.simps)
    next
      case False
      have "bit (tcp_state tcp) 17" using 1(2) Cons by (auto simp: synced_num inv_at)
      then have "tcp_inv (process_rx_packet app now tcp q)" using 1(2) by (rule process_rx_packet_inv [rotated])
      then show ?thesis using 1(1) [OF Cons False] Cons False
        by (subst tcp_process_rx_queue.simps) simp
    qed
  qed
qed

lemma discard_rx_inv: "tcp_inv tcp \<Longrightarrow> tcp_inv ((discard_rx ^^ n) tcp)"
proof -
  assume inv: "tcp_inv tcp"
  obtain q where q: "(discard_rx ^^ n) tcp = tcp\<lparr>rx_queue := q\<rparr>" "prefix q (rx_queue tcp)" by (rule discard_rx_cases)
  have "bit (tcp_state tcp) 17 \<or> q = []" using q(2) inv by (auto simp: synced_num inv_at)
  then show ?thesis unfolding q(1) using inv by (rule tcp_inv_rx_queue [rotated])
qed

lemma tcp_xmit_reset_inv: "tcp_inv tcp \<Longrightarrow> tcp_inv (fst (tcp_xmit_reset env tcp a b c d))"
  by (simp add: tcp_xmit_reset_def Let_def discard_rx_inv tcp_inv_frame)

lemma tcp_rx_rst_inv: "tcp_inv tcp \<Longrightarrow> tcp_inv (fst (tcp_rx_rst now tcp seq))"
  using tcp_inv_pending [of tcp] by (simp add: tcp_rx_rst_def tcp_close_CLOSED_inv)

lemma tcp_rx_enqueue_inv: "tcp_inv tcp \<Longrightarrow> tcp_inv (tcp_rx_enqueue tcp seq flags iobuf)"
  by (simp add: tcp_rx_enqueue_def Let_def tcp_inv_rx_queue rcvd_bits)

lemma xfer_window_changed_inv: "tcp_inv tcp \<Longrightarrow> tcp_inv (xfer_window_changed app tcp)"
  by (simp add: xfer_window_changed_def Let_def app_run_inv tcp_inv_frame)

text \<open>A SYN.  In SYN_SENT our own must have been sent.\<close>

lemma tcp_rx_syn_cases:
  obtains (ignored) "tcp_rx_syn tcp seq options = tcp" and "bit (tcp_state tcp) 17" and "seq \<noteq> rcv_ack tcp"
  | (again) "tcp_rx_syn tcp seq options =
      (tcp_rx_seq tcp 1)\<lparr>tcp_state := tcp_state tcp OR (TCP_STATE_SENT TCP_ACK OR TCP_STATE_RCVD TCP_SYN)\<rparr>"
      and "bit (tcp_state tcp) 17" and "seq = rcv_ack tcp"
  | (first) f a b where "tcp_rx_syn tcp seq options =
      (tcp_rx_seq (tcp\<lparr>rcv_ack := seq, tcp_flags := f, snd_win_scale := a, rcv_win_scale := b\<rparr>) 1)
        \<lparr>tcp_state := tcp_state tcp OR (TCP_STATE_SENT TCP_ACK OR TCP_STATE_RCVD TCP_SYN)\<rparr>"
      and "\<not> bit (tcp_state tcp) 17" and "bit f 0 = bit (tcp_flags tcp) 0"
proof (cases "bit (tcp_state tcp) 17")
  case True
  then show ?thesis using ignored again by (cases "seq = rcv_ack tcp") (simp_all add: tcp_rx_syn_def rcvd_bits Let_def)
next
  case False
  define f where "f = (let f = (if tsopt options \<noteq> None then tcp_flags tcp OR TCP_TS_ENABLED else tcp_flags tcp)
     in if spopt options then f OR TCP_SACK_ENABLED else f)"
  define a b where "a = (case wsopt options of Some scale \<Rightarrow> scale | None \<Rightarrow> snd_win_scale tcp)"
    and "b = (case wsopt options of Some scale \<Rightarrow> TCP_RX_WINDOW_SCALE | None \<Rightarrow> rcv_win_scale tcp)"
  define t where "t = tcp\<lparr>rcv_ack := seq, tcp_flags := f, snd_win_scale := a, rcv_win_scale := b\<rparr>"
  have "tcp_rx_syn tcp seq options =
      (tcp_rx_seq t 1)\<lparr>tcp_state := tcp_state tcp OR (TCP_STATE_SENT TCP_ACK OR TCP_STATE_RCVD TCP_SYN)\<rparr>"
    using False by (cases "wsopt options"; cases "tsopt options"; cases "spopt options")
      (simp_all add: tcp_rx_syn_def rcvd_bits Let_def t_def f_def a_def b_def)
  moreover have "bit f 0 = bit (tcp_flags tcp) 0" by (simp add: f_def Let_def)
  ultimately show ?thesis using False unfolding t_def by (intro first [where f = f and a = a and b = b]) simp_all
qed

lemma tcp_rx_syn_inv:
  assumes inv: "tcp_inv tcp" and "listed tcp" and "tcp_state tcp = 2 \<Longrightarrow> snd_sent tcp \<noteq> 0"
  shows "tcp_inv (tcp_rx_syn tcp seq options)"
proof (cases rule: tcp_rx_syn_cases [of tcp seq options])
  case again
  show ?thesis using inv unfolding again(1)
    by (rule tcp_inv_states) (use inv assms(2) again(2) in \<open>simp_all add: inv_at flag_num\<close>)
next
  case (first f a b)
  have "tcp_state tcp = 2" using first(2) assms(1,2) by (auto simp: synced_num inv_at)
  moreover from this have "snd_sent tcp = 1" using assms by (auto simp: inv_at word_le_nat_alt word_unat_eq_iff)
  ultimately show ?thesis unfolding first(1) using inv first(3) by (simp add: inv_at flag_num)
qed (use inv in simp)

text \<open>
  The part of the handler of a segment after its acknowledgement and the SYN, the RST, the data and
  the FIN.
\<close>

definition rx_order :: "tcp_header \<Rightarrow> tcp_connection \<Rightarrow> tcp_connection" where
  "rx_order hdr tcp =
     (if bit (tcp_state tcp) 17 \<and> th_seq hdr \<noteq> rcv_ack tcp
      then tcp\<lparr>tcp_flags := tcp_flags tcp OR TCP_ACK_PENDING\<rparr> else tcp)"

definition rx_syn :: "tcp_header \<Rightarrow> tcp_options \<Rightarrow> tcp_connection \<Rightarrow> tcp_connection" where
  "rx_syn hdr options tcp = (if th_flags hdr AND TCP_SYN \<noteq> 0 then tcp_rx_syn tcp (th_seq hdr) options else tcp)"

definition data_seq :: "tcp_header \<Rightarrow> u32" where
  "data_seq hdr = (if th_flags hdr AND TCP_SYN \<noteq> 0 then th_seq hdr + 1 else th_seq hdr)"

definition rx_rst :: "rx_env \<Rightarrow> tcp_header \<Rightarrow> tcp_connection \<Rightarrow> tcp_connection \<times> unit result" where
  "rx_rst env hdr tcp =
     (if th_flags hdr AND TCP_RST \<noteq> 0 then tcp_rx_rst (rx_now env) tcp (data_seq hdr) else (tcp, Inr ()))"

definition rx_finish :: "rx_env \<Rightarrow> nat \<Rightarrow> u32 \<Rightarrow> tcp_connection \<Rightarrow> tcp_connection" where
  "rx_finish env old_xfer_window seq tcp =
     (let tcp = tcp_dump_state tcp;
          tcp = (if rx_queue tcp = [] then tcp\<lparr>tcp_process := True\<rparr> else tcp_xmit_sack (rx_xmit env) tcp seq);
          tcp = (if TCP_CLOSED_GRACEFULLY (tcp_state tcp)
                 then tcp\<lparr>wait_timer := start_timer_fixed (rx_now env)
                            (stop_timer (rx_now env) (wait_timer tcp)) (2 * TCP_MSL)\<rparr>
                 else tcp)
      in if tcp_xfer_window tcp \<noteq> old_xfer_window then xfer_window_changed (rx_app env) tcp else tcp)"

definition rx_acks :: "rx_env \<Rightarrow> tcp_header \<Rightarrow> tcp_connection \<Rightarrow> tcp_connection \<times> unit result" where
  "rx_acks env hdr tcp =
     (if th_flags hdr AND TCP_ACK \<noteq> 0
      then tcp_rx_ack (rx_now env) tcp (th_ack hdr) (scale_win (th_win hdr) (snd_win_scale tcp))
      else (tcp, Inr ()))"

lemma tcp_rx_connection_eq:
  "fst (tcp_rx_connection env tcp hdr options iobuf) =
     (case rx_acks env hdr tcp of
        (t, Inl e) \<Rightarrow> fst (tcp_xmit_reset (rx_xmit env) t (th_src hdr) (th_dest hdr) (th_seq hdr) (th_ack hdr))
      | (t, Inr _) \<Rightarrow>
          (case rx_rst env hdr (rx_syn hdr options (rx_order hdr t)) of
             (t, Inl e) \<Rightarrow> t
           | (t, Inr _) \<Rightarrow>
               rx_finish env (tcp_xfer_window tcp) (data_seq hdr)
                 (tcp_process_rx_queue (rx_app env) (rx_now env) (tcp_rx_enqueue t (data_seq hdr) (th_flags hdr) iobuf))))"
proof -
  obtain t rc where acks: "rx_acks env hdr tcp = (t, rc)" by (metis surj_pair)
  define u where "u = rx_syn hdr options (rx_order hdr t)"
  obtain v rc' where rst: "rx_rst env hdr u = (v, rc')" by (metis surj_pair)
  show ?thesis
    unfolding tcp_rx_connection_def Let_def rx_acks_def [symmetric] acks prod.case rcvd_bits not_not
      rx_order_def [symmetric]
    by (cases rc; cases "th_flags hdr AND TCP_SYN = 0"; cases "th_flags hdr AND TCP_RST = 0"; cases rc')
      (use rst in \<open>simp_all add: u_def rx_syn_def rx_rst_def data_seq_def rx_finish_def Let_def\<close>)
qed

text \<open>
  The segments that a connection can expect before it is synchronised: our SYN has been sent, and
  whatever acknowledges it carries the SYN of the peer, or resets the connection.
\<close>

definition tcp_expects :: "tcp_connection \<Rightarrow> tcp_header \<Rightarrow> bool" where
  "tcp_expects tcp hdr \<longleftrightarrow>
     (tcp_state tcp = TCP_SYN_SENT \<longrightarrow>
        snd_sent tcp \<noteq> 0 \<and>
        (th_flags hdr AND TCP_ACK \<noteq> 0 \<longrightarrow> th_flags hdr AND TCP_SYN \<noteq> 0 \<or> th_flags hdr AND TCP_RST \<noteq> 0))"

text \<open>Our SYN has been acknowledged, that of the peer has not been handled yet.\<close>

definition syn_acked :: "tcp_connection \<Rightarrow> bool" where
  "syn_acked tcp \<longleftrightarrow> tcp_state tcp = 0x202 \<and> \<not> running (retry tcp) \<and> \<not> running (wait_timer tcp) \<and>
     pending_data tcp = length (tx_queue tcp) \<and> pending_flags tcp = 0 \<and> snd_sent tcp = 0 \<and> rx_queue tcp = [] \<and>
     listed tcp \<and> \<not> bit (tcp_flags tcp) 0 \<and> xf_status (tcp_xfer tcp) = Xfer_open"

lemma tcp_rx_ack_SYN_SENT:
  assumes inv: "tcp_inv tcp" and st: "tcp_state tcp = 2"
  obtains (same) "tcp_inv (fst (tcp_rx_ack now tcp ack win))" and "tcp_state (fst (tcp_rx_ack now tcp ack win)) = 2"
      and "snd_sent (fst (tcp_rx_ack now tcp ack win)) = snd_sent tcp" and "listed (fst (tcp_rx_ack now tcp ack win))"
  | (acked) "syn_acked (fst (tcp_rx_ack now tcp ack win))"
proof (cases rule: tcp_rx_ack_cases [of now tcp ack win])
  case (duplicate k)
  show ?thesis using inv st unfolding duplicate(1) by (intro same) (simp_all add: duplicate(1) inv_at)
next
  case (acked k q p)
  have p: "p = length q" using acked_queue_spec(2) [OF acked(2)] tcp_inv_pending [OF inv] by simp
  have "\<not> starts_fin tcp q" using inv st by (simp add: starts_fin_def xfer_closed_bit inv_at)
  then show ?thesis using inv st p
    by (intro that(2)) (simp add: acked(1) syn_acked_def inv_at acked_pending_def pending_put_def)
qed (use inv st in \<open>intro same; simp add: inv_at\<close>)+

lemma rx_order_inv [simp]: "tcp_inv (rx_order hdr tcp) = tcp_inv tcp"
  by (simp add: rx_order_def tcp_inv_frame)

lemma rx_order_simps [simp]:
  "tcp_state (rx_order hdr tcp) = tcp_state tcp" "snd_sent (rx_order hdr tcp) = snd_sent tcp"
  "listed (rx_order hdr tcp) = listed tcp" "rcv_ack (rx_order hdr tcp) = rcv_ack tcp"
  "rx_queue (rx_order hdr tcp) = rx_queue tcp" "tcp_xfer (rx_order hdr tcp) = tcp_xfer tcp"
  "rcv_win (rx_order hdr tcp) = rcv_win tcp" "wait_timer (rx_order hdr tcp) = wait_timer tcp"
  by (simp_all add: rx_order_def)

lemma rx_syn_inv:
  "tcp_inv tcp \<Longrightarrow> listed tcp \<Longrightarrow> (tcp_state tcp = 2 \<Longrightarrow> snd_sent tcp \<noteq> 0) \<Longrightarrow> tcp_inv (rx_syn hdr options tcp)"
  by (simp add: rx_syn_def tcp_rx_syn_inv)

lemma rx_rst_inv: "tcp_inv tcp \<Longrightarrow> tcp_inv (fst (rx_rst env hdr tcp))"
  by (simp add: rx_rst_def tcp_rx_rst_inv)

lemma syn_acked_syn:
  assumes "syn_acked tcp" and "th_flags hdr AND TCP_SYN \<noteq> 0"
  shows "tcp_inv (rx_syn hdr options (rx_order hdr tcp))"
proof -
  have "rx_order hdr tcp = tcp" using assms(1) by (simp add: rx_order_def syn_acked_def)
  moreover have "tcp_inv (tcp_rx_syn tcp (th_seq hdr) options)"
    by (cases rule: tcp_rx_syn_cases [of tcp "th_seq hdr" options])
      (use assms(1) in \<open>simp_all add: syn_acked_def inv_at flag_num\<close>)
  ultimately show ?thesis using assms(2) by (simp add: rx_syn_def)
qed

lemma syn_acked_rst:
  assumes "syn_acked tcp" and "th_flags hdr AND TCP_SYN = 0" and "th_flags hdr AND TCP_RST \<noteq> 0"
  shows "\<exists>t. rx_rst env hdr (rx_syn hdr options (rx_order hdr tcp)) = (t, Inl ECONNRESET) \<and> tcp_inv t"
proof -
  have "rx_syn hdr options (rx_order hdr tcp) = tcp" using assms(1,2) by (simp add: rx_order_def rx_syn_def syn_acked_def)
  moreover have "tcp_inv (tcp_close (rx_now env) (tcp_dump_state (tcp\<lparr>tcp_state := TCP_CLOSED\<rparr>)) (Inl ECONNRESET))"
    using assms(1) by (intro tcp_close_CLOSED_inv) (simp_all add: syn_acked_def)
  ultimately show ?thesis using assms by (simp add: rx_rst_def tcp_rx_rst_def syn_acked_def rcvd_bits flag_num)
qed

lemma closed_gracefully: "tcp_inv tcp \<Longrightarrow> TCP_CLOSED_GRACEFULLY (tcp_state tcp) \<longleftrightarrow> tcp_state tcp = 0x30313"
  by (erule tcp_inv_states) (simp_all add: tcp_consts)

lemma rx_finish_inv:
  assumes inv: "tcp_inv tcp" and "listed tcp"
  shows "tcp_inv (rx_finish env w seq tcp)"
proof -
  define t where "t = tcp_dump_state tcp"
  have t: "tcp_inv t" "listed t" using assms by (simp_all add: t_def tcp_dump_state_def tcp_inv_frame)
  define u where "u = (if rx_queue t = [] then t\<lparr>tcp_process := True\<rparr> else tcp_xmit_sack (rx_xmit env) t seq)"
  have "tcp_inv (t\<lparr>tcp_process := True\<rparr>)"
    using t(1) by (rule tcp_inv_states) (use t in \<open>simp_all add: inv_at\<close>)
  then have u: "tcp_inv u" using t tcp_xmit_sack_inv by (simp add: u_def)
  define v where "v = (if TCP_CLOSED_GRACEFULLY (tcp_state u)
                 then u\<lparr>wait_timer := start_timer_fixed (rx_now env)
                            (stop_timer (rx_now env) (wait_timer u)) (2 * TCP_MSL)\<rparr>
                 else u)"
  have "tcp_inv v" using u unfolding v_def closed_gracefully [OF u]
    by (cases "tcp_state u = 0x30313") (simp_all add: inv_at)
  then show ?thesis
    unfolding rx_finish_def Let_def t_def [symmetric] u_def [symmetric] v_def [symmetric]
    by (simp add: xfer_window_changed_inv)
qed

lemma tcp_process_rx_queue_synced:
  "bit (tcp_state tcp) 17 \<Longrightarrow> bit (tcp_state (tcp_process_rx_queue app now tcp)) 17"
proof (induction app now tcp rule: tcp_process_rx_queue.induct)
  case (1 app now tcp)
  show ?case
  proof (cases "rx_queue tcp")
    case (Cons q queue)
    show ?thesis
    proof (cases "tcp_cmp (q_seq q) (rcv_ack tcp) > 0")
      case False
      then show ?thesis using 1(1) [OF Cons False] 1(2) Cons
        by (subst tcp_process_rx_queue.simps) (simp add: process_rx_packet_synced)
    qed (use 1(2) Cons in \<open>simp add: tcp_process_rx_queue.simps\<close>)
  qed (use 1(2) in \<open>simp add: tcp_process_rx_queue.simps\<close>)
qed

lemma tcp_inv_listed: "tcp_inv tcp \<Longrightarrow> listed tcp \<longleftrightarrow> tcp_state tcp \<noteq> 4"
  by (simp add: tcp_inv_def tcp_inv0_def state_num)

lemma tcp_process_rx_queue_listed:
  assumes inv: "tcp_inv tcp" and "listed tcp"
  shows "listed (tcp_process_rx_queue app now tcp)"
proof (cases "bit (tcp_state tcp) 17")
  case True
  then have "bit (tcp_state (tcp_process_rx_queue app now tcp)) 17" by (rule tcp_process_rx_queue_synced)
  then show ?thesis using synced_num tcp_inv_listed tcp_process_rx_queue_inv [OF inv] by blast
next
  case False
  then have "rx_queue tcp = []" using assms by (auto simp: synced_num inv_at)
  then show ?thesis using assms(2) by (simp add: tcp_process_rx_queue.simps)
qed

lemma tcp_rx_enqueue_listed [simp]: "listed (tcp_rx_enqueue tcp seq flags iobuf) = listed tcp"
  by (simp add: tcp_rx_enqueue_def Let_def)

lemma rx_rst_ok: "rx_rst env hdr tcp = (t, Inr ()) \<Longrightarrow> t = tcp"
  by (auto simp: rx_rst_def tcp_rx_rst_def split: if_splits)

lemma rx_syn_listed [simp]: "listed (rx_syn hdr options tcp) = listed tcp"
  by (cases rule: tcp_rx_syn_cases [of tcp "th_seq hdr" options]) (simp_all add: rx_syn_def)

text \<open>The rest of the handler, from a connection on which the SYN has been handled.\<close>

lemma rx_rest_inv:
  assumes inv: "tcp_inv tcp" and "listed tcp"
  shows "tcp_inv (case rx_rst env hdr tcp of (t, Inl e) \<Rightarrow> t | (t, Inr _) \<Rightarrow>
     rx_finish env w s (tcp_process_rx_queue (rx_app env) (rx_now env) (tcp_rx_enqueue t s f iobuf)))"
proof (cases "rx_rst env hdr tcp")
  case (Pair t rc)
  show ?thesis
  proof (cases rc)
    case (Inl e)
    then show ?thesis using rx_rst_inv [OF inv, of env hdr] Pair by simp
  next
    case (Inr u)
    then have "t = tcp" using rx_rst_ok Pair by simp
    then have "tcp_inv (tcp_rx_enqueue t s f iobuf)" "listed (tcp_rx_enqueue t s f iobuf)"
      using assms by (simp_all add: tcp_rx_enqueue_inv)
    then show ?thesis using Pair Inr
      by (simp add: rx_finish_inv tcp_process_rx_queue_inv tcp_process_rx_queue_listed)
  qed
qed

lemma tcp_rx_ack_listed [simp]: "listed (fst (tcp_rx_ack now tcp ack win)) = listed tcp"
  by (cases rule: tcp_rx_ack_cases [of now tcp ack win]) simp_all

text \<open>The first steps of the handler: the acknowledgement is rejected, the SYN is handled, or the
  connection is reset.\<close>

lemma rx_syn_stage:
  assumes inv: "tcp_inv tcp" and "listed tcp" and "tcp_expects tcp hdr"
  obtains (rejected) t e where "rx_acks env hdr tcp = (t, Inl e)" and "tcp_inv t"
  | (handled) t where "rx_acks env hdr tcp = (t, Inr ())" and "listed t"
      and "tcp_inv (rx_syn hdr options (rx_order hdr t))"
  | (reset) t u where "rx_acks env hdr tcp = (t, Inr ())"
      and "rx_rst env hdr (rx_syn hdr options (rx_order hdr t)) = (u, Inl ECONNRESET)" and "tcp_inv u" and "tcp_state t \<noteq> 4"
proof -
  obtain t rc where acks: "rx_acks env hdr tcp = (t, rc)" by (metis surj_pair)
  have t: "listed t"
  proof -
    have "listed (fst (rx_acks env hdr tcp))" using assms(2) by (simp add: rx_acks_def)
    then show ?thesis by (simp add: acks)
  qed
  have expects: "tcp_state tcp = 2 \<Longrightarrow> snd_sent tcp \<noteq> 0"
    using assms(3) by (simp add: tcp_expects_def state_num)
  consider (wf) "tcp_inv t" "tcp_state t = 2 \<Longrightarrow> snd_sent t \<noteq> 0"
    | (acked) "syn_acked t" "th_flags hdr AND TCP_SYN \<noteq> 0 \<or> th_flags hdr AND TCP_RST \<noteq> 0" "rc = Inr ()"
  proof (cases "th_flags hdr AND TCP_ACK = 0")
    case True
    then have "t = tcp" using acks by (simp add: rx_acks_def)
    then show ?thesis using inv expects by (intro that(1)) simp_all
  next
    case False
    then have ack: "tcp_rx_ack (rx_now env) tcp (th_ack hdr) (scale_win (th_win hdr) (snd_win_scale tcp)) = (t, rc)"
      using acks by (simp add: rx_acks_def)
    show ?thesis
    proof (cases "tcp_state tcp = 2")
      case True
      show ?thesis
      proof (rule tcp_rx_ack_SYN_SENT [OF inv True, of "rx_now env" "th_ack hdr" "scale_win (th_win hdr) (snd_win_scale tcp)"])
        assume "syn_acked (fst (tcp_rx_ack (rx_now env) tcp (th_ack hdr) (scale_win (th_win hdr) (snd_win_scale tcp))))"
        then have sa: "syn_acked t" by (simp add: ack)
        then have "t \<noteq> tcp" using True by (auto simp: syn_acked_def)
        then have "rc = Inr ()" using ack
          by (cases rule: tcp_rx_ack_cases [of "rx_now env" tcp "th_ack hdr" "scale_win (th_win hdr) (snd_win_scale tcp)"]) auto
        moreover have "th_flags hdr AND TCP_SYN \<noteq> 0 \<or> th_flags hdr AND TCP_RST \<noteq> 0"
          using assms(3) True False by (auto simp: tcp_expects_def state_num)
        ultimately show ?thesis using sa by (intro that(2))
      qed (use ack expects True in \<open>auto intro!: that(1)\<close>)
    next
      case ne: False
      have "tcp_inv t" using tcp_rx_ack_inv [OF inv assms(2) ne] ack by (metis fst_conv)
      moreover have "bit (tcp_state tcp) 17" using ne inv assms(2) by (simp add: synced_num tcp_inv_listed)
      then have "bit (tcp_state t) 17"
        using rx_ack_rcvd [of 17 "rx_now env" tcp "th_ack hdr" "scale_win (th_win hdr) (snd_win_scale tcp)"] ack by simp
      then have "tcp_state t \<noteq> 2" by auto
      ultimately show ?thesis by (intro that(1)) simp_all
    qed
  qed
  then show ?thesis
  proof cases
    case wf
    show ?thesis
    proof (cases rc)
      case (Inl e)
      then show ?thesis using wf(1) acks by (intro rejected) simp_all
    next
      case (Inr u)
      have "tcp_inv (rx_syn hdr options (rx_order hdr t))" using wf t by (intro rx_syn_inv) simp_all
      then show ?thesis using t Inr acks by (intro handled) simp_all
    qed
  next
    case acked
    show ?thesis
    proof (cases "th_flags hdr AND TCP_SYN = 0")
      case True
      then obtain u where "rx_rst env hdr (rx_syn hdr options (rx_order hdr t)) = (u, Inl ECONNRESET)" "tcp_inv u"
        using syn_acked_rst [OF acked(1) True, of env options] acked(2) by auto
      then show ?thesis using acks acked by (intro reset) (simp_all, simp add: syn_acked_def)
    next
      case False
      then show ?thesis using syn_acked_syn [OF acked(1) False, of options] t acks acked(3) by (intro handled) simp_all
    qed
  qed
qed

lemma tcp_rx_connection_inv:
  assumes "tcp_inv tcp" and "listed tcp" and "tcp_expects tcp hdr"
  shows "tcp_inv (fst (tcp_rx_connection env tcp hdr options iobuf))"
proof (cases rule: rx_syn_stage [OF assms, where env = env and options = options])
  case (1 t e)
  then show ?thesis by (simp add: tcp_rx_connection_eq tcp_xmit_reset_inv)
next
  case (2 t)
  then show ?thesis by (simp add: tcp_rx_connection_eq rx_rest_inv)
next
  case (3 t u)
  then show ?thesis by (simp add: tcp_rx_connection_eq)
qed

section \<open>Reachable connections\<close>

text \<open>
  A connection after any sequence of events, the segments being those that satisfy the predicate
  \<open>accept\<close>.
\<close>

inductive tcp_reachable :: "(tcp_connection \<Rightarrow> tcp_header \<Rightarrow> bool) \<Rightarrow> tcp_connection \<Rightarrow> bool"
  for accept :: "tcp_connection \<Rightarrow> tcp_header \<Rightarrow> bool" where
  opened: "tcp_reachable accept (opened_connection peer seq mss port now)"
| event: "tcp_reachable accept tcp \<Longrightarrow> tcp_enabled tcp i \<Longrightarrow>
    (case i of In_segment env hdr options iobuf \<Rightarrow> accept tcp hdr | _ \<Rightarrow> True) \<Longrightarrow>
    tcp_reachable accept (tcp_handle tcp i)"

lemma opened_inv: "tcp_inv (opened_connection peer seq mss port now)"
proof -
  have st: "tcp_state (opened_connection peer seq mss port now) = 2"
    by (simp add: opened_connection_def new_connection_def tcp_consts)
  show ?thesis unfolding inv_at(1) [OF st]
    by (simp add: opened_connection_def new_connection_def)
qed

lemma tcp_keepalive_inv:
  assumes inv: "tcp_inv tcp" and "running (keepalive tcp)"
  shows "tcp_inv (keepalive_fires env tcp)"
proof -
  have "tcp_inv (tcp\<lparr>keepalive := k, tcp_flags := tcp_flags tcp OR TCP_ACK_PENDING\<rparr>)" for k
    using inv by (rule tcp_inv_states) (use assms in \<open>simp_all add: inv_at\<close>)
  then show ?thesis by (simp add: keepalive_fires_def tcp_keepalive_expired_def tcp_xmit_def tcp_xmit_sack_inv)
qed

lemma tcp_retry_inv:
  assumes inv: "tcp_inv tcp"
  shows "tcp_inv (retry_fires env tcp)"
proof -
  obtain timer over where e: "timer_expired (retry tcp) = (timer, over)" by fastforce
  have timer: "\<not> running timer" using running_simps(5) [of "retry tcp"] by (simp add: e)
  have "tcp_inv (tcp\<lparr>retry := timer\<rparr>)"
    using inv by (rule tcp_inv_states) (use inv timer in \<open>simp_all add: inv_at\<close>)
  then show ?thesis using tcp_inv_pending [of "tcp\<lparr>retry := timer\<rparr>"]
    by (simp add: retry_fires_def e tcp_expired_def tcp_xmit_def tcp_xmit_sack_inv tcp_close_CLOSED_inv)
qed

lemma tcp_process_inv:
  assumes inv: "tcp_inv tcp"
  shows "tcp_inv (tcp_step_process env tcp)"
proof -
  have "tcp_inv (tcp\<lparr>tcp_process := False\<rparr>)"
    using inv by (rule tcp_inv_states) (use inv in \<open>simp_all add: inv_at\<close>)
  then show ?thesis by (simp add: tcp_step_process_def tcp_xmit_def tcp_xmit_sack_inv)
qed

lemma tcp_reachable_inv: "tcp_reachable tcp_expects tcp \<Longrightarrow> tcp_inv tcp"
proof (induction rule: tcp_reachable.induct)
  case (event tcp i)
  show ?case
  proof (cases i)
    case (In_segment env hdr options iobuf)
    have "tcp_inv (rx_timestamp tcp options)" "listed (rx_timestamp tcp options)" "tcp_expects (rx_timestamp tcp options) hdr"
      using event In_segment by (simp_all add: rx_timestamp_def tcp_inv_frame tcp_expects_def split: option.split)
    then show ?thesis by (simp add: In_segment tcp_rx_connection_inv)
  next
    case (In_wait now)
    show ?thesis using tcp_inv_pending [OF event.IH]
      by (simp add: In_wait wait_fires_def tcp_wait_expired_def tcp_close_CLOSED_inv)
  next
    case In_discard
    show ?thesis using discard_rx_inv [OF event.IH, of 1] by (simp add: In_discard)
  qed (use event in \<open>simp_all add: tcp_retry_inv tcp_keepalive_inv tcp_process_inv app_act_inv del: app_act.simps\<close>)
qed (rule opened_inv)

text \<open>A sample environment in which everything succeeds, and an application that does not react.\<close>

definition sample_xmit :: xmit_env where
  "sample_xmit = \<lparr>xe_now = 100, xe_discards = 0, xe_alloc = True, xe_window = 65536, xe_tx = Inr ()\<rparr>"

definition sample_rx :: rx_env where
  "sample_rx = \<lparr>rx_now = 100, rx_app = \<lparr>ap_deliver = \<lambda>_ _. ([], Inr ()), ap_window = \<lambda>_. []\<rparr>, rx_xmit = sample_xmit\<rparr>"

definition sample_conn :: tcp_connection where
  "sample_conn = opened_connection \<lparr>st_family = 2, st_flags = 0, st_port = 80, st_scope_id = 0, st_addr = []\<rparr>
     1000 1460 40000 0"

definition no_options :: tcp_options where
  "no_options = \<lparr>wsopt = None, spopt = False, tsopt = None\<rparr>"

definition sample_segment :: "u32 \<Rightarrow> u32 \<Rightarrow> u32 \<Rightarrow> u8 list \<Rightarrow> tcp_input" where
  "sample_segment seq ack flags iobuf =
     In_segment sample_rx \<lparr>th_src = 80, th_dest = 40000, th_seq = seq, th_ack = ack, th_flags = flags, th_win = 1024\<rparr>
       no_options iobuf"

fun input_ok :: "(tcp_connection \<Rightarrow> tcp_header \<Rightarrow> bool) \<Rightarrow> tcp_connection \<Rightarrow> tcp_input \<Rightarrow> bool" where
  "input_ok accept tcp (In_segment env hdr options iobuf) \<longleftrightarrow> listed tcp \<and> accept tcp hdr"
| "input_ok accept tcp i \<longleftrightarrow> tcp_enabled tcp i"

text \<open>A run of events; it is undefined when one of them cannot happen.\<close>

fun tcp_run :: "(tcp_connection \<Rightarrow> tcp_header \<Rightarrow> bool) \<Rightarrow> tcp_connection \<Rightarrow> tcp_input list \<Rightarrow> tcp_connection option" where
  "tcp_run accept tcp [] = Some tcp"
| "tcp_run accept tcp (i # is) =
     (if input_ok accept tcp i then tcp_run accept (tcp_handle tcp i) is else None)"

lemma tcp_run_reachable:
  "tcp_reachable accept tcp \<Longrightarrow> tcp_run accept tcp is = Some tcp' \<Longrightarrow> tcp_reachable accept tcp'"
proof (induction "is" arbitrary: tcp)
  case (Cons i "is")
  then have ok: "input_ok accept tcp i" and run: "tcp_run accept (tcp_handle tcp i) is = Some tcp'"
    by (auto split: if_splits)
  have "tcp_reachable accept (tcp_handle tcp i)"
    using Cons.prems(1) ok by (intro tcp_reachable.event) (cases i; simp)+
  then show ?case using run by (rule Cons.IH)
qed simp

lemma sample_conn_reachable: "tcp_reachable accept sample_conn"
  unfolding sample_conn_def by (rule tcp_reachable.opened)



text \<open>
  Without the two conditions the assertions of the source can fail.  A bare acknowledgement of our
  SYN leaves the connection in a state that has no name and in which data is sent; when
  the retransmission timer then expires, the assertion of its handler fails.
\<close>

lemma bare_ack_breaks_assertion:
  "\<exists>t. tcp_reachable (\<lambda>_ _. True) t \<and> running (retry t) \<and> \<not> tcp_expired_ok (tcp_state t) \<and>
     tcp_state t \<notin> set tcp_states"
proof -
  let ?is = "[In_retry sample_xmit, sample_segment 5000 1001 0x10 [], In_app (App_send [1]) sample_xmit]"
  have "map_option (\<lambda>t. (running (retry t), tcp_state t)) (tcp_run (\<lambda>_ _. True) sample_conn ?is) = Some (True, 0x202)"
    by code_simp
  then obtain t where t: "tcp_run (\<lambda>_ _. True) sample_conn ?is = Some t" "running (retry t)" "tcp_state t = 0x202" by auto
  then show ?thesis using tcp_run_reachable [OF sample_conn_reachable t(1)]
    by (intro exI [of _ t] conjI) (simp_all add: tcp_expired_ok_def tcp_states_def state_num del: tcp_run.simps)
qed

text \<open>
  A SYN that arrives before ours was sent, followed by a close: our SYN cannot be taken for
  acknowledged, and SYN and FIN are then to be sent together.
\<close>

lemma early_syn_breaks_assertion:
  "\<exists>t. tcp_reachable (\<lambda>_ _. True) t \<and> TCP_FLAGS_SENDING (tcp_state t) AND (TCP_SYN OR TCP_FIN) = TCP_SYN OR TCP_FIN"
proof -
  let ?is = "[sample_segment 5000 0 0x02 [], In_app (App_close (Inr ())) sample_xmit]"
  have "map_option tcp_state (tcp_run (\<lambda>_ _. True) sample_conn ?is) = Some 0x20013" by code_simp
  then obtain t where t: "tcp_run (\<lambda>_ _. True) sample_conn ?is = Some t" "tcp_state t = 0x20013" by auto
  then show ?thesis using tcp_run_reachable [OF sample_conn_reachable t(1)]
    by (intro exI [of _ t] conjI) (simp_all add: tcp_consts del: tcp_run.simps)
qed

end
