(* ===== verification/TcpRx.thy ===== *)
theory TcpRx
  imports TcpState
begin

text \<open>
  The data a TCP connection delivers: for a peer that sends the stream \<open>S\<close> after the initial sequence
  number \<open>irs\<close>, in segments that arrive in any order, overlap, are duplicated or lost, the application
  receives a prefix of \<open>S\<close>, in order.  Sequence numbers wrap around; the stream may be longer than the
  sequence space.
\<close>

section \<open>Sequence numbers\<close>

text \<open>The sequence number of the byte at offset \<open>o\<close> of the stream.\<close>

definition sq :: "u32 \<Rightarrow> nat \<Rightarrow> u32" where
  "sq irs n = irs + 1 + word_of_nat n"

lemma sq_diff: "n \<le> m \<Longrightarrow> sq irs m - sq irs n = word_of_nat (m - n)"
  by (simp add: sq_def of_nat_diff)

lemma sq_add: "sq irs n + word_of_nat m = sq irs (n + m)"
  by (simp add: sq_def)

lemma sq_add_word: "sq irs n + w = sq irs (n + unat w)"
  by (simp add: sq_def)

lemma tcp_cmp_sq:
  assumes "n < m + 2 ^ 31" and "m < n + 2 ^ 31"
  shows "tcp_cmp (sq irs n) (sq irs m) = int n - int m"
proof -
  have "sq irs n - sq irs m = word_of_int (int n - int m)" by (simp add: sq_def)
  then have "tcp_cmp (sq irs n) (sq irs m) = sint (word_of_int (int n - int m) :: u32)"
    by (simp only: tcp_cmp_def)
  also have "\<dots> = signed_take_bit 31 (int n - int m)"
    by (simp only: sint_sbintrunc') simp
  also have "\<dots> = int n - int m"
    using assms by (intro signed_take_bit_int_eq_self) simp_all
  finally show ?thesis .
qed

lemma unat_of_nat_small: "n < 2 ^ 32 \<Longrightarrow> unat (word_of_nat n :: u32) = n"
  by (simp add: unat_of_nat_u32)

lemma sq_eq_iff:
  assumes "n \<le> m" and "m < n + 2 ^ 32"
  shows "sq irs n = sq irs m \<longleftrightarrow> n = m"
proof
  assume "sq irs n = sq irs m"
  then have "word_of_nat (m - n) = (0 :: u32)" using sq_diff [OF assms(1), of irs] by simp
  then have "unat (word_of_nat (m - n) :: u32) = 0" by simp
  then have "m - n = 0" using assms by (subst (asm) unat_of_nat_small) linarith+
  then show "n = m" using assms(1) by simp
qed simp

section \<open>Packets on the receive queue\<close>

text \<open>A queued packet holds the bytes of the stream from offset \<open>n\<close> on, and the FIN only at the end.\<close>

definition q_fin :: "tcp_rx_queued \<Rightarrow> nat" where
  "q_fin q = (if q_flags q AND TCP_FIN \<noteq> 0 then 1 else 0)"

definition slice_at :: "u8 list \<Rightarrow> nat \<Rightarrow> u8 list \<Rightarrow> bool" where
  "slice_at S n d \<longleftrightarrow> n + length d \<le> length S \<and> d = take (length d) (drop n S)"

definition queued_at :: "u8 list \<Rightarrow> u32 \<Rightarrow> nat \<Rightarrow> tcp_rx_queued \<Rightarrow> bool" where
  "queued_at S irs n q \<longleftrightarrow>
     q_seq q = sq irs n \<and> q_nxt q = sq irs (n + length (q_data q) + q_fin q) \<and> slice_at S n (q_data q) \<and>
     length (q_data q) < 2 ^ 16 \<and> 0 < length (q_data q) + q_fin q \<and>
     (q_fin q \<noteq> 0 \<longrightarrow> n + length (q_data q) = length S)"

text \<open>The queue is sorted; its packets start after \<open>lo\<close> and lie in the window of the position \<open>p\<close>.\<close>

definition queue_at :: "u8 list \<Rightarrow> u32 \<Rightarrow> nat \<Rightarrow> nat \<Rightarrow> nat list \<Rightarrow> tcp_rx_queued list \<Rightarrow> bool" where
  "queue_at S irs lo p ns queue \<longleftrightarrow>
     list_all2 (queued_at S irs) ns queue \<and> sorted ns \<and> (\<forall>n \<in> set ns. lo \<le> n \<and> n \<le> p + 2 ^ 21)"

lemma queue_at_prefix:
  assumes "queue_at S irs lo p ns queue" and "prefix q queue"
  shows "queue_at S irs lo p (take (length q) ns) q"
proof -
  have "q = take (length q) queue" using assms(2) by (auto elim: prefixE)
  then have "list_all2 (queued_at S irs) (take (length q) ns) q"
    using assms(1) list_all2_takeI [of "queued_at S irs" ns queue "length q"] by (simp add: queue_at_def)
  then show ?thesis using assms(1) by (auto simp: queue_at_def sorted_wrt_take dest: in_set_takeD)
qed

lemma queue_at_mono:
  "queue_at S irs lo p ns queue \<Longrightarrow> lo' \<le> lo \<Longrightarrow> p \<le> p' \<Longrightarrow> queue_at S irs lo' p' ns queue"
  by (fastforce simp: queue_at_def)

lemma slice_at_drop:
  assumes "slice_at S n d" and "n \<le> p" and "p < n + length d"
  shows "take p S @ drop (p - n) d = take (n + length d) S"
proof -
  have d: "d = take (length d) (drop n S)" "n + length d \<le> length S" using assms(1) by (simp_all add: slice_at_def)
  have "drop (p - n) d = take (n + length d - p) (drop p S)"
    using assms(2,3) by (subst d(1)) (simp add: drop_take add.commute)
  moreover have "take (n + length d) S = take p S @ take (n + length d - p) (drop p S)"
    using assms(3) take_add [of p "n + length d - p" S] by simp
  ultimately show ?thesis by simp
qed

text \<open>Insertion of a packet.\<close>

lemma enqueue_rx_at:
  assumes "queue_at S irs lo p ns queue" and "queued_at S irs n q" and "lo \<le> n" and "n \<le> p + 2 ^ 21"
    and "p < lo + 2 ^ 30"
  shows "\<exists>ns'. queue_at S irs lo p ns' (enqueue_rx q queue)"
proof -
  have "\<exists>ns'. list_all2 (queued_at S irs) ns' (enqueue_rx q queue) \<and> sorted ns' \<and> set ns' = insert n (set ns)"
    if "list_all2 (queued_at S irs) ns queue" "sorted ns" "\<forall>m \<in> set ns. lo \<le> m \<and> m \<le> p + 2 ^ 21" for ns queue
    using that
  proof (induction rule: list_all2_induct)
    case Nil
    then show ?case using assms(2) by (intro exI [of _ "[n]"]) simp
  next
    case (Cons m ns r queue)
    have cmp: "tcp_cmp (q_seq q) (q_seq r) = int n - int m"
    proof -
      have "lo \<le> m" "m \<le> p + 2 ^ 21" using Cons.prems(2) by simp_all
      then have "tcp_cmp (sq irs n) (sq irs m) = int n - int m"
        using assms(3-5) by (intro tcp_cmp_sq) simp_all
      then show ?thesis using Cons.hyps(1) assms(2) by (simp add: queued_at_def)
    qed
    show ?case
    proof (cases "n < m")
      case True
      then show ?thesis using Cons assms(2) cmp by (intro exI [of _ "n # m # ns"]) auto
    next
      case False
      obtain ns' where "list_all2 (queued_at S irs) ns' (enqueue_rx q queue)" "sorted ns'" "set ns' = insert n (set ns)"
        using Cons by auto
      then show ?thesis using Cons.hyps(1) Cons.prems(1) False cmp by (intro exI [of _ "m # ns'"]) auto
    qed
  qed
  then obtain ns' where "list_all2 (queued_at S irs) ns' (enqueue_rx q queue)" "sorted ns'" "set ns' = insert n (set ns)"
    using assms(1) unfolding queue_at_def by metis
  then show ?thesis using assms(1,3,4) by (intro exI [of _ ns']) (auto simp: queue_at_def)
qed

section \<open>What leaves the received data alone\<close>

text \<open>
  From \<open>tcp\<close> to \<open>tcp'\<close> nothing was received or delivered; packets may have been dropped from the
  end of the queue, the interface may have been closed with an error or by the application, and
  the connection may have been deleted.
\<close>

definition rx_same :: "tcp_connection \<Rightarrow> tcp_connection \<Rightarrow> bool" where
  "rx_same tcp tcp' \<longleftrightarrow>
     rcv_ack tcp' = rcv_ack tcp \<and> xf_delivered (tcp_xfer tcp') = xf_delivered (tcp_xfer tcp) \<and>
     prefix (rx_queue tcp') (rx_queue tcp) \<and>
     (rcv_win tcp \<le> TCP_MAX_WINDOW_SIZE \<longrightarrow> rcv_win tcp' \<le> TCP_MAX_WINDOW_SIZE) \<and>
     (xf_status (tcp_xfer tcp') = xf_status (tcp_xfer tcp) \<or> xf_status (tcp_xfer tcp') = Xfer_closed_by_app \<or>
      (\<exists>e. xf_status (tcp_xfer tcp') = Xfer_shutdown (Inl e))) \<and>
     (tcp_state tcp' = 4 \<and> rx_queue tcp' = [] \<or>
      tcp_state tcp \<noteq> 4 \<and> (bit (tcp_state tcp') 17 = bit (tcp_state tcp) 17) \<and>
      (bit (tcp_state tcp') 16 = bit (tcp_state tcp) 16))"

lemma rx_same_refl: "tcp_state tcp \<noteq> 4 \<or> rx_queue tcp = [] \<Longrightarrow> rx_same tcp tcp"
  by (auto simp: rx_same_def)

lemma rx_same_trans: "rx_same a b \<Longrightarrow> rx_same b c \<Longrightarrow> rx_same a c"
  by (auto simp: rx_same_def intro: prefix_order.order_trans)

lemma expand_rcv_win_max:
  "rcv_win tcp \<le> TCP_MAX_WINDOW_SIZE \<Longrightarrow> rcv_win (expand_rcv_win x tcp) \<le> TCP_MAX_WINDOW_SIZE"
proof -
  have le: "w AND v \<le> TCP_MAX_WINDOW_SIZE" if "w \<le> TCP_MAX_WINDOW_SIZE" for w v :: u32
    using order_trans [OF _ that] by (simp add: word_and_le2)
  show "rcv_win tcp \<le> TCP_MAX_WINDOW_SIZE \<Longrightarrow> ?thesis"
    by (auto simp: expand_rcv_win_def Let_def not_less intro!: le)
qed

lemma tcp_xmit_sack_same:
  assumes "tcp_state tcp \<noteq> 4 \<or> rx_queue tcp = []"
  shows "rx_same tcp (tcp_xmit_sack env tcp seq)"
  by (cases rule: tcp_xmit_sack_cases [of env tcp seq])
    (use assms in \<open>auto simp: rx_same_def expand_rcv_win_max\<close>)

lemma tcp_rx_ack_simps [simp]:
  "rcv_ack (fst (tcp_rx_ack now tcp ack win)) = rcv_ack tcp"
  "rcv_win (fst (tcp_rx_ack now tcp ack win)) = rcv_win tcp"
  "tcp_xfer (fst (tcp_rx_ack now tcp ack win)) = tcp_xfer tcp"
  by (cases rule: tcp_rx_ack_cases [of now tcp ack win]; simp)+

lemma tcp_delete_simps [simp]:
  "rcv_ack (tcp_delete now tcp) = rcv_ack tcp" "rcv_win (tcp_delete now tcp) = rcv_win tcp"
  "tcp_xfer (tcp_delete now tcp) = tcp_xfer tcp" "rx_queue (tcp_delete now tcp) = []"
  "tcp_state (tcp_delete now tcp) = 4"
  by (simp_all add: tcp_delete_def tcp_dump_state_def Let_def state_num)

text \<open>Closing, in a synchronised state and otherwise.\<close>

lemma tcp_close_synced:
  assumes "bit (tcp_state tcp) 17"
  shows "rcv_ack (tcp_close now tcp rc) = rcv_ack tcp" "rcv_win (tcp_close now tcp rc) = rcv_win tcp"
    "rx_queue (tcp_close now tcp rc) = rx_queue tcp"
    "tcp_xfer (tcp_close now tcp rc) = intf_shutdown (tcp_xfer tcp) rc"
  using assms by (simp_all add: tcp_close_def Let_def rcvd_bits tcp_dump_state_def)

lemma tcp_close_unsynced:
  assumes "\<not> bit (tcp_state tcp) 17"
  shows "rcv_ack (tcp_close now tcp rc) = rcv_ack tcp" "rcv_win (tcp_close now tcp rc) = rcv_win tcp"
    "rx_queue (tcp_close now tcp rc) = []" "tcp_state (tcp_close now tcp rc) = 4"
    "tcp_xfer (tcp_close now tcp rc) = intf_shutdown (tcp_xfer tcp) rc"
  using assms by (simp_all add: tcp_close_def Let_def rcvd_bits)

lemma intf_shutdown_simps [simp]: "xf_delivered (intf_shutdown xf rc) = xf_delivered xf"
  by (simp add: intf_shutdown_def)

lemma tcp_close_same:
  assumes "xf_status (tcp_xfer tcp) \<noteq> Xfer_open \<or> rc = Inl e" and "tcp_state tcp \<noteq> 4"
  shows "rx_same tcp (tcp_close now tcp rc)"
proof (cases "bit (tcp_state tcp) 17")
  case True
  then have "tcp_state (tcp_close now tcp rc) \<noteq> 4" using tcp_close_rcvd [OF True, of 17 now rc] by auto
  then show ?thesis using assms
    by (auto simp: rx_same_def tcp_close_synced [OF True] tcp_close_rcvd [OF True] intf_shutdown_def)
next
  case False
  then show ?thesis using assms by (auto simp: rx_same_def tcp_close_unsynced [OF False] intf_shutdown_def)
qed

lemma tcp_close_CLOSED_same:
  assumes "xf_status (tcp_xfer tcp) \<noteq> Xfer_open \<or> rc = Inl e"
  shows "rx_same tcp (tcp_close now (tcp_dump_state (tcp\<lparr>tcp_state := TCP_CLOSED\<rparr>)) rc)"
proof -
  let ?t = "tcp_dump_state (tcp\<lparr>tcp_state := TCP_CLOSED\<rparr>)"
  have c: "\<not> bit (tcp_state ?t) 17" by (simp add: tcp_dump_state_def state_num)
  show ?thesis using assms
    by (auto simp: rx_same_def tcp_close_unsynced [OF c] intf_shutdown_def) (simp_all add: tcp_dump_state_def)
qed

text \<open>The application.\<close>

lemma app_act_same:
  assumes inv: "tcp_inv tcp"
  shows "rx_same tcp (app_act tcp act)"
proof (cases act)
  case (Pair a env)
  have ok: "tcp_state tcp \<noteq> 4 \<or> rx_queue tcp = []" using inv by (auto simp: inv_at)
  show ?thesis
  proof (cases "xf_status (tcp_xfer tcp) = Xfer_open")
    case True
    then have st: "tcp_state tcp \<noteq> 4" using inv by (rule tcp_inv_closed [rotated])
    show ?thesis
    proof (cases a)
      case (App_send iobuf)
      let ?t = "tcp\<lparr>tcp_xfer := (tcp_xfer tcp)\<lparr>xf_sent := xf_sent (tcp_xfer tcp) @ iobuf\<rparr>,
            tx_queue := tx_queue tcp @ [iobuf], pending_data := pending_get (pending_data tcp)\<rparr>"
      have "rx_same tcp ?t" using st by (simp add: rx_same_def)
      moreover have "rx_same ?t (tcp_xmit_sack env ?t (rcv_ack ?t))" using st by (intro tcp_xmit_sack_same) simp
      ultimately show ?thesis using True rx_same_trans
        by (simp add: Pair App_send tcp_xfer_deliver_def tcp_xmit_def)
    next
      case (App_close rc)
      let ?t = "tcp\<lparr>tcp_xfer := (tcp_xfer tcp)\<lparr>xf_status := Xfer_closed_by_app\<rparr>\<rparr>"
      let ?u = "tcp_close (xe_now env) ?t rc"
      have "rx_same tcp ?t" using st by (simp add: rx_same_def)
      moreover have u: "rx_same ?t ?u" using st by (intro tcp_close_same) simp_all
      moreover have "rx_same ?u (tcp_xmit_sack env ?u (rcv_ack ?u))"
      proof (intro tcp_xmit_sack_same)
        have "tcp_inv ?u" using inv st by (intro tcp_close_inv) (simp_all add: tcp_inv0_xfer tcp_inv_inv0)
        then show "tcp_state ?u \<noteq> 4 \<or> rx_queue ?u = []" by (auto simp: inv_at)
      qed
      ultimately have "rx_same tcp (tcp_xmit_sack env ?u (rcv_ack ?u))" using rx_same_trans by blast
      then show ?thesis using True by (simp add: Pair App_close tcp_xfer_close_def tcp_xmit_def)
    qed
  qed (use ok rx_same_refl Pair in simp)
qed

lemma app_run_same: "tcp_inv tcp \<Longrightarrow> rx_same tcp (app_run acts tcp)"
proof (induction acts arbitrary: tcp)
  case Nil
  then have "tcp_state tcp \<noteq> 4 \<or> rx_queue tcp = []" by (auto simp: inv_at)
  then show ?case by (simp add: app_run_def rx_same_refl)
next
  case (Cons a acts)
  have "rx_same tcp (app_act tcp a)" using Cons.prems by (rule app_act_same)
  moreover have "rx_same (app_act tcp a) (app_run acts (app_act tcp a))"
    using Cons.prems by (intro Cons.IH app_act_inv)
  ultimately show ?case using rx_same_trans by (simp add: app_run_def)
qed

section \<open>The position in the stream\<close>

text \<open>
  At position \<open>p\<close> the first \<open>p\<close> bytes of the stream have been received in order, and the FIN when
  \<open>p\<close> is past the end.  All of them have been delivered while the interface was open; if it was
  closed because of the FIN, the whole stream was delivered before.
\<close>

definition rx_inv :: "u8 list \<Rightarrow> u32 \<Rightarrow> nat \<Rightarrow> tcp_connection \<Rightarrow> bool" where
  "rx_inv S irs p tcp \<longleftrightarrow>
     p \<le> length S + 1 \<and> rcv_win tcp \<le> TCP_MAX_WINDOW_SIZE \<and> prefix (xf_delivered (tcp_xfer tcp)) S \<and>
     (xf_status (tcp_xfer tcp) = Xfer_open \<longrightarrow> xf_delivered (tcp_xfer tcp) = take p S) \<and>
     (xf_status (tcp_xfer tcp) = Xfer_shutdown (Inr ()) \<longrightarrow> xf_delivered (tcp_xfer tcp) = S) \<and>
     (bit (tcp_state tcp) 17 \<longrightarrow> rcv_ack tcp = sq irs p \<and> (bit (tcp_state tcp) 16 \<longleftrightarrow> p = length S + 1)) \<and>
     (\<not> bit (tcp_state tcp) 17 \<longrightarrow> rx_queue tcp = []) \<and>
     (\<not> bit (tcp_state tcp) 17 \<and> tcp_state tcp \<noteq> 4 \<longrightarrow> p = 0 \<and> \<not> bit (tcp_state tcp) 16)"

lemma rx_inv_same: "rx_inv S irs p tcp \<Longrightarrow> rx_same tcp tcp' \<Longrightarrow> rx_inv S irs p tcp'"
  by (auto simp: rx_inv_def rx_same_def)

lemma rx_inv_queue: "bit (tcp_state tcp) 17 \<Longrightarrow> rx_inv S irs p (tcp\<lparr>rx_queue := q\<rparr>) = rx_inv S irs p tcp"
  by (simp add: rx_inv_def)

lemma rcv_win_rx_seq: "rcv_win tcp \<le> m \<Longrightarrow> (if rcv_win tcp > n then rcv_win tcp - n else 0) \<le> (m :: u32)"
  by (auto simp: word_le_nat_alt word_less_nat_alt unat_sub)

text \<open>Data at the current position.\<close>

lemma tcp_rx_data_rx:
  assumes inv: "tcp_inv tcp" and rx: "rx_inv S irs p tcp" and synced: "bit (tcp_state tcp) 17"
    and slice: "slice_at S n d" and "length d < 2 ^ 16" and "n \<le> p" and "p < n + 2 ^ 17"
  shows "rx_inv S irs (max p (n + length d)) (fst (tcp_rx_data app tcp (sq irs n) d))"
proof -
  have ack: "rcv_ack tcp = sq irs p" using rx synced by (simp add: rx_inv_def)
  define a where "a = rcv_ack tcp - sq irs n"
  have a: "a = word_of_nat (p - n)" unfolding a_def ack using assms(6) by (rule sq_diff)
  have small: "p - n < 2 ^ 32" "length d < 2 ^ 32" using assms(5,7) by simp_all
  have ua: "unat a = p - n" unfolding a using small(1) by (rule unat_of_nat_small)
  have le: "(word_of_nat (length d) :: u32) \<le> a \<longleftrightarrow> length d \<le> p - n"
    unfolding word_le_nat_alt ua using small by (simp only: unat_of_nat_small)
  show ?thesis
  proof (cases "length d \<le> p - n")
    case True
    then have "max p (n + length d) = p" using assms(6) by simp
    then show ?thesis using True rx by (simp add: tcp_rx_data_def Let_def a_def [symmetric] le)
  next
    case False
    define e where "e = n + length d"
    have e: "max p e = e" "e \<le> length S" "p < e" using False slice by (simp_all add: e_def slice_at_def)
    define t where "t = tcp_rx_seq tcp (word_of_nat (length d) - a)"
    have "word_of_nat (length d) - a = word_of_nat (e - p)"
      unfolding a using False assms(6) by (simp add: e_def of_nat_diff)
    then have "rcv_ack t = sq irs p + word_of_nat (e - p)" by (simp add: t_def ack)
    then have ack': "rcv_ack t = sq irs e" using e(3) unfolding sq_add by simp
    have "take p S @ drop (p - n) d = take e S" using slice_at_drop [OF slice assms(6)] False by (simp add: e_def)
    then have rx': "rx_inv S irs e (t\<lparr>tcp_xfer := (tcp_xfer t)\<lparr>xf_delivered := xf_delivered (tcp_xfer t) @ drop (p - n) d\<rparr>\<rparr>)"
        if "xf_status (tcp_xfer tcp) = Xfer_open"
      using rx e synced ack' that rcv_win_rx_seq [of tcp TCP_MAX_WINDOW_SIZE]
      unfolding rx_inv_def by (auto simp: t_def take_is_prefix)
    have rx'': "rx_inv S irs e t" if "xf_status (tcp_xfer tcp) \<noteq> Xfer_open"
      using rx e synced ack' that rcv_win_rx_seq [of tcp TCP_MAX_WINDOW_SIZE]
      unfolding rx_inv_def by (auto simp: t_def)
    have out: "fst (tcp_rx_data app tcp (sq irs n) d) = fst (xfer_deliver_iob app t (drop (p - n) d))"
      using False by (simp add: tcp_rx_data_def Let_def a_def [symmetric] le t_def ua)
    have "rx_inv S irs e (fst (xfer_deliver_iob app t (drop (p - n) d)))"
    proof (cases "xf_status (tcp_xfer tcp) = Xfer_open")
      case True
      let ?u = "t\<lparr>tcp_xfer := (tcp_xfer t)\<lparr>xf_delivered := xf_delivered (tcp_xfer t) @ drop (p - n) d\<rparr>\<rparr>"
      have "tcp_inv ?u" using inv by (simp add: t_def tcp_inv_frame tcp_rx_seq_inv)
      then have "rx_inv S irs e (app_run acts ?u)" for acts
        using rx_inv_same [OF rx' [OF True] app_run_same] by simp
      then show ?thesis using True by (simp add: xfer_deliver_iob_def t_def Let_def split: prod.split)
    next
      case closed: False
      then show ?thesis using rx'' by (simp add: xfer_deliver_iob_def t_def)
    qed
    then show ?thesis unfolding out e_def [symmetric] e(1) .
  qed
qed

text \<open>The FIN at the current position.\<close>

lemma tcp_rx_fin_rx:
  assumes rx: "rx_inv S irs p tcp" and synced: "bit (tcp_state tcp) 17"
    and "length S \<le> p"
  shows "rx_inv S irs (length S + 1) (tcp_rx_fin now tcp (sq irs (length S)))"
proof -
  have ack: "rcv_ack tcp = sq irs p" and p: "p \<le> length S + 1" using rx synced by (simp_all add: rx_inv_def)
  have eq: "sq irs (length S) = rcv_ack tcp \<longleftrightarrow> p = length S"
    unfolding ack using sq_eq_iff [of "length S" p irs] assms(3) p by auto
  show ?thesis
  proof (cases "p = length S")
    case True
    define t where "t = (tcp_rx_seq tcp 1)\<lparr>tcp_state := tcp_state tcp OR TCP_STATE_RCVD TCP_FIN\<rparr>"
    have bits: "bit (tcp_state t) 17" "bit (tcp_state t) 16"
      using synced by (simp_all add: t_def flag_num bit_or_iff)
    have "sq irs (length S) + 1 = sq irs (length S + 1)" using sq_add [of irs "length S" 1] by simp
    then have "rcv_ack t = sq irs (length S + 1)" using ack True by (simp add: t_def)
    moreover have "bit (tcp_state (tcp_close now t (Inr ()))) 17" "bit (tcp_state (tcp_close now t (Inr ()))) 16"
      using bits by (simp_all add: tcp_close_rcvd)
    moreover have "rcv_win t \<le> TCP_MAX_WINDOW_SIZE"
      using rx rcv_win_rx_seq [of tcp TCP_MAX_WINDOW_SIZE 1] by (simp add: t_def rx_inv_def)
    moreover have "tcp_xfer t = tcp_xfer tcp" by (simp add: t_def)
    ultimately have "rx_inv S irs (length S + 1) (tcp_close now t (Inr ()))"
      using rx True by (auto simp: rx_inv_def tcp_close_synced [OF bits(1)] intf_shutdown_def)
    then show ?thesis using eq True by (simp add: tcp_rx_fin_def Let_def t_def)
  next
    case False
    then have "p = length S + 1" using assms(3) p by simp
    then show ?thesis using rx eq False by (simp add: tcp_rx_fin_def)
  qed
qed

text \<open>One packet of the queue.\<close>

lemma process_rx_packet_rx:
  assumes inv: "tcp_inv tcp" and rx: "rx_inv S irs p tcp" and synced: "bit (tcp_state tcp) 17"
    and q: "queued_at S irs n q" and "n \<le> p" and "p < n + 2 ^ 17"
  shows "rx_inv S irs (max p (n + length (q_data q) + q_fin q)) (process_rx_packet app now tcp q)"
proof -
  define t where "t = fst (tcp_rx_data app (tcp\<lparr>rx_queue := tl (rx_queue tcp)\<rparr>) (q_seq q) (q_data q))"
  have seq: "q_seq q = sq irs n" "slice_at S n (q_data q)" "length (q_data q) < 2 ^ 16"
    "q_fin q \<noteq> 0 \<longrightarrow> n + length (q_data q) = length S" using q by (simp_all add: queued_at_def)
  have t: "rx_inv S irs (max p (n + length (q_data q))) t"
    unfolding t_def seq(1)
    by (rule tcp_rx_data_rx) (use inv rx synced seq assms(5,6) in \<open>simp_all add: tcp_inv_rx_queue rx_inv_queue\<close>)
  have synced': "bit (tcp_state t) 17" unfolding t_def using synced by (simp add: tcp_rx_data_rcvd)
  show ?thesis
  proof (cases "q_flags q AND TCP_FIN = 0")
    case True
    then show ?thesis using t by (simp add: process_rx_packet_def Let_def t_def q_fin_def)
  next
    case False
    then have end_: "n + length (q_data q) = length S" "q_fin q = 1" using seq(4) by (simp_all add: q_fin_def)
    define p' where "p' = max p (length S)"
    have t': "rx_inv S irs p' t" using t by (simp add: end_ p'_def)
    then have "p' \<le> length S + 1" by (simp add: rx_inv_def)
    then have m: "max p (n + length (q_data q) + q_fin q) = length S + 1" by (simp add: end_ p'_def)
    have "q_seq q + word_of_nat (length (q_data q)) = sq irs (length S)" by (simp add: seq(1) sq_add end_)
    moreover have "rx_inv S irs (length S + 1) (tcp_rx_fin now t (sq irs (length S)))"
      using t' synced' by (rule tcp_rx_fin_rx) (simp add: p'_def)
    ultimately show ?thesis unfolding m using False by (simp add: process_rx_packet_def Let_def t_def)
  qed
qed

text \<open>
  The whole queue, from a position that is not far behind its first packet: what can be delivered is
  delivered, and the packets that remain lie beyond a gap.
\<close>

lemma tcp_process_rx_queue_rx:
  assumes "tcp_inv tcp" and "rx_inv S irs p tcp" and "queue_at S irs lo b ns (rx_queue tcp)"
    and "p < lo + 2 ^ 17" and "p \<le> b + 2 ^ 21 + 2 ^ 17" and "b \<le> p"
  shows "\<exists>p' ns'. p \<le> p' \<and> p' \<le> b + 2 ^ 21 + 2 ^ 17 \<and> rx_inv S irs p' (tcp_process_rx_queue app now tcp) \<and>
    queue_at S irs (p' + 1) b ns' (rx_queue (tcp_process_rx_queue app now tcp))"
  using assms
proof (induction app now tcp arbitrary: p lo ns rule: tcp_process_rx_queue.induct)
  case (1 app now tcp)
  show ?case
  proof (cases "rx_queue tcp")
    case Nil
    then show ?thesis using 1(3,6)
      by (intro exI [of _ p] exI [of _ "[]"]) (simp add: tcp_process_rx_queue.simps queue_at_def)
  next
    case (Cons q queue)
    then obtain n ns1 where ns: "ns = n # ns1" using 1(4) by (auto simp: queue_at_def list_all2_Cons2)
    have q: "queued_at S irs n q" "lo \<le> n" "n \<le> b + 2 ^ 21" using 1(4) Cons ns by (simp_all add: queue_at_def)
    have synced: "bit (tcp_state tcp) 17" using 1(2) Cons by (auto simp: synced_num inv_at)
    have ack: "rcv_ack tcp = sq irs p" using 1(3) synced by (simp add: rx_inv_def)
    have cmp: "tcp_cmp (q_seq q) (rcv_ack tcp) = int n - int p"
      unfolding ack using q 1(5-7) by (simp add: queued_at_def) (intro tcp_cmp_sq; simp)
    show ?thesis
    proof (cases "n > p")
      case True
      then have "queue_at S irs (p + 1) b ns (rx_queue tcp)" using 1(4) ns by (auto simp: queue_at_def)
      then show ?thesis using 1(3,6) True cmp Cons
        by (intro exI [of _ p] exI [of _ ns]) (simp add: tcp_process_rx_queue.simps)
    next
      case False
      define p1 where "p1 = max p (n + length (q_data q) + q_fin q)"
      define t where "t = process_rx_packet app now tcp q"
      have len: "length (q_data q) + q_fin q \<le> 2 ^ 16" using q(1) by (simp add: queued_at_def q_fin_def)
      have rx: "rx_inv S irs p1 t" unfolding p1_def t_def
        by (rule process_rx_packet_rx) (use 1(2,3,5) synced q False in simp_all)
      have inv: "tcp_inv t" unfolding t_def by (rule process_rx_packet_inv [OF 1(2) synced])
      have "queue_at S irs n b ns1 queue" using 1(4) ns Cons by (auto simp: queue_at_def)
      moreover have "prefix (rx_queue t) queue" unfolding t_def using process_rx_packet_prefix [of app now tcp q] Cons by simp
      ultimately have queue: "queue_at S irs n b (take (length (rx_queue t)) ns1) (rx_queue t)" by (rule queue_at_prefix)
      have next_: "\<not> tcp_cmp (q_seq q) (rcv_ack tcp) > 0" using cmp False by simp
      have bounds: "p1 < n + 2 ^ 17" "p1 \<le> b + 2 ^ 21 + 2 ^ 17" "b \<le> p1"
        using 1(5-7) len q(2,3) by (simp_all add: p1_def)
      have "\<exists>p' ns'. p1 \<le> p' \<and> p' \<le> b + 2 ^ 21 + 2 ^ 17 \<and> rx_inv S irs p' (tcp_process_rx_queue app now t) \<and>
          queue_at S irs (p' + 1) b ns' (rx_queue (tcp_process_rx_queue app now t))"
        by (rule 1(1) [OF Cons next_, folded t_def, OF inv rx queue bounds])
      moreover have "tcp_process_rx_queue app now tcp = tcp_process_rx_queue app now t"
        using Cons cmp False by (subst tcp_process_rx_queue.simps) (simp add: t_def)
      moreover have "p \<le> p1" by (simp add: p1_def)
      ultimately show ?thesis using order_trans by metis
    qed
  qed
qed

section \<open>Segments of the peer\<close>

text \<open>
  A segment is one the peer can have sent: a SYN carries the initial sequence number; data and FIN
  are part of the stream, at an offset that lies within a quarter of the sequence space of the
  position.  Segments without data, SYN or FIN are not restricted.
\<close>

definition peer_segment :: "u8 list \<Rightarrow> u32 \<Rightarrow> nat \<Rightarrow> tcp_header \<Rightarrow> u8 list \<Rightarrow> bool" where
  "peer_segment S irs p hdr iobuf \<longleftrightarrow>
     (th_flags hdr AND TCP_SYN \<noteq> 0 \<longrightarrow> th_seq hdr = irs \<and> p \<le> 2 ^ 30) \<and>
     (iobuf \<noteq> [] \<or> th_flags hdr AND TCP_FIN \<noteq> 0 \<longrightarrow>
        (\<exists>n. data_seq hdr = sq irs n \<and> slice_at S n iobuf \<and> length iobuf < 2 ^ 16 \<and>
             (th_flags hdr AND TCP_FIN \<noteq> 0 \<longrightarrow> n + length iobuf = length S) \<and>
             n \<le> p + 2 ^ 30 \<and> p \<le> n + 2 ^ 30))"

lemma tcp_rx_enqueue_rx:
  assumes rx: "rx_inv S irs p tcp" and queue: "queue_at S irs (p + 1) p ns (rx_queue tcp)"
    and peer: "peer_segment S irs p hdr iobuf"
  shows "\<exists>lo ns'. queue_at S irs lo p ns' (rx_queue (tcp_rx_enqueue tcp (data_seq hdr) (th_flags hdr) iobuf)) \<and>
    p < lo + 2 ^ 17"
proof -
  define fin where "fin = (if th_flags hdr AND TCP_FIN \<noteq> 0 then 1 else 0 :: nat)"
  define q where "q = \<lparr>q_seq = data_seq hdr, q_nxt = data_seq hdr + word_of_nat (length iobuf + fin),
      q_flags = th_flags hdr AND TCP_FIN, q_data = iobuf\<rparr>"
  have eq: "tcp_rx_enqueue tcp (data_seq hdr) (th_flags hdr) iobuf =
      (if \<not> bit (tcp_state tcp) 17 \<or> tcp_cmp (q_seq q) (rcv_ack tcp + rcv_win tcp) \<ge> 0 \<or>
          tcp_cmp (q_nxt q) (rcv_ack tcp) < 0 \<or> word_of_nat (length iobuf + fin) = (0 :: u32)
       then tcp else tcp\<lparr>rx_queue := enqueue_rx q (rx_queue tcp)\<rparr>)"
    by (simp add: tcp_rx_enqueue_def Let_def q_def fin_def rcvd_bits)
  have same: ?thesis if "tcp_rx_enqueue tcp (data_seq hdr) (th_flags hdr) iobuf = tcp"
    using queue that by (intro exI [of _ "p + 1"] exI [of _ ns]) simp
  show ?thesis
  proof (cases "tcp_rx_enqueue tcp (data_seq hdr) (th_flags hdr) iobuf = tcp")
    case False
    then have c: "bit (tcp_state tcp) 17" "tcp_cmp (q_seq q) (rcv_ack tcp + rcv_win tcp) < 0"
      "tcp_cmp (q_nxt q) (rcv_ack tcp) \<ge> 0" "length iobuf + fin \<noteq> 0"
      by (auto simp: eq split: if_splits intro: ccontr)
    then have "iobuf \<noteq> [] \<or> th_flags hdr AND TCP_FIN \<noteq> 0" by (auto simp: fin_def split: if_splits)
    then obtain n where n: "data_seq hdr = sq irs n" "slice_at S n iobuf" "length iobuf < 2 ^ 16"
        "th_flags hdr AND TCP_FIN \<noteq> 0 \<longrightarrow> n + length iobuf = length S" "n \<le> p + 2 ^ 30" "p \<le> n + 2 ^ 30"
      using peer by (auto simp: peer_segment_def)
    have fin: "q_fin q = fin" by (simp add: q_fin_def q_def fin_def and.assoc)
    then have q: "queued_at S irs n q"
      using n c(4) sq_add [of irs n "length iobuf + fin"]
      by (auto simp: queued_at_def q_def fin_def add.assoc)
    have ack: "rcv_ack tcp = sq irs p" and win: "unat (rcv_win tcp) \<le> 2 ^ 21"
      using rx c(1) by (simp_all add: rx_inv_def word_le_nat_alt tcp_consts)
    have "fin \<le> 1" by (simp add: fin_def)
    have "tcp_cmp (sq irs n) (sq irs (p + unat (rcv_win tcp))) = int n - int (p + unat (rcv_win tcp))"
      using n(5,6) win by (intro tcp_cmp_sq) simp_all
    then have "int n < int (p + unat (rcv_win tcp))"
      using c(2) by (simp add: q_def n(1) ack sq_add_word del: of_nat_add unat_of_nat)
    then have "n < p + unat (rcv_win tcp)" by (simp only: of_nat_less_iff)
    then have up: "n \<le> p + 2 ^ 21" using win by simp
    have "q_nxt q = sq irs (n + length iobuf + fin)" using q by (simp add: queued_at_def fin) (simp add: q_def)
    moreover have "tcp_cmp (sq irs (n + length iobuf + fin)) (sq irs p) = int (n + length iobuf + fin) - int p"
      using n(3,5,6) \<open>fin \<le> 1\<close> by (intro tcp_cmp_sq) simp_all
    ultimately have down: "p \<le> n + length iobuf + fin" using c(3) by (simp add: ack)
    define lo where "lo = min (p + 1) n"
    have "queue_at S irs lo p ns (rx_queue tcp)" using queue by (rule queue_at_mono) (simp_all add: lo_def)
    then have "\<exists>ns'. queue_at S irs lo p ns' (enqueue_rx q (rx_queue tcp))"
      using q up down n(3) \<open>fin \<le> 1\<close> by (intro enqueue_rx_at) (simp_all add: lo_def)
    moreover have "p < lo + 2 ^ 17" using down n(3) \<open>fin \<le> 1\<close> by (simp add: lo_def)
    ultimately show ?thesis using False by (auto simp: eq split: if_splits)
  qed (rule same)
qed

lemma rx_syn_rx:
  assumes rx: "rx_inv S irs p tcp" and "tcp_state tcp \<noteq> 4" and peer: "peer_segment S irs p hdr iobuf"
  shows "rx_inv S irs p (rx_syn hdr options tcp)" and "rx_queue (rx_syn hdr options tcp) = rx_queue tcp"
proof -
  have "rx_inv S irs p (tcp_rx_syn tcp (th_seq hdr) options) \<and>
      rx_queue (tcp_rx_syn tcp (th_seq hdr) options) = rx_queue tcp" if syn: "th_flags hdr AND TCP_SYN \<noteq> 0"
  proof -
    have irs: "th_seq hdr = irs" "p \<le> 2 ^ 30" using peer syn by (simp_all add: peer_segment_def)
    show ?thesis
    proof (cases rule: tcp_rx_syn_cases [of tcp "th_seq hdr" options])
      case again
      have "sq irs p = irs" using again rx irs by (simp add: rx_inv_def)
      then have "word_of_nat (p + 1) = (0 :: u32)" by (simp add: sq_def add.commute)
      then have "unat (word_of_nat (p + 1) :: u32) = 0" by simp
      then show ?thesis using irs(2) by (subst (asm) unat_of_nat_small) simp_all
    next
      case (first f a b)
      have "p = 0" "\<not> bit (tcp_state tcp) 16" "rx_queue tcp = []" using rx first(2) assms(2) by (simp_all add: rx_inv_def)
      moreover have "bit (tcp_state tcp OR (TCP_STATE_SENT TCP_ACK OR TCP_STATE_RCVD TCP_SYN)) 17"
        "bit (tcp_state tcp OR (TCP_STATE_SENT TCP_ACK OR TCP_STATE_RCVD TCP_SYN)) 16 = bit (tcp_state tcp) 16"
        by (simp_all add: flag_num bit_or_iff)
      ultimately show ?thesis
        using rx irs(1) rcv_win_rx_seq [of tcp TCP_MAX_WINDOW_SIZE 1]
        by (auto simp: first(1) rx_inv_def sq_def)
    qed (use rx in simp)
  qed
  then show "rx_inv S irs p (rx_syn hdr options tcp)" "rx_queue (rx_syn hdr options tcp) = rx_queue tcp"
    using rx by (simp_all add: rx_syn_def)
qed

section \<open>The events of a connection\<close>

definition rx_state :: "u8 list \<Rightarrow> u32 \<Rightarrow> nat \<Rightarrow> tcp_connection \<Rightarrow> bool" where
  "rx_state S irs p tcp \<longleftrightarrow>
     tcp_inv tcp \<and> rx_inv S irs p tcp \<and> (\<exists>ns. queue_at S irs (p + 1) p ns (rx_queue tcp))"

lemma rx_state_same: "rx_state S irs p tcp \<Longrightarrow> rx_same tcp tcp' \<Longrightarrow> tcp_inv tcp' \<Longrightarrow> rx_state S irs p tcp'"
  unfolding rx_state_def using rx_inv_same queue_at_prefix unfolding rx_same_def by blast

lemma inv_queue: "tcp_inv tcp \<Longrightarrow> tcp_state tcp \<noteq> 4 \<or> rx_queue tcp = []"
  by (auto simp: inv_at)

lemma rx_same_frame:
  assumes "tcp_state tcp \<noteq> 4 \<or> rx_queue tcp = []"
    and "tcp_state tcp' = tcp_state tcp" "rx_queue tcp' = rx_queue tcp" "rcv_ack tcp' = rcv_ack tcp"
      "rcv_win tcp' = rcv_win tcp" "xf_status (tcp_xfer tcp') = xf_status (tcp_xfer tcp)"
      "xf_delivered (tcp_xfer tcp') = xf_delivered (tcp_xfer tcp)"
  shows "rx_same tcp tcp'"
  using assms by (auto simp: rx_same_def)

lemma discards_same:
  assumes "tcp_state tcp \<noteq> 4 \<or> rx_queue tcp = []"
  shows "rx_same tcp ((discard_rx ^^ k) tcp)"
  by (rule discard_rx_cases [of k tcp]) (use assms in \<open>auto simp: rx_same_def\<close>)

lemma tcp_xmit_reset_same:
  assumes "tcp_state tcp \<noteq> 4 \<or> rx_queue tcp = []"
  shows "rx_same tcp (fst (tcp_xmit_reset env tcp a b c d))"
  by (rule discard_rx_cases [of "xe_discards env" tcp])
    (use assms in \<open>auto simp: rx_same_def tcp_xmit_reset_def Let_def\<close>)

lemma rx_acks_same:
  assumes "listed tcp" and "tcp_inv tcp"
  shows "rx_same tcp (rx_order hdr (fst (rx_acks env hdr tcp)))"
proof -
  let ?t = "fst (rx_acks env hdr tcp)"
  have st: "tcp_state tcp \<noteq> 4" using assms by (simp add: tcp_inv_listed)
  have "rx_same tcp ?t"
  proof (cases "th_flags hdr AND TCP_ACK = 0")
    case False
    let ?a = "tcp_rx_ack (rx_now env) tcp (th_ack hdr) (scale_win (th_win hdr) (snd_win_scale tcp))"
    have "rx_queue (fst ?a) = rx_queue tcp"
      by (cases rule: tcp_rx_ack_cases [of "rx_now env" tcp "th_ack hdr" "scale_win (th_win hdr) (snd_win_scale tcp)"]) simp_all
    moreover have "bit (tcp_state (fst ?a)) 17 = bit (tcp_state tcp) 17" "bit (tcp_state (fst ?a)) 16 = bit (tcp_state tcp) 16"
      by (simp_all add: rx_ack_rcvd)
    ultimately show ?thesis using st False by (simp add: rx_acks_def rx_same_def)
  qed (use st in \<open>simp add: rx_acks_def rx_same_refl\<close>)
  then show ?thesis by (simp add: rx_same_def)
qed

lemma rx_finish_same:
  assumes inv: "tcp_inv tcp" and "listed tcp"
  shows "rx_same tcp (rx_finish env w seq tcp)"
proof -
  define t where "t = tcp_dump_state tcp"
  have t: "tcp_inv t" "listed t" using assms by (simp_all add: t_def tcp_dump_state_def tcp_inv_frame)
  have same_t: "rx_same tcp t" by (rule rx_same_frame [OF inv_queue [OF inv]]) (simp_all add: t_def tcp_dump_state_def)
  define u where "u = (if rx_queue t = [] then t\<lparr>tcp_process := True\<rparr> else tcp_xmit_sack (rx_xmit env) t seq)"
  have "tcp_inv (t\<lparr>tcp_process := True\<rparr>)"
    using t(1) by (rule tcp_inv_states) (use t in \<open>simp_all add: inv_at\<close>)
  then have u: "tcp_inv u" using t tcp_xmit_sack_inv by (simp add: u_def)
  have "rx_same t (t\<lparr>tcp_process := True\<rparr>)" by (rule rx_same_frame [OF inv_queue [OF t(1)]]) simp_all
  then have same_u: "rx_same t u" using tcp_xmit_sack_same [OF inv_queue [OF t(1)]] by (simp add: u_def)
  define v where "v = (if TCP_CLOSED_GRACEFULLY (tcp_state u)
                 then u\<lparr>wait_timer := start_timer_fixed (rx_now env)
                            (stop_timer (rx_now env) (wait_timer u)) (2 * TCP_MSL)\<rparr>
                 else u)"
  have v: "tcp_inv v" using u unfolding v_def closed_gracefully [OF u]
    by (cases "tcp_state u = 0x30313") (simp_all add: inv_at)
  have same_v: "rx_same u v" by (rule rx_same_frame [OF inv_queue [OF u]]) (simp_all add: v_def)
  define x where "x = v\<lparr>tcp_xfer := (tcp_xfer v)\<lparr>xf_window_changed := xf_window_changed (tcp_xfer v) + 1\<rparr>\<rparr>"
  have x: "tcp_inv x" using v by (simp add: x_def tcp_inv_frame)
  have same_x: "rx_same v x" by (rule rx_same_frame [OF inv_queue [OF v]]) (simp_all add: x_def)
  have "rx_same v (xfer_window_changed (rx_app env) v)"
    using rx_same_trans [OF same_x app_run_same [OF x]] rx_same_refl [OF inv_queue [OF v]]
    by (simp add: xfer_window_changed_def x_def Let_def)
  then have "rx_same tcp (if tcp_xfer_window v \<noteq> w then xfer_window_changed (rx_app env) v else v)"
    using rx_same_trans [OF rx_same_trans [OF rx_same_trans [OF same_t same_u] same_v]] rx_same_refl [OF inv_queue [OF v]]
    by simp
  then show ?thesis
    unfolding rx_finish_def Let_def t_def [symmetric] u_def [symmetric] v_def [symmetric] .
qed

lemma rx_rst_same:
  assumes "tcp_state tcp \<noteq> 4 \<or> rx_queue tcp = []"
  shows "rx_same tcp (fst (rx_rst env hdr tcp))"
  using rx_same_refl [OF assms] tcp_close_CLOSED_same [of tcp "Inl ECONNRESET" ECONNRESET "rx_now env"]
  by (simp add: rx_rst_def tcp_rx_rst_def)

text \<open>The rest of the handler, from a connection on which the SYN has been handled.\<close>

lemma rx_rest_rx:
  assumes rx: "rx_state S irs p tcp" and "listed tcp" and peer: "peer_segment S irs p hdr iobuf"
  shows "\<exists>p'. p \<le> p' \<and> p' \<le> p + 2 ^ 21 + 2 ^ 17 \<and>
    rx_state S irs p' (case rx_rst env hdr tcp of (t, Inl e) \<Rightarrow> t | (t, Inr _) \<Rightarrow>
     rx_finish env w (data_seq hdr) (tcp_process_rx_queue (rx_app env) (rx_now env)
        (tcp_rx_enqueue t (data_seq hdr) (th_flags hdr) iobuf)))"
proof (cases "rx_rst env hdr tcp")
  case (Pair t rc)
  have inv: "tcp_inv tcp" using rx by (simp add: rx_state_def)
  show ?thesis
  proof (cases rc)
    case (Inl e)
    then show ?thesis
      using rx_state_same [OF rx rx_rst_same [OF inv_queue [OF inv], of env hdr] rx_rst_inv [OF inv, of env hdr]] Pair
      by (intro exI [of _ p]) simp
  next
    case (Inr x)
    then have t: "t = tcp" using rx_rst_ok Pair by simp
    define u where "u = tcp_rx_enqueue tcp (data_seq hdr) (th_flags hdr) iobuf"
    define v where "v = tcp_process_rx_queue (rx_app env) (rx_now env) u"
    have u: "tcp_inv u" "listed u" using inv assms(2) by (simp_all add: u_def tcp_rx_enqueue_inv)
    have v: "tcp_inv v" "listed v" using u by (simp_all add: v_def tcp_process_rx_queue_inv tcp_process_rx_queue_listed)
    have "rx_inv S irs p u"
      using rx unfolding u_def tcp_rx_enqueue_def Let_def rcvd_bits by (simp add: rx_state_def rx_inv_queue)
    moreover obtain lo ns where "queue_at S irs lo p ns (rx_queue u)" "p < lo + 2 ^ 17"
      using rx tcp_rx_enqueue_rx [OF _ _ peer] unfolding rx_state_def u_def by blast
    ultimately obtain p' ns' where p': "p \<le> p'" "p' \<le> p + 2 ^ 21 + 2 ^ 17" "rx_inv S irs p' v"
        "queue_at S irs (p' + 1) p ns' (rx_queue v)"
      using tcp_process_rx_queue_rx [OF u(1), of S irs p lo p ns "rx_app env" "rx_now env"] by (auto simp: v_def)
    then have "rx_state S irs p' v" using v(1) queue_at_mono [OF p'(4) order_refl p'(1)] by (auto simp: rx_state_def)
    then have "rx_state S irs p' (rx_finish env w (data_seq hdr) v)"
      using rx_finish_same [OF v] rx_finish_inv [OF v] by (rule rx_state_same)
    then show ?thesis using p'(1,2) Pair Inr t by (auto simp: u_def v_def)
  qed
qed

lemma tcp_rx_connection_rx:
  assumes rx: "rx_state S irs p tcp" and "listed tcp" and "tcp_expects tcp hdr" and peer: "peer_segment S irs p hdr iobuf"
  shows "\<exists>p'. p \<le> p' \<and> p' \<le> p + 2 ^ 21 + 2 ^ 17 \<and>
    rx_state S irs p' (fst (tcp_rx_connection env tcp hdr options iobuf))"
proof -
  have inv: "tcp_inv tcp" using rx by (simp add: rx_state_def)
  define t where "t = fst (rx_acks env hdr tcp)"
  have same: "rx_same tcp (rx_order hdr t)" unfolding t_def by (rule rx_acks_same [OF assms(2) inv])
  then have same': "rx_same tcp t" by (simp add: rx_same_def)
  have rx_t: "rx_inv S irs p (rx_order hdr t)" using rx same by (auto simp: rx_state_def intro: rx_inv_same)
  have "\<exists>ns. queue_at S irs (p + 1) p ns (rx_queue t)"
    using rx same' queue_at_prefix unfolding rx_same_def rx_state_def by blast
  have "listed t" using assms(2) by (simp add: t_def rx_acks_def)
  show ?thesis
  proof (cases rule: rx_syn_stage [OF inv assms(2,3), where env = env and options = options])
    case (1 u e)
    then have "u = t" by (simp add: t_def)
    then have "rx_state S irs p t" using rx same' 1(2) rx_state_same by simp
    then have "rx_state S irs p (fst (tcp_xmit_reset (rx_xmit env) t (th_src hdr) (th_dest hdr) (th_seq hdr) (th_ack hdr)))"
      using 1(2) inv_queue [of t] \<open>u = t\<close> by (intro rx_state_same [OF _ tcp_xmit_reset_same] tcp_xmit_reset_inv) simp_all
    then show ?thesis using 1 \<open>u = t\<close> by (intro exI [of _ p]) (simp add: tcp_rx_connection_eq)
  next
    case (2 u)
    then have u: "u = t" by (simp add: t_def)
    have st: "tcp_state (rx_order hdr t) \<noteq> 4"
    proof -
      let ?s = "rx_syn hdr options (rx_order hdr t)"
      have "bit (tcp_state ?s) 1"
        using 2(3) by (rule tcp_inv_states) (use tcp_inv_listed [OF 2(3)] 2(2) u in \<open>simp_all\<close>)
      then show ?thesis
        by (cases rule: tcp_rx_syn_cases [of "rx_order hdr t" "th_seq hdr" options])
          (auto simp: rx_syn_def flag_num split: if_splits)
    qed
    have "rx_state S irs p (rx_syn hdr options (rx_order hdr t))"
      using rx_syn_rx [OF rx_t st peer, of options] 2(3) u \<open>\<exists>ns. _\<close> by (simp add: rx_state_def)
    from rx_rest_rx [OF this _ peer, of env "tcp_xfer_window tcp"] show ?thesis
      using 2(1,2) u by (simp add: tcp_rx_connection_eq)
  next
    case (3 u v)
    then have u: "u = t" by (simp add: t_def)
    let ?s = "rx_syn hdr options (rx_order hdr t)"
    have syn: "rx_inv S irs p ?s" "rx_queue ?s = rx_queue t"
      using rx_syn_rx [OF rx_t _ peer, of options] 3(4) u by simp_all
    have "\<not> bit (4 :: u32) 17" by simp
    then have "rx_same ?s v" using rx_rst_same [of ?s env hdr] 3(2) u syn(1) unfolding rx_inv_def by fastforce
    then have "rx_inv S irs p v" "prefix (rx_queue v) (rx_queue t)"
      using rx_inv_same [OF syn(1)] syn(2) by (simp_all add: rx_same_def)
    then have "rx_state S irs p v" using 3(3) \<open>\<exists>ns. _\<close> queue_at_prefix unfolding rx_state_def by blast
    then show ?thesis using 3 u by (intro exI [of _ p]) (simp add: tcp_rx_connection_eq)
  qed
qed

lemma rx_timestamp_same:
  assumes "tcp_inv tcp"
  shows "rx_same tcp (rx_timestamp tcp options)"
  by (rule rx_same_frame [OF inv_queue [OF assms]]) (simp_all add: rx_timestamp_def split: option.split)

lemma tcp_retry_same:
  assumes inv: "tcp_inv tcp"
  shows "rx_same tcp (retry_fires env tcp)"
proof -
  obtain timer over where e: "timer_expired (retry tcp) = (timer, over)" by fastforce
  let ?t = "tcp\<lparr>retry := timer\<rparr>"
  have t: "rx_same tcp ?t" by (rule rx_same_frame [OF inv_queue [OF inv]]) simp_all
  have "rx_same ?t (tcp_expired env ?t over)"
    using tcp_close_CLOSED_same [of ?t "Inl ETIMEDOUT" ETIMEDOUT] tcp_xmit_sack_same [of ?t] inv_queue [OF inv]
    by (simp add: tcp_expired_def tcp_xmit_def)
  then show ?thesis using rx_same_trans [OF t] by (simp add: retry_fires_def e)
qed

lemma tcp_wait_same:
  assumes inv: "tcp_inv tcp" and "running (wait_timer tcp)"
  shows "rx_same tcp (wait_fires now tcp)"
proof -
  let ?t = "tcp\<lparr>wait_timer := fst (timer_expired (wait_timer tcp))\<rparr>"
  have t: "rx_same tcp ?t" by (rule rx_same_frame [OF inv_queue [OF inv]]) simp_all
  have "xf_status (tcp_xfer tcp) \<noteq> Xfer_open"
    using inv by (rule tcp_inv_states) (use assms in \<open>simp_all add: inv_at\<close>)
  then have "rx_same ?t (wait_fires now tcp)"
    unfolding wait_fires_def tcp_wait_expired_def by (intro tcp_close_CLOSED_same) simp
  then show ?thesis by (rule rx_same_trans [OF t])
qed

lemma tcp_handle_rx:
  assumes rx: "rx_state S irs p tcp" and enabled: "tcp_enabled tcp i"
    and seg: "case i of In_segment env hdr options iobuf \<Rightarrow> tcp_expects tcp hdr \<and> peer_segment S irs p hdr iobuf | _ \<Rightarrow> True"
  shows "\<exists>p'. p \<le> p' \<and> p' \<le> p + 2 ^ 21 + 2 ^ 17 \<and> rx_state S irs p' (tcp_handle tcp i)"
proof -
  have inv: "tcp_inv tcp" using rx by (simp add: rx_state_def)
  have same: ?thesis if "rx_same tcp (tcp_handle tcp i)" "tcp_inv (tcp_handle tcp i)"
    using rx_state_same [OF rx that] by (intro exI [of _ p]) simp
  have xmit: "rx_same tcp (tcp_xmit_sack e t x)"
    if "tcp_state t = tcp_state tcp" "rx_queue t = rx_queue tcp" "rcv_ack t = rcv_ack tcp"
      "rcv_win t = rcv_win tcp" "tcp_xfer t = tcp_xfer tcp" for e t x
    using rx_same_trans [OF rx_same_frame [OF inv_queue [OF inv], of t] tcp_xmit_sack_same [of t]] that inv_queue [OF inv] by simp
  show ?thesis
  proof (cases i)
    case (In_segment env hdr options iobuf)
    have ts: "tcp_inv (rx_timestamp tcp options)" "listed (rx_timestamp tcp options)" "tcp_expects (rx_timestamp tcp options) hdr"
      using inv enabled seg In_segment by (simp_all add: rx_timestamp_def tcp_inv_frame tcp_expects_def split: option.split)
    have "rx_state S irs p (rx_timestamp tcp options)"
      using rx_state_same [OF rx rx_timestamp_same [OF inv] ts(1)] .
    from tcp_rx_connection_rx [OF this ts(2,3)] show ?thesis using seg by (simp add: In_segment)
  next
    case In_retry
    then show ?thesis using inv by (intro same) (simp_all add: tcp_retry_same tcp_retry_inv)
  next
    case In_keepalive
    then show ?thesis using inv enabled
      by (intro same) (simp_all add: tcp_keepalive_inv, simp add: keepalive_fires_def tcp_keepalive_expired_def tcp_xmit_def xmit)
  next
    case (In_wait now)
    have "tcp_inv (tcp_handle tcp i)" using tcp_inv_pending [OF inv]
      by (simp add: In_wait wait_fires_def tcp_wait_expired_def tcp_close_CLOSED_inv)
    then show ?thesis using inv enabled In_wait by (intro same) (simp_all add: tcp_wait_same)
  next
    case In_process
    then show ?thesis using inv
      by (intro same) (simp_all add: tcp_process_inv, simp add: tcp_step_process_def tcp_xmit_def xmit)
  next
    case In_app
    then show ?thesis using inv by (intro same) (simp_all add: app_act_same app_act_inv del: app_act.simps)
  next
    case In_discard
    then show ?thesis using inv discard_rx_inv [OF inv, of 1] discards_same [OF inv_queue [OF inv], of 1]
      by (intro same) simp_all
  qed
qed

section \<open>In-order delivery\<close>

text \<open>
  The position after an event, read off the acknowledgement number: an event advances it by less
  than the sequence space.
\<close>

definition rx_position :: "u32 \<Rightarrow> nat \<Rightarrow> tcp_connection \<Rightarrow> nat" where
  "rx_position irs p tcp = (if bit (tcp_state tcp) 17 then p + unat (rcv_ack tcp - sq irs p) else p)"

text \<open>
  The connections at a position of the stream \<open>S\<close>, after any sequence of events in which the
  segments are those of a peer that sends \<open>S\<close> from the initial sequence number \<open>irs\<close> and follows the
  handshake (\<open>tcp_expects\<close>).
\<close>

inductive rx_run :: "u8 list \<Rightarrow> u32 \<Rightarrow> nat \<Rightarrow> tcp_connection \<Rightarrow> bool"
  for S :: "u8 list" and irs :: u32 where
  start: "rx_run S irs 0 (opened_connection peer seq mss port now)"
| step: "rx_run S irs p tcp \<Longrightarrow> tcp_enabled tcp i \<Longrightarrow>
    (case i of In_segment env hdr options iobuf \<Rightarrow> tcp_expects tcp hdr \<and> peer_segment S irs p hdr iobuf | _ \<Rightarrow> True) \<Longrightarrow>
    tcp' = tcp_handle tcp i \<Longrightarrow> p' = rx_position irs p tcp' \<Longrightarrow> rx_run S irs p' tcp'"

lemma rx_position_eq:
  assumes "rx_inv S irs p' tcp" and "p \<le> p'" and "p' \<le> p + 2 ^ 21 + 2 ^ 17" and "bit (tcp_state tcp) 17"
  shows "rx_position irs p tcp = p'"
proof -
  have "rcv_ack tcp - sq irs p = word_of_nat (p' - p)" using assms sq_diff by (simp add: rx_inv_def)
  moreover have "unat (word_of_nat (p' - p) :: u32) = p' - p" using assms(3) by (intro unat_of_nat_small) simp
  ultimately show ?thesis using assms(2,4) by (simp add: rx_position_def)
qed

lemma rx_state_unsynced:
  assumes rx: "rx_state S irs p' tcp" and "p \<le> p'" and unsynced: "\<not> bit (tcp_state tcp) 17"
  shows "rx_state S irs p tcp"
proof -
  have "tcp_state tcp = 4 \<Longrightarrow> xf_status (tcp_xfer tcp) \<noteq> Xfer_open"
    using rx tcp_inv_closed by (auto simp: rx_state_def)
  moreover have "rx_queue tcp = []" using rx unsynced by (simp add: rx_state_def rx_inv_def)
  then have "queue_at S irs (p + 1) p [] (rx_queue tcp)" by (simp add: queue_at_def)
  ultimately show ?thesis using assms unfolding rx_state_def rx_inv_def by auto
qed

lemma rx_run_state: "rx_run S irs p tcp \<Longrightarrow> rx_state S irs p tcp"
proof (induction rule: rx_run.induct)
  case (start peer seq mss port now)
  let ?t = "opened_connection peer seq mss port now"
  have "rx_inv S irs 0 ?t" by (simp add: rx_inv_def opened_connection_def new_connection_def tcp_consts)
  moreover have "queue_at S irs 1 0 [] (rx_queue ?t)" by (simp add: queue_at_def opened_connection_def new_connection_def)
  ultimately show ?case using opened_inv by (auto simp: rx_state_def)
next
  case (step p tcp i tcp' p')
  obtain r where r: "p \<le> r" "r \<le> p + 2 ^ 21 + 2 ^ 17" "rx_state S irs r tcp'"
    using tcp_handle_rx [OF step.IH step.hyps(2,3)] step.hyps(4) by blast
  show ?case
  proof (cases "bit (tcp_state tcp') 17")
    case True
    then have "p' = r" using rx_position_eq [OF _ r(1,2) True] r(3) step.hyps(5) unfolding rx_state_def by metis
    then show ?thesis using r(3) by simp
  next
    case False
    then have "p' = p" using step.hyps(5) by (simp add: rx_position_def)
    then show ?thesis using rx_state_unsynced [OF r(3,1) False] by simp
  qed
qed

lemma queue_at_beyond:
  assumes "queue_at S irs (p + 1) p ns queue" and "q \<in> set queue"
  shows "tcp_cmp (q_seq q) (sq irs p) > 0"
proof -
  obtain i where i: "i < length queue" "q = queue ! i" using assms(2) by (auto simp: in_set_conv_nth)
  then have n: "queued_at S irs (ns ! i) q" "p + 1 \<le> ns ! i" "ns ! i \<le> p + 2 ^ 21"
    using assms(1) by (auto simp: queue_at_def list_all2_conv_all_nth)
  have "tcp_cmp (sq irs (ns ! i)) (sq irs p) = int (ns ! i) - int p" using n by (intro tcp_cmp_sq) simp_all
  then show ?thesis using n by (simp add: queued_at_def)
qed

text \<open>A run that computes, with the offset of each segment.\<close>

fun offset_ok :: "u8 list \<Rightarrow> u32 \<Rightarrow> nat \<Rightarrow> nat \<Rightarrow> tcp_connection \<Rightarrow> tcp_input \<Rightarrow> bool" where
  "offset_ok S irs p n tcp (In_segment env hdr options iobuf) \<longleftrightarrow>
     tcp_expects tcp hdr \<and> (th_flags hdr AND TCP_SYN \<noteq> 0 \<longrightarrow> th_seq hdr = irs \<and> int p \<le> 2 ^ 30) \<and>
     (iobuf \<noteq> [] \<or> th_flags hdr AND TCP_FIN \<noteq> 0 \<longrightarrow>
        data_seq hdr = sq irs n \<and> slice_at S n iobuf \<and> int (length iobuf) < 2 ^ 16 \<and>
        (th_flags hdr AND TCP_FIN \<noteq> 0 \<longrightarrow> n + length iobuf = length S) \<and>
        int n \<le> int p + 2 ^ 30 \<and> int p \<le> int n + 2 ^ 30)"
| "offset_ok S irs p n tcp i \<longleftrightarrow> True"

fun rx_exec :: "u8 list \<Rightarrow> u32 \<Rightarrow> nat \<Rightarrow> tcp_connection \<Rightarrow> (nat \<times> tcp_input) list \<Rightarrow> (nat \<times> tcp_connection) option" where
  "rx_exec S irs p tcp [] = Some (p, tcp)"
| "rx_exec S irs p tcp ((n, i) # is) =
     (if tcp_enabled tcp i \<and> offset_ok S irs p n tcp i
      then let tcp' = tcp_handle tcp i in rx_exec S irs (rx_position irs p tcp') tcp' is
      else None)"

lemma rx_exec_run:
  "rx_run S irs p tcp \<Longrightarrow> rx_exec S irs p tcp is = Some (p', tcp') \<Longrightarrow> rx_run S irs p' tcp'"
proof (induction "is" arbitrary: p tcp)
  case (Cons j "is")
  obtain n i where j: "j = (n, i)" by fastforce
  have ok: "tcp_enabled tcp i" "offset_ok S irs p n tcp i"
    and run: "rx_exec S irs (rx_position irs p (tcp_handle tcp i)) (tcp_handle tcp i) is = Some (p', tcp')"
    using Cons.prems(2) by (auto simp: j Let_def split: if_splits)
  have "case i of In_segment env hdr options iobuf \<Rightarrow> tcp_expects tcp hdr \<and> peer_segment S irs p hdr iobuf | _ \<Rightarrow> True"
    using ok(2) by (cases i) (auto simp: peer_segment_def)
  then have "rx_run S irs (rx_position irs p (tcp_handle tcp i)) (tcp_handle tcp i)"
    using rx_run.step [OF Cons.prems(1) ok(1)] by simp
  then show ?case using run by (rule Cons.IH)
qed simp

lemma rx_run_start: "rx_run S irs 0 sample_conn"
  unfolding sample_conn_def by (rule rx_run.start)

text \<open>
  C3: The application receives the stream of the peer, in order and without gaps or duplicates,
  in whatever order and however often its segments arrive, interleaved with timers, calls
  of the application, failing allocations and discarded queue entries.  The peer follows the handshake,
  and its segments lie within a quarter of the sequence space of the position.  What was delivered is a
  prefix of the stream, at an open interface exactly the bytes up to the position; the acknowledgement
  number names that position; an interface closed without an error has received the whole stream;
  the FIN is taken only after all data; and every queued packet lies beyond a gap.
\<close>

theorem tcp_delivers_in_order:
  assumes "rx_run S irs p tcp"
  shows "prefix (xf_delivered (tcp_xfer tcp)) S \<and>
    (xf_status (tcp_xfer tcp) = Xfer_open \<longrightarrow> xf_delivered (tcp_xfer tcp) = take p S) \<and>
    (xf_status (tcp_xfer tcp) = Xfer_shutdown (Inr ()) \<longrightarrow> xf_delivered (tcp_xfer tcp) = S) \<and>
    (tcp_state tcp AND TCP_STATE_RCVD TCP_SYN \<noteq> 0 \<longrightarrow>
       rcv_ack tcp = irs + 1 + word_of_nat p \<and> p \<le> length S + 1 \<and>
       (tcp_state tcp AND TCP_STATE_RCVD TCP_FIN \<noteq> 0 \<longleftrightarrow> p = length S + 1) \<and>
       (\<forall>q \<in> set (rx_queue tcp). tcp_cmp (q_seq q) (rcv_ack tcp) > 0))"
proof -
  have rx: "rx_inv S irs p tcp" and "\<exists>ns. queue_at S irs (p + 1) p ns (rx_queue tcp)"
    using rx_run_state [OF assms] by (simp_all add: rx_state_def)
  then have "\<forall>q \<in> set (rx_queue tcp). tcp_cmp (q_seq q) (sq irs p) > 0" using queue_at_beyond by blast
  then show ?thesis using rx unfolding rx_inv_def rcvd_bits by (simp add: sq_def)
qed

text \<open>Events while no memory is left for packets.\<close>

definition starved_xmit :: xmit_env where
  "starved_xmit = sample_xmit\<lparr>xe_alloc := False\<rparr>"

definition starved_segment :: "u32 \<Rightarrow> u32 \<Rightarrow> u32 \<Rightarrow> u8 list \<Rightarrow> tcp_input" where
  "starved_segment seq ack flags iobuf =
     In_segment (sample_rx\<lparr>rx_xmit := starved_xmit\<rparr>)
       \<lparr>th_src = 80, th_dest = 40000, th_seq = seq, th_ack = ack, th_flags = flags, th_win = 10\<rparr> no_options iobuf"

theorem tcp_delivers_in_order_witness:
  "case rx_exec [1, 2, 3] 5000 0 sample_conn
      [(0, In_retry sample_xmit), (0, starved_segment 5000 1001 0x12 []), (1, starved_segment 5002 1001 0x11 [2, 3]),
       (0, starved_segment 5001 1001 0x10 [1, 2])] of
     Some (p, t) \<Rightarrow> p = 4 \<and> xf_delivered (tcp_xfer t) = [1, 2, 3] \<and> rcv_ack t = 5005 \<and> rx_queue t = []
   | None \<Rightarrow> False"
proof -
  let ?S = "[1, 2, 3]"
  let ?is = "[(0, In_retry sample_xmit), (0, starved_segment 5000 1001 0x12 []), (1, starved_segment 5002 1001 0x11 [2, 3]),
       (0, starved_segment 5001 1001 0x10 [1, 2])]"
  have "map_option (\<lambda>(p, t). (p, xf_status (tcp_xfer t), bit (tcp_state t) 17, rx_queue t)) (rx_exec ?S 5000 0 sample_conn ?is) =
      Some (4, Xfer_shutdown (Inr ()), True, [])" by code_simp
  then obtain t where t: "rx_exec ?S 5000 0 sample_conn ?is = Some (4, t)" "xf_status (tcp_xfer t) = Xfer_shutdown (Inr ())"
      "bit (tcp_state t) 17" "rx_queue t = []" by auto
  then have "rx_run ?S 5000 4 t" using rx_exec_run rx_run_start by blast
  note this [THEN tcp_delivers_in_order]
  then show ?thesis using t by (simp add: rcvd_bits del: rx_exec.simps)
qed

end
