(* ===== verification/Spec2Isabelle.thy ===== *)
theory Spec2Isabelle
  imports Base64 UriRoundtrip Bitmap Linebuf Utf8 Ansiesc DhcpPkt Nvo Iobuf TcpRx
begin

text \<open>
  Verification of the iPXE network boot firmware as shipped with iVentoy.  All paths below are
  relative to \<^verbatim>\<open>src/iPXE/ipxe-bd13697/src\<close>.

  \<^bold>\<open>The program and its parts.\<close>  iPXE is a boot loader: it configures a network device by DHCP, resolves
  URIs, downloads images over TCP or UDP and starts them.  It runs without an operating system, so
  it brings its own C library, memory allocator, timers and protocol stack.  The development models
  the portable core of it, bottom up:

  \<^item> the C library: strings and memory (\<^verbatim>\<open>core/string.c\<close>, \<^verbatim>\<open>core/ctype.c\<close>), formatted printing
    (\<^verbatim>\<open>core/vsprintf.c\<close>), bit searches (\<^verbatim>\<open>include/strings.h\<close>);
  \<^item> memory: the allocator (\<^verbatim>\<open>core/malloc.c\<close>) and, on top of it, packet buffers (\<^verbatim>\<open>core/iobuf.c\<close>,
    \<^verbatim>\<open>net/iobpad.c\<close>); reference counts (\<^verbatim>\<open>core/refcnt.c\<close>);
  \<^item> text: Base16 and Base64, UTF-8, ANSI escape sequences, line buffers, bitmaps, URIs and request
    parameters (files of these names in \<^verbatim>\<open>core\<close>);
  \<^item> configuration: DHCP option blocks (\<^verbatim>\<open>net/dhcpopts.c\<close>), used by DHCP packets (\<^verbatim>\<open>net/dhcppkt.c\<close>) and
    by the options in non-volatile storage (\<^verbatim>\<open>core/nvo.c\<close> over \<^verbatim>\<open>drivers/nvs/nvs.c\<close>);
  \<^item> the transport layer: checksums, dispatch and ports (\<^verbatim>\<open>net/tcpip.c\<close>), retry timers
    (\<^verbatim>\<open>net/retry.c\<close>), and TCP (\<^verbatim>\<open>net/tcp.c\<close>), which uses both.

  \<^bold>\<open>Theories.\<close>  Each theory opens with an account of its own; definitions carry the names of the C
  functions, with a suffix such as \<open>_loop\<close> for the loop inside one.

  \<^item> \<^verbatim>\<open>Prelude\<close>: the C integer types as words of their width, error codes and results, C strings as
    byte lists, and shared facts on lists and words.
  \<^item> \<^verbatim>\<open>CString\<close>: memory routines on a byte-addressed memory, string routines on byte lists.
    \<^verbatim>\<open>memmove\<close> is right for overlapping areas; \<^verbatim>\<open>strstr\<close> finds the first occurrence.
  \<^item> \<^verbatim>\<open>Vsprintf\<close>: the formatter with its bounded buffer.  It never writes outside the buffer and
    always terminates it; numbers are read back by \<^verbatim>\<open>strtoul\<close>.
  \<^item> \<^verbatim>\<open>Base16\<close>, \<^verbatim>\<open>Base64\<close>: round trips, exact lengths, and the strings that are accepted.
  \<^item> \<^verbatim>\<open>Params\<close>: the registry of parameter lists with reference counts, as a store indexed by address.
  \<^item> \<^verbatim>\<open>UriCodec\<close>, \<^verbatim>\<open>Uri\<close>, \<^verbatim>\<open>UriRoundtrip\<close>: decoding in place on one memory, encoding, parsing, formatting,
    duplication and path resolution.  Parsing inverts formatting, the two passes of the copy agree,
    and nothing is written outside the allocated block.
  \<^item> \<^verbatim>\<open>Bitmap\<close>, \<^verbatim>\<open>Linebuf\<close>, \<^verbatim>\<open>Utf8\<close>, \<^verbatim>\<open>Ansiesc\<close>: the cursor of a bitmap is its first gap; lines do not
    depend on how the input is cut into chunks; the decoder recovers from every state; escape
    sequences are taken apart exactly, and the parameter index stays in range.
  \<^item> \<^verbatim>\<open>DhcpOpts\<close>, \<^verbatim>\<open>DhcpPkt\<close>, \<^verbatim>\<open>Nvs\<close>, \<^verbatim>\<open>Nvo\<close>: option blocks on raw memory refine a finite map of options:
    a store succeeds exactly when the value fits, and then fetches return what was stored.  The
    locale \<open>dhcpopt_reallocator\<close> is what a block asks of the function that resizes it; it is
    interpreted on the fixed block of a packet and on the growing block of \<^verbatim>\<open>core/nvo.c\<close>.  Writes to the
    device are read back in full, so a stored option survives a reload.
  \<^item> \<^verbatim>\<open>Bits\<close>, \<^verbatim>\<open>Malloc\<close>, \<^verbatim>\<open>Iobuf\<close>: the free list of the allocator, with alignment, merging and the emptying
    of caches.  Live blocks never overlap, allocation fails only when nothing fits, and all memory
    is recovered.  The locales \<open>block_allocator\<close> and \<open>memory_allocator\<close> are the contract that the C
    interface and the packet buffers rest on, interpreted on the allocator's definitions.
  \<^item> \<^verbatim>\<open>Tcpip\<close>: the Internet checksum on bytes with its folding of carries, dispatch through tables of
    protocols, and the choice of a port.
  \<^item> \<^verbatim>\<open>Retry\<close>: timers with exponential back-off, and the poll of the running ones.  A timer that is
    restarted gives up after a bounded number of expiries.
  \<^item> \<^verbatim>\<open>Tcp\<close>: the record \<open>tcp_connection\<close> and the functions of \<^verbatim>\<open>net/tcp.c\<close>, all but the opener of URIs, in the order
    of their dependencies.  \<open>tcp_handle\<close> applies one event (a segment, a timer, the transmission
    process, a call of the application, a cache discard) to a connection.
  \<^item> \<^verbatim>\<open>TcpAck\<close>: the transmit queue and the handler of acknowledgements in closed form.
  \<^item> \<^verbatim>\<open>TcpState\<close>: the invariant of each state, and that every handler keeps it.  Connections that events
    in any order can lead to are well formed, and the assertions of the source hold in them; two
    lemmas show that they fail without the two conditions on the peer.
  \<^item> \<^verbatim>\<open>TcpRx\<close>: the receive path against the stream of the peer.  Sequence numbers wrap at 32 bits; the
    offset in the stream is a natural number of any size, and the application receives the stream
    in order whatever the network does to the segments.

  \<^bold>\<open>State and effects.\<close>  A structure is a record, memory is a function from addresses to bytes where
  aliasing matters and a list of bytes elsewhere, and a function that changes state returns the new state.
  A negative return code is \<open>Inl\<close> of the error.  What comes from outside is an argument: the clock, random
  numbers, whether an allocation succeeds (where the allocator itself is not part of the theorem),
  cache discarders, device methods, the network layer, and the application behind an interface.
  Output is recorded in the state: packets that TCP sent, and data that went through an interface.

  \<^bold>\<open>Loops, bounds and fuel.\<close>  Loops are structural recursions, or functions with a termination proof.
  Loops that C does not bound (the encoder of Base64 with its 32-bit counter, decoding in
  place, emptying caches, block transfers) are partial functions with value \<open>None\<close> where they do not return,
  and the theorems state that they return.  No fuel is used.  Numeric limits in statements
  are those of the code: the bit counter of Base64 limits the input to half a gigabyte, and sizes are below \<open>2 ^ 64\<close>.
  In \<^verbatim>\<open>TcpRx\<close> the segments of the peer lie within \<open>2 ^ 30\<close> bytes of the current position, since comparisons of
  sequence numbers are meaningful only within half of the sequence space, and the duplicates of a SYN
  arrive before \<open>2 ^ 30\<close> bytes of data were received.

  \<^bold>\<open>Not modelled.\<close>
  \<^item> The settings tree (\<^verbatim>\<open>core/settings.c\<close>), processes and the plugging and dispatch of interfaces
    (\<^verbatim>\<open>core/process.c\<close>, \<^verbatim>\<open>core/interface.c\<close>): object graphs linked by container pointers and method tables.
    TCP sees its interface as the history of what went through it.
  \<^item> Most of \<^verbatim>\<open>core/vtoy.c\<close>, the additions of iVentoy: it drives settings, console and DHCP through global
    variables.  Its decimal formatter is in \<^verbatim>\<open>Vsprintf\<close>.
  \<^item> The network layer (\<^verbatim>\<open>net/ipv4.c\<close>, \<^verbatim>\<open>net/ipv6.c\<close>, \<^verbatim>\<open>net/netdevice.c\<close> and below), UDP, the DHCP exchange, DNS,
    TFTP, HTTP and the other clients of the transport layer; storage networks, wireless, peer caching.
  \<^item> Cryptography and TLS, whose correctness is relative to standards that would have to be formalised first.
  \<^item> Image formats, user interface and commands, platform interfaces, device drivers: they act on
    external memory, the console, the firmware and the hardware.
  \<^item> Debug output, profiling, Valgrind annotations and assembly versions of the C library routines; the self
    tests and the vendored GRUB sources.
  \<^item> For TCP: liveness of a transfer, congestion behaviour, and that the SACK blocks sent describe queued data.
\<close>

end
